(* ===== verification/Prelude.thy ===== *)
theory Prelude
  imports Complex_Main "HOL-Library.AList"
begin

text \<open>
  Shared material of the development: the collections of facts the component theories add
  to, the JavaScript containers \<open>Map\<close> and \<open>Set\<close> that every module of the KWin script
  keeps its registries in, and generic lemmas about lists.

  A JavaScript \<open>Map\<close> iterates in insertion order, and \<open>set\<close> on a key that is already
  present keeps its position, so a map is an association list: \<open>map_of\<close> is \<open>get\<close>,
  \<open>AList.update\<close> is \<open>set\<close>, \<open>AList.delete\<close> is \<open>delete\<close>. A \<open>Set\<close> is the list of its
  members in insertion order.
\<close>

named_theorems frame \<open>fields of the script's state an operation leaves alone\<close>
named_theorems op_defs \<open>definitions of the operations of the script\<close>
named_theorems const_defs \<open>definitions of the constants of the script\<close>

section \<open>JavaScript containers\<close>

type_synonym ('k, 'v) jsmap = "('k \<times> 'v) list"

definition jm_has :: "('k, 'v) jsmap \<Rightarrow> 'k \<Rightarrow> bool" where
  [simp]: "jm_has m k \<longleftrightarrow> map_of m k \<noteq> None"

definition js_add :: "'a \<Rightarrow> 'a list \<Rightarrow> 'a list" where
  "js_add x xs = (if x \<in> set xs then xs else xs @ [x])"

text \<open>The interface the modules of the script rely on when they use a \<open>Map\<close>.\<close>

locale js_map =
  fixes get :: "'m \<Rightarrow> 'k \<Rightarrow> 'v option"
    and put :: "'k \<Rightarrow> 'v \<Rightarrow> 'm \<Rightarrow> 'm"
    and del :: "'k \<Rightarrow> 'm \<Rightarrow> 'm"
    and mkeys :: "'m \<Rightarrow> 'k list"
    and invar :: "'m \<Rightarrow> bool"
  assumes get_put: "get (put k v m) = (get m)(k \<mapsto> v)"
    and get_del: "get (del k m) = (get m)(k := None)"
    and keys_dom: "set (mkeys m) = dom (get m)"
    and keys_del: "mkeys (del k m) = removeAll k (mkeys m)"
    and keys_put: "mkeys (put k v m) = js_add k (mkeys m)"
    and invar_distinct: "invar m \<Longrightarrow> distinct (mkeys m)"
    and invar_put: "invar m \<Longrightarrow> invar (put k v m)"
    and invar_del: "invar m \<Longrightarrow> invar (del k m)"
begin

lemma get_fold_del: "get (fold del ks m) = (\<lambda>k. if k \<in> set ks then None else get m k)"
  by (induction ks arbitrary: m) (auto simp: get_del)

lemma invar_fold_del: "invar m \<Longrightarrow> invar (fold del ks m)"
  by (induction ks arbitrary: m) (auto simp: invar_del)

lemma keys_fold_del: "mkeys (fold del ks m) = filter (\<lambda>k. k \<notin> set ks) (mkeys m)"
proof (induction ks arbitrary: m)
  case Nil
  then show ?case by simp
next
  case (Cons a ks)
  have "mkeys (fold del ks (del a m)) = filter (\<lambda>k. k \<notin> set ks) (removeAll a (mkeys m))"
    by (simp add: Cons keys_del)
  then show ?case
    by (auto simp: removeAll_filter_not_eq intro!: filter_cong)
qed

lemma put_fresh_keys: "get m k = None \<Longrightarrow> mkeys (put k v m) = mkeys m @ [k]"
  using keys_dom [of m] by (auto simp: keys_put js_add_def domIff)

end

lemma keys_update: "map fst (AList.update k v m) = js_add k (map fst m)"
  by (induction m) (auto simp: js_add_def)

lemma keys_delete: "map fst (AList.delete k m) = removeAll k (map fst m)"
  by (induction m) auto

interpretation jm: js_map map_of AList.update AList.delete "map fst" "\<lambda>m. distinct (map fst m)"
  by unfold_locales
    (simp_all add: update_conv' delete_conv' dom_map_of_conv_image_fst keys_update keys_delete
      js_add_def distinct_removeAll)

lemmas jm_simps [simp] = jm.get_put jm.get_del
lemmas jm_invars [intro] = jm.invar_put jm.invar_del

lemma js_add_set [simp]: "set (js_add x xs) = insert x (set xs)"
  by (auto simp: js_add_def)

lemma js_add_distinct [intro]: "distinct xs \<Longrightarrow> distinct (js_add x xs)"
  by (auto simp: js_add_def)

lemma delete_empty_other: "AList.delete k m = [] \<Longrightarrow> p \<noteq> k \<Longrightarrow> map_of m p = None"
  using jm.get_del [of k m] by (metis fun_upd_apply map_of.simps(1))

lemma map_of_in_set: "map_of m k = Some v \<Longrightarrow> (k, v) \<in> set m"
  by (rule map_of_SomeD)

section \<open>Generic lemmas\<close>

lemma fold_keeps: "(\<And>x s. x \<in> set xs \<Longrightarrow> f (g x s) = f s) \<Longrightarrow> f (fold g xs s) = f s"
  by (induction xs arbitrary: s) auto

lemma fold_invariant_set:
  "P s \<Longrightarrow> (\<And>x s. x \<in> set xs \<Longrightarrow> P s \<Longrightarrow> P (g x s)) \<Longrightarrow> P (fold g xs s)"
  by (induction xs arbitrary: s) auto

end
