(* ===== verification/Js.thy ===== *)
theory Js
  imports Prelude
begin

text \<open>
  JavaScript values and errors as the KWin script handles them, and the schema terms the
  script builds with zod.

  Strings are sequences of code units; the script only compares, concatenates, measures and
  takes prefixes of them, so \<open>string\<close> stands for them. Numbers are the finite JavaScript
  numbers, as rationals. An object is the list of its own properties in the order in which
  \<open>Object.entries\<close> enumerates them.
\<close>

type_synonym number = rat

text \<open>Evaluation of numbers converts natural numbers in one step.\<close>

lemma rat_of_nat_code [code_unfold]: "(of_nat n :: rat) = Int.of_int (int n)"
  by simp

datatype jsval =
    Undefined
  | JNull
  | JBool bool
  | JNum number
  | JStr string
  | JArr "jsval list"
  | JObj "(string \<times> jsval) list"

text \<open>Reading a property of a value that is an object; an absent property is undefined.\<close>

definition js_prop :: "jsval \<Rightarrow> string \<Rightarrow> jsval" where
  "js_prop v k = (case v of
      JObj ps \<Rightarrow> (case map_of ps k of Some x \<Rightarrow> x | None \<Rightarrow> Undefined)
    | _ \<Rightarrow> Undefined)"

lemma js_prop_obj [simp]:
  "js_prop (JObj ps) k = (case map_of ps k of Some x \<Rightarrow> x | None \<Rightarrow> Undefined)"
  by (simp add: js_prop_def)

text \<open>\<open>Array.prototype.join\<close> on strings.\<close>

fun js_join :: "string \<Rightarrow> string list \<Rightarrow> string" where
  "js_join sep [] = []"
| "js_join sep [x] = x"
| "js_join sep (x # y # xs) = x @ sep @ js_join sep (y # xs)"

text \<open>The double quote the script puts around names in error messages.\<close>

definition dquote :: string where
  "dquote = [CHR 0x22]"

definition quoted :: "string \<Rightarrow> string" where
  "quoted s = dquote @ s @ dquote"

section \<open>Errors\<close>

record zod_issue =
  zi_path :: "string list"
  zi_message :: string

text \<open>
  What a handler can throw: the JSON-RPC library's \<open>JSONRPCErrorException(message, code,
  data)\<close>, or any other error, known by its text.
\<close>

datatype exn =
    JSONRPCErrorException string int "zod_issue list option"
  | JsError string

text \<open>\<open>JSONRPCErrorCode.InvalidParams\<close>.\<close>

definition InvalidParams :: int where
  "InvalidParams = -32602"

fun exn_text :: "exn \<Rightarrow> string" where
  "exn_text (JSONRPCErrorException m c d) = m"
| "exn_text (JsError m) = m"

fun is_invalid_params :: "exn \<Rightarrow> bool" where
  "is_invalid_params (JSONRPCErrorException m c d) = (c = InvalidParams)"
| "is_invalid_params (JsError m) = False"

section \<open>Schema terms\<close>

text \<open>The zod combinators the script uses, as data; \<open>ZInt lo hi\<close> is
  \<open>z.number().int().min(lo).max(hi)\<close>.\<close>

datatype zod =
    ZString
  | ZBoolean
  | ZUnknown
  | ZInt int int
  | ZArray zod
  | ZRecord zod zod
  | ZTuple "zod list"
  | ZObject "(string \<times> zod) list"

text \<open>
  What zod documents of these combinators: which values a schema accepts. This predicate
  only occurs in the hypothesis \<open>zod_documented\<close> about the library.
\<close>

fun zod_accepts :: "zod \<Rightarrow> jsval \<Rightarrow> bool" where
  "zod_accepts ZString v = (case v of JStr _ \<Rightarrow> True | _ \<Rightarrow> False)"
| "zod_accepts ZBoolean v = (case v of JBool _ \<Rightarrow> True | _ \<Rightarrow> False)"
| "zod_accepts ZUnknown v = True"
| "zod_accepts (ZInt lo hi) v =
     (case v of JNum q \<Rightarrow> of_int \<lfloor>q\<rfloor> = q \<and> of_int lo \<le> q \<and> q \<le> of_int hi | _ \<Rightarrow> False)"
| "zod_accepts (ZArray s) v = (case v of JArr vs \<Rightarrow> list_all (zod_accepts s) vs | _ \<Rightarrow> False)"
| "zod_accepts (ZRecord k s) v =
     (case v of JObj ps \<Rightarrow> list_all (\<lambda>(a, b). zod_accepts k (JStr a) \<and> zod_accepts s b) ps
      | _ \<Rightarrow> False)"
| "zod_accepts (ZTuple ss) v = (case v of JArr vs \<Rightarrow> list_all2 zod_accepts ss vs | _ \<Rightarrow> False)"
| "zod_accepts (ZObject fs) v =
     (case v of JObj ps \<Rightarrow>
        list_all (\<lambda>(k, s). zod_accepts s (js_prop v k)) fs
      | _ \<Rightarrow> False)"

text \<open>The parsed data: zod hands the value back; \<open>z.object\<close> strips the keys it does not
  name.\<close>

fun zod_data :: "zod \<Rightarrow> jsval \<Rightarrow> jsval" where
  "zod_data (ZObject fs) (JObj ps) = JObj (filter (\<lambda>(k, _). k \<in> fst ` set fs) ps)"
| "zod_data s v = v"

definition zod_documented :: "(zod \<Rightarrow> jsval \<Rightarrow> zod_issue list + jsval) \<Rightarrow> bool" where
  "zod_documented parse \<longleftrightarrow>
     (\<forall>s v. if zod_accepts s v then parse s v = Inr (zod_data s v) else isl (parse s v))"

text \<open>An instance of the documented behaviour, for the witnesses.\<close>

definition zod_reference :: "zod \<Rightarrow> jsval \<Rightarrow> zod_issue list + jsval" where
  "zod_reference s v =
     (if zod_accepts s v then Inr (zod_data s v)
      else Inl [\<lparr>zi_path = [], zi_message = ''Invalid input''\<rparr>])"

lemma zod_reference_documented: "zod_documented zod_reference"
  by (simp add: zod_documented_def zod_reference_def)

lemma zod_documentedD:
  assumes "zod_documented parse" "parse s v = Inr d"
  shows "zod_accepts s v" and "d = zod_data s v"
proof -
  have *: "if zod_accepts s v then parse s v = Inr (zod_data s v) else isl (parse s v)"
    using assms(1) by (simp add: zod_documented_def)
  show acc: "zod_accepts s v"
    using * assms(2) by (auto split: if_splits)
  show "d = zod_data s v"
    using * acc assms(2) by simp
qed

end
