(* ===== verification/Kwin.thy ===== *)
theory Kwin
  imports Js
begin

text \<open>
  The host of the script: KWin and Qt. What the script can read of KWin's state, the
  signals it connects to, the slots it connects, the timers it starts, and the external
  code it calls.

  KWin itself is not part of the repository. Its declarations are
  (\<open>kwinscript/kwin-ts/index.d.ts\<close>), and they are modelled as tables: the properties of a
  window and of the workspace with their mutability and type, and the signals that exist.
  What KWin does when the script assigns a property is a parameter of the model
  (\<open>kwinAssign\<close>), as are the libraries and the engine functions the script calls.
\<close>

section \<open>Declarations of kwin-ts\<close>

text \<open>Properties of \<open>KWin.Window\<close>: name, whether \<open>readonly\<close>, declared type.\<close>

definition KWin_Window_props_geometry :: "(string \<times> bool \<times> string) list" where
  [const_defs]: "KWin_Window_props_geometry =
    [
     (''bufferGeometry'', True, ''KWin.RectF''), (''clientGeometry'', True, ''KWin.RectF''),
     (''pos'', True, ''QPointF''), (''size'', True, ''QSizeF''), (''x'', True, ''number''),
     (''y'', True, ''number''), (''width'', True, ''number''), (''height'', True, ''number''),
     (''opacity'', False, ''number''), (''output'', True, ''KWin.LogicalOutput''),
     (''rect'', True, ''KWin.RectF''), (''resourceName'', True, ''string''),
     (''resourceClass'', True, ''string''), (''windowRole'', True, ''string''),
     (''desktopWindow'', True, ''boolean''), (''dock'', True, ''boolean''),
     (''toolbar'', True, ''boolean''), (''menu'', True, ''boolean''),
     (''normalWindow'', True, ''boolean''), (''dialog'', True, ''boolean''),
     (''splash'', True, ''boolean''), (''utility'', True, ''boolean''),
     (''dropdownMenu'', True, ''boolean''), (''popupMenu'', True, ''boolean''),
     (''tooltip'', True, ''boolean''), (''notification'', True, ''boolean''),
     (''criticalNotification'', True, ''boolean''), (''appletPopup'', True, ''boolean''),
     (''onScreenDisplay'', True, ''boolean''), (''comboBox'', True, ''boolean''),
     (''dndIcon'', True, ''boolean''), (''windowType'', True, ''WindowType''),
     (''managed'', True, ''boolean''), (''deleted'', True, ''boolean''),
     (''skipsCloseAnimation'', False, ''boolean''), (''popupWindow'', True, ''boolean''),
     (''outline'', True, ''boolean''), (''internalId'', True, ''QUuid''),
     (''pid'', True, ''number''), (''stackingOrder'', True, ''number''),
     (''fullScreen'', False, ''boolean''), (''fullScreenable'', True, ''boolean''),
     (''active'', True, ''boolean''), (''desktops'', False, ''KWin.VirtualDesktop[]''),
     (''onAllDesktops'', False, ''boolean''), (''activities'', False, ''string[]''),
     (''skipTaskbar'', False, ''boolean''), (''skipPager'', False, ''boolean''),
     (''skipSwitcher'', False, ''boolean''), (''closeable'', True, ''boolean''),
     (''icon'', True, ''QIcon'')]"

definition KWin_Window_props_state :: "(string \<times> bool \<times> string) list" where
  [const_defs]: "KWin_Window_props_state =
    [
     (''keepAbove'', False, ''boolean''), (''keepBelow'', False, ''boolean''),
     (''minimizable'', True, ''boolean''), (''minimized'', False, ''boolean''),
     (''iconGeometry'', True, ''KWin.RectF''), (''specialWindow'', True, ''boolean''),
     (''demandsAttention'', False, ''boolean''), (''caption'', True, ''string''),
     (''captionNormal'', True, ''string''), (''minSize'', True, ''QSizeF''),
     (''maxSize'', True, ''QSizeF''), (''wantsInput'', True, ''boolean''),
     (''transient'', True, ''boolean''), (''transientFor'', True, ''KWin.Window''),
     (''modal'', True, ''boolean''), (''frameGeometry'', False, ''KWin.RectF''),
     (''move'', True, ''boolean''), (''resize'', True, ''boolean''),
     (''decorationHasAlpha'', True, ''boolean''), (''noBorder'', False, ''boolean''),
     (''providesContextHelp'', True, ''boolean''), (''maximizable'', True, ''boolean''),
     (''maximizeMode'', True, ''KWin.MaximizeMode''), (''moveable'', True, ''boolean''),
     (''moveableAcrossScreens'', True, ''boolean''), (''resizeable'', True, ''boolean''),
     (''desktopFileName'', True, ''string''), (''hasApplicationMenu'', True, ''boolean''),
     (''applicationMenuActive'', True, ''boolean''), (''unresponsive'', True, ''boolean''),
     (''colorScheme'', True, ''string''), (''layer'', True, ''KWin.Layer''),
     (''hidden'', True, ''boolean''), (''tile'', False, ''KWin.Tile''),
     (''inputMethod'', True, ''boolean''), (''tag'', True, ''string''),
     (''description'', True, ''string''), (''excludeFromCapture'', False, ''boolean'')]"

definition KWin_Window_props :: "(string \<times> bool \<times> string) list" where
  [const_defs]: "KWin_Window_props = KWin_Window_props_geometry @ KWin_Window_props_state"

text \<open>Signals of \<open>KWin.Window\<close>.\<close>

definition KWin_Window_signals :: "string list" where
  [const_defs]: "KWin_Window_signals =
    [
     ''stackingOrderChanged'', ''opacityChanged'', ''damaged'', ''inputTransformationChanged'',
     ''closed'', ''outputChanged'', ''skipCloseAnimationChanged'', ''windowRoleChanged'',
     ''windowClassChanged'', ''surfaceChanged'', ''shadowChanged'', ''bufferGeometryChanged'',
     ''frameGeometryChanged'', ''clientGeometryChanged'', ''frameGeometryAboutToChange'',
     ''visibleGeometryChanged'', ''tileChanged'', ''requestedTileChanged'',
     ''fullScreenChanged'', ''skipTaskbarChanged'', ''skipPagerChanged'',
     ''skipSwitcherChanged'', ''iconChanged'', ''activeChanged'', ''keepAboveChanged'',
     ''keepBelowChanged'', ''demandsAttentionChanged'', ''desktopsChanged'',
     ''activitiesChanged'', ''minimizedChanged'', ''paletteChanged'', ''colorSchemeChanged'',
     ''captionChanged'', ''captionNormalChanged'', ''maximizedAboutToChange'',
     ''maximizedChanged'', ''transientChanged'', ''modalChanged'', ''quickTileModeChanged'',
     ''moveResizedChanged'', ''moveResizeCursorChanged'', ''interactiveMoveResizeStarted'',
     ''interactiveMoveResizeStepped'', ''interactiveMoveResizeFinished'', ''closeableChanged'',
     ''minimizeableChanged'', ''maximizeableChanged'', ''desktopFileNameChanged'',
     ''applicationMenuChanged'', ''hasApplicationMenuChanged'', ''applicationMenuActiveChanged'',
     ''unresponsiveChanged'', ''decorationChanged'', ''hiddenChanged'',
     ''hiddenByShowDesktopChanged'', ''lockScreenOverlayChanged'', ''readyForPaintingChanged'',
     ''maximizeGeometryRestoreChanged'', ''fullscreenGeometryRestoreChanged'',
     ''offscreenRenderingChanged'', ''targetScaleChanged'', ''nextTargetScaleChanged'',
     ''tagChanged'', ''descriptionChanged'', ''borderRadiusChanged'',
     ''excludeFromCaptureChanged'', ''decorationPolicyChanged'']"

text \<open>Properties and signals of \<open>KWin.WorkspaceWrapper\<close>.\<close>

definition KWin_Workspace_props :: "(string \<times> bool \<times> string) list" where
  [const_defs]: "KWin_Workspace_props =
    [
     (''desktops'', True, ''KWin.VirtualDesktop[]''),
     (''currentDesktop'', False, ''KWin.VirtualDesktop''),
     (''activeWindow'', False, ''KWin.Window''), (''desktopGridSize'', True, ''QSize''),
     (''desktopGridWidth'', True, ''number''), (''desktopGridHeight'', False, ''number''),
     (''workspaceWidth'', True, ''number''), (''workspaceHeight'', True, ''number''),
     (''workspaceSize'', True, ''QSize''), (''activeScreen'', True, ''KWin.LogicalOutput''),
     (''screens'', True, ''KWin.LogicalOutput[]''),
     (''screenOrder'', True, ''KWin.LogicalOutput[]''), (''currentActivity'', False, ''string''),
     (''activities'', True, ''string[]''), (''virtualScreenSize'', True, ''QSize''),
     (''virtualScreenGeometry'', True, ''QRect''), (''stackingOrder'', True, ''KWin.Window[]''),
     (''cursorPos'', True, ''QPoint'')]"

definition KWin_Workspace_signals :: "string list" where
  [const_defs]: "KWin_Workspace_signals =
    [
     ''windowAdded'', ''windowRemoved'', ''windowActivated'', ''desktopsChanged'',
     ''desktopLayoutChanged'', ''screensChanged'', ''screenOrderChanged'',
     ''currentActivityChanged'', ''activitiesChanged'', ''activityAdded'', ''activityRemoved'',
     ''virtualScreenSizeChanged'', ''virtualScreenGeometryChanged'', ''currentDesktopChanged'',
     ''cursorPosChanged'']"

section \<open>Objects of the host\<close>

text \<open>
  A \<open>KWin.Window\<close> as the script holds it: the object's identity and its \<open>internalId\<close>,
  which is \<open>readonly\<close>. Two references are the same object (\<open>===\<close>) when both agree. The
  mutable part of the window is in \<open>native\<close> below.
\<close>

record Window =
  winObj :: nat
  internalId :: string

record VirtualDesktop =
  vdObj :: nat
  vdId :: string

record native_window =
  captionNormal :: string
  win_desktops :: "VirtualDesktop list"
  win_activities :: "string list"
  win_prop :: "string \<Rightarrow> jsval"

record native =
  win_state :: "Window \<Rightarrow> native_window"
  windowList :: "Window list"
  ws_desktops :: "VirtualDesktop list"
  ws_activities :: "string list"
  ws_currentDesktop :: VirtualDesktop
  ws_currentActivity :: string

text \<open>\<open>QTimer\<close>; the interval is a JavaScript number of milliseconds.\<close>

record QTimer =
  tm_singleShot :: bool
  tm_interval :: number
  tm_timerType :: int
  tm_active :: bool

definition new_QTimer :: QTimer where
  "new_QTimer = \<lparr>tm_singleShot = False, tm_interval = 0, tm_timerType = 1, tm_active = False\<rparr>"

definition timer_start :: "QTimer \<Rightarrow> QTimer" where
  [simp]: "timer_start t = t\<lparr>tm_active := True\<rparr>"

definition timer_stop :: "QTimer \<Rightarrow> QTimer" where
  [simp]: "timer_stop t = t\<lparr>tm_active := False\<rparr>"

section \<open>Signals and slots\<close>

text \<open>A signal is named by its object and its property name on that object; a client
  connection is known by its reference, a number.\<close>

type_synonym connref = nat

datatype sigref =
    WindowSignal Window string
  | WorkspaceSignal string

datatype sigarg = NoArg | WindowArg Window | IdArg string

text \<open>
  The functions the script connects, as data: the closure's kind and the variables it
  captures. A watch handler is a fresh function object each time it is made, which its
  first component tells apart.
\<close>

datatype slot =
    SlotCheckCaption Window
  | SlotWindowAdded
  | SlotWindowRemoved
  | SlotRescanDesktops
  | SlotActivityAdded
  | SlotActivityRemoved
  | SlotWindowWatch nat string connref Window string
  | SlotWorkspaceWatch nat connref string

datatype assignment =
    AssignProp Window string jsval
  | AssignDesktops Window "VirtualDesktop option list"
  | AssignActivities Window "string list"
  | AssignCurrentDesktop "VirtualDesktop option"
  | AssignCurrentActivity string

text \<open>
  KWin's reaction to an assignment: the signals it emits while the assignment runs, each
  with the state of KWin at that moment, the state it ends in, and the error it raises, if
  any.
\<close>

record reaction =
  rc_emissions :: "(native \<times> sigref \<times> sigarg) list"
  rc_native :: native
  rc_raised :: "string option"

section \<open>External code\<close>

text \<open>
  Code the script calls that is not in the repository: zod, the notification constructor of
  json-rpc-2.0, the engine's JSON functions, number formatting and random numbers (the
  \<open>n\<close>-th number drawn), the text of the error for a method call on \<open>undefined\<close>, and KWin.
\<close>

record ext =
  zodSafeParse :: "zod \<Rightarrow> jsval \<Rightarrow> zod_issue list + jsval"
  createJSONRPCNotification :: "string \<Rightarrow> jsval \<Rightarrow> jsval"
  jsonStringify :: "jsval \<Rightarrow> string"
  jsonParse :: "jsval \<Rightarrow> string + jsval"
  numberToString :: "number \<Rightarrow> string"
  mathRandom :: "nat \<Rightarrow> number"
  undefinedCallText :: string
  kwinAssign :: "assignment \<Rightarrow> native \<Rightarrow> reaction"
  kwinDisconnect :: "native \<Rightarrow> sigref \<Rightarrow> string option"

section \<open>The host part of the script's state\<close>

record kwin_world =
  native :: native
  slots :: "(sigref \<times> slot) list"
  nextFn :: nat

fun signal_exists :: "sigref \<Rightarrow> bool" where
  "signal_exists (WindowSignal w s) = (s \<in> set KWin_Window_signals)"
| "signal_exists (WorkspaceSignal s) = (s \<in> set KWin_Workspace_signals)"

text \<open>
  \<open>signal.connect(slot)\<close> and \<open>signal.disconnect(slot)\<close>. A signal that is not declared is
  \<open>undefined\<close>, and the call on it throws; \<open>disconnect\<close> can also throw for reasons of
  KWin's own (a destroyed window), and then nothing is disconnected. The first component is
  the error thrown, if any.
\<close>

definition connect ::
  "ext \<Rightarrow> sigref \<Rightarrow> slot \<Rightarrow> 'a kwin_world_scheme \<Rightarrow> string option \<times> 'a kwin_world_scheme" where
  "connect E sig sl w =
     (if signal_exists sig then (None, w\<lparr>slots := slots w @ [(sig, sl)]\<rparr>)
      else (Some (undefinedCallText E), w))"

definition disconnect ::
  "ext \<Rightarrow> sigref \<Rightarrow> slot \<Rightarrow> 'a kwin_world_scheme \<Rightarrow> string option \<times> 'a kwin_world_scheme" where
  "disconnect E sig sl w =
     (if signal_exists sig then
        (case kwinDisconnect E (native w) sig of
           None \<Rightarrow> (None, w\<lparr>slots := filter (\<lambda>x. x \<noteq> (sig, sl)) (slots w)\<rparr>)
         | Some e \<Rightarrow> (Some e, w))
      else (Some (undefinedCallText E), w))"

text \<open>A signal is dead when disconnecting from it throws.\<close>

definition dead_signal :: "ext \<Rightarrow> native \<Rightarrow> sigref \<Rightarrow> bool" where
  "dead_signal E n sig \<longleftrightarrow> kwinDisconnect E n sig \<noteq> None"

lemma connect_more [frame]:
  "native (snd (connect E sig sl w)) = native w"
  "nextFn (snd (connect E sig sl w)) = nextFn w"
  "kwin_world.more (snd (connect E sig sl w)) = kwin_world.more w"
  by (simp_all add: connect_def)

lemma disconnect_more [frame]:
  "native (snd (disconnect E sig sl w)) = native w"
  "nextFn (snd (disconnect E sig sl w)) = nextFn w"
  "kwin_world.more (snd (disconnect E sig sl w)) = kwin_world.more w"
  by (simp_all add: disconnect_def split: option.splits)

lemma disconnect_slots:
  "set (slots (snd (disconnect E sig sl w))) \<subseteq> set (slots w)"
  "x \<in> set (slots w) \<Longrightarrow> x \<noteq> (sig, sl) \<Longrightarrow> x \<in> set (slots (snd (disconnect E sig sl w)))"
  "signal_exists sig \<Longrightarrow> \<not> dead_signal E (native w) sig \<Longrightarrow>
     (sig, sl) \<notin> set (slots (snd (disconnect E sig sl w)))"
  by (auto simp: disconnect_def dead_signal_def split: option.splits)

section \<open>Reading the state of KWin\<close>

abbreviation caption_of :: "'a kwin_world_scheme \<Rightarrow> Window \<Rightarrow> string" where
  "caption_of w wd \<equiv> captionNormal (win_state (native w) wd)"

end
