(* ===== verification/Dbus.thy ===== *)
theory Dbus
  imports Kwin
begin

text \<open>
  \<open>kwinscript/src/dbus.ts\<close>: the promise wrapper around KWin's callback-based \<open>callDBus\<close>,
  \<open>sleep\<close>, and the typed wrappers for the daemon's interface (\<open>log\<close>, \<open>poll\<close>, \<open>push\<close>).

  Every call creates a promise and a single-shot timer. The state keeps all promises made so
  far, in order; a promise's position identifies it. What the awaiting function does when
  the promise settles is its \<open>pr_waiter\<close>; \<open>pr_done\<close> says that this has happened.
\<close>

section \<open>Constants\<close>

definition DAEMON_DBUS_SERVICE :: string where
  "DAEMON_DBUS_SERVICE = ''@DAEMON_DBUS_SERVICE@''"
definition DAEMON_DBUS_INTERFACE :: string where
  "DAEMON_DBUS_INTERFACE = DAEMON_DBUS_SERVICE"
definition DAEMON_DBUS_PATH :: string where
  "DAEMON_DBUS_PATH = ''/daemon''"
definition DAEMON_CLIENT_INTERFACE :: string where
  "DAEMON_CLIENT_INTERFACE = ''org.example.KwinApiClient''"
definition DAEMON_DBUS_TIMEOUT_MS :: number where
  "DAEMON_DBUS_TIMEOUT_MS = 5000"
definition POLL_TIMEOUT_MS :: number where
  "POLL_TIMEOUT_MS = 20000"
definition POLL_CALL_TIMEOUT_MS :: number where
  "POLL_CALL_TIMEOUT_MS = POLL_TIMEOUT_MS + 5000"
definition DBUS_RETRY_DELAY :: number where
  "DBUS_RETRY_DELAY = 500"

section \<open>State\<close>

datatype darg = DStr string | DNum number

record dbus_call =
  dc_service :: string
  dc_path :: string
  dc_interface :: string
  dc_method :: string
  dc_timeoutMs :: number
  dc_args :: "darg list"

datatype outcome = Pending | Resolved jsval | Rejected string

datatype waiter = WaitLog | WaitPush number | WaitPoll | WaitSleep

record promise =
  pr_timer :: QTimer
  pr_outcome :: outcome
  pr_call :: "dbus_call option"
  pr_waiter :: waiter
  pr_done :: bool

record dbus_world = kwin_world +
  promises :: "promise list"
  printed :: "string list"

text \<open>\<open>String(v)\<close>, for template literals.\<close>

fun js_to_string :: "ext \<Rightarrow> jsval \<Rightarrow> string" where
  "js_to_string E Undefined = ''undefined''"
| "js_to_string E JNull = ''null''"
| "js_to_string E (JBool b) = (if b then ''true'' else ''false'')"
| "js_to_string E (JNum q) = numberToString E q"
| "js_to_string E (JStr s) = s"
| "js_to_string E (JArr vs) =
     js_join '','' (map (\<lambda>v. if v = Undefined \<or> v = JNull then [] else js_to_string E v) vs)"
| "js_to_string E (JObj ps) = ''[object Object]''"

section \<open>Promises\<close>

definition single_shot :: "number \<Rightarrow> QTimer" where
  "single_shot ms = timer_start (new_QTimer\<lparr>tm_singleShot := True, tm_interval := ms\<rparr>)"

definition print :: "string \<Rightarrow> 'a dbus_world_scheme \<Rightarrow> 'a dbus_world_scheme" where
  "print s w = w\<lparr>printed := printed w @ [s]\<rparr>"

definition new_promise ::
  "number \<Rightarrow> dbus_call option \<Rightarrow> waiter \<Rightarrow> 'a dbus_world_scheme \<Rightarrow> nat \<times> 'a dbus_world_scheme" where
  "new_promise ms call wt w =
     (length (promises w),
      w\<lparr>promises := promises w @
          [\<lparr>pr_timer = single_shot ms, pr_outcome = Pending, pr_call = call,
            pr_waiter = wt, pr_done = False\<rparr>]\<rparr>)"

definition callDBusAsync ::
  "string \<Rightarrow> string \<Rightarrow> string \<Rightarrow> string \<Rightarrow> number \<Rightarrow> darg list \<Rightarrow> waiter \<Rightarrow>
     'a dbus_world_scheme \<Rightarrow> nat \<times> 'a dbus_world_scheme" where
  "callDBusAsync service path interfaceName meth timeoutMs args wt =
     new_promise timeoutMs
       (Some \<lparr>dc_service = service, dc_path = path, dc_interface = interfaceName,
              dc_method = meth, dc_timeoutMs = timeoutMs, dc_args = args\<rparr>) wt"

definition sleep :: "number \<Rightarrow> 'a dbus_world_scheme \<Rightarrow> nat \<times> 'a dbus_world_scheme" where
  "sleep ms = new_promise ms None WaitSleep"

text \<open>\<open>resolve\<close> and \<open>reject\<close> act on a pending promise only.\<close>

definition settle :: "outcome \<Rightarrow> promise \<Rightarrow> promise" where
  "settle v p = (if pr_outcome p = Pending then p\<lparr>pr_outcome := v\<rparr> else p)"

definition stop_promise_timer :: "promise \<Rightarrow> promise" where
  "stop_promise_timer p = p\<lparr>pr_timer := timer_stop (pr_timer p)\<rparr>"

definition timeout_text :: "ext \<Rightarrow> dbus_call \<Rightarrow> string" where
  "timeout_text E c =
     ''Error: D-Bus call timed out after '' @ numberToString E (dc_timeoutMs c) @ '' ms: '' @
     dc_service c @ '' '' @ dc_path c @ '' '' @ dc_interface c @ ''.'' @ dc_method c"

text \<open>The reply callback passed to \<open>callDBus\<close>, and the slot of the promise's timer (of a
  call: reject; of a sleep: resolve).\<close>

definition dbus_reply :: "nat \<Rightarrow> jsval \<Rightarrow> 'a dbus_world_scheme \<Rightarrow> 'a dbus_world_scheme" where
  "dbus_reply i reply w = w\<lparr>promises := (promises w)
      [i := settle (Resolved reply) (stop_promise_timer (promises w ! i))]\<rparr>"

definition timer_outcome :: "ext \<Rightarrow> promise \<Rightarrow> outcome" where
  "timer_outcome E p = (case pr_call p of
      Some c \<Rightarrow> Rejected (timeout_text E c)
    | None \<Rightarrow> Resolved Undefined)"

definition promise_timeout :: "ext \<Rightarrow> nat \<Rightarrow> 'a dbus_world_scheme \<Rightarrow> 'a dbus_world_scheme" where
  "promise_timeout E i w = w\<lparr>promises := (promises w)
      [i := settle (timer_outcome E (promises w ! i)) (stop_promise_timer (promises w ! i))]\<rparr>"

section \<open>The daemon's interface\<close>

definition sendLog :: "string \<Rightarrow> string \<Rightarrow> 'a dbus_world_scheme \<Rightarrow> 'a dbus_world_scheme" where
  "sendLog level message w = snd (callDBusAsync DAEMON_DBUS_SERVICE DAEMON_DBUS_PATH
      DAEMON_DBUS_INTERFACE ''log'' DAEMON_DBUS_TIMEOUT_MS [DStr level, DStr message] WaitLog w)"

definition pollDaemon :: "'a dbus_world_scheme \<Rightarrow> nat \<times> 'a dbus_world_scheme" where
  "pollDaemon = callDBusAsync DAEMON_DBUS_SERVICE DAEMON_DBUS_PATH
      DAEMON_DBUS_INTERFACE ''poll'' POLL_CALL_TIMEOUT_MS [DNum POLL_TIMEOUT_MS] WaitPoll"

definition client_path :: "ext \<Rightarrow> number \<Rightarrow> string" where
  "client_path E clientId = ''/cli'' @ numberToString E clientId"

definition pollClient :: "ext \<Rightarrow> number \<Rightarrow> 'a dbus_world_scheme \<Rightarrow> nat \<times> 'a dbus_world_scheme" where
  "pollClient E clientId = callDBusAsync DAEMON_DBUS_SERVICE (client_path E clientId)
      DAEMON_CLIENT_INTERFACE ''poll'' POLL_CALL_TIMEOUT_MS [DNum POLL_TIMEOUT_MS] WaitPoll"

text \<open>What \<open>pollDaemon\<close> and \<open>pollClient\<close> return once the call has settled: the parsed
  reply, or the error (a rejected call, a reply that does not parse).\<close>

fun poll_value :: "ext \<Rightarrow> outcome \<Rightarrow> (string + jsval) option" where
  "poll_value E Pending = None"
| "poll_value E (Rejected e) = Some (Inl e)"
| "poll_value E (Resolved raw) = Some (jsonParse E raw)"

definition pushToClient :: "ext \<Rightarrow> number \<Rightarrow> string \<Rightarrow> 'a dbus_world_scheme \<Rightarrow> 'a dbus_world_scheme" where
  "pushToClient E clientId payload w = snd (callDBusAsync DAEMON_DBUS_SERVICE
      (client_path E clientId) DAEMON_CLIENT_INTERFACE ''push'' DAEMON_DBUS_TIMEOUT_MS
      [DStr payload] (WaitPush clientId) w)"

text \<open>
  What \<open>sendLog\<close> and \<open>pushToClient\<close> do when their call settles; \<open>pushToClient\<close> also has a
  result, whether the daemon took the message.
\<close>

definition log_settled :: "outcome \<Rightarrow> 'a dbus_world_scheme \<Rightarrow> 'a dbus_world_scheme" where
  "log_settled out w = (case out of
      Rejected e \<Rightarrow> print (''[kwinscript] cannot send log to daemon ('' @ DAEMON_DBUS_SERVICE @
                     ''): '' @ e) w
    | _ \<Rightarrow> w)"

definition push_settled ::
  "ext \<Rightarrow> number \<Rightarrow> outcome \<Rightarrow> 'a dbus_world_scheme \<Rightarrow> bool \<times> 'a dbus_world_scheme" where
  "push_settled E clientId out w = (case out of
      Resolved reply \<Rightarrow>
        (if reply = JStr [] then (True, w)
         else (False, sendLog ''warn'' (''push to client '' @ numberToString E clientId @
                        '' rejected by daemon: '' @ js_to_string E reply) w))
    | Rejected e \<Rightarrow> (False, print (''[kwinscript] push to client '' @ numberToString E clientId @
                        '' failed: '' @ e) w)
    | Pending \<Rightarrow> (False, w))"

text \<open>The continuation of a settled call whose caller is \<open>sendLog\<close> or \<open>pushToClient\<close> runs
  once. (The loops of \<open>clients.ts\<close> continue their own polls and sleeps.)\<close>

definition mark_done :: "nat \<Rightarrow> 'a dbus_world_scheme \<Rightarrow> 'a dbus_world_scheme" where
  "mark_done i w = w\<lparr>promises := (promises w)[i := (promises w ! i)\<lparr>pr_done := True\<rparr>]\<rparr>"

definition promise_reaction :: "ext \<Rightarrow> nat \<Rightarrow> 'a dbus_world_scheme \<Rightarrow> 'a dbus_world_scheme" where
  "promise_reaction E i w =
     (let p = promises w ! i; out = pr_outcome p; w1 = mark_done i w
      in if out = Pending \<or> pr_done p then w
         else (case pr_waiter p of
             WaitLog \<Rightarrow> log_settled out w1
           | WaitPush c \<Rightarrow> snd (push_settled E c out w1)
           | WaitPoll \<Rightarrow> w
           | WaitSleep \<Rightarrow> w))"

section \<open>What the script has sent\<close>

text \<open>The payloads pushed so far, with the client each was pushed to, in order.\<close>

definition push_of :: "promise \<Rightarrow> (number \<times> string) list" where
  "push_of p = (case (pr_waiter p, pr_call p) of
      (WaitPush c, Some call) \<Rightarrow> (case dc_args call of [DStr s] \<Rightarrow> [(c, s)] | _ \<Rightarrow> [])
    | _ \<Rightarrow> [])"

definition pushes :: "'a dbus_world_scheme \<Rightarrow> (number \<times> string) list" where
  "pushes w = concat (map push_of (promises w))"

lemmas dbus_defs = callDBusAsync_def new_promise_def sendLog_def pushToClient_def pollDaemon_def
  pollClient_def sleep_def print_def

lemma dbus_frame [frame, simp]:
  "native (sendLog l m w) = native w" "slots (sendLog l m w) = slots w"
  "nextFn (sendLog l m w) = nextFn w"
  "dbus_world.more (sendLog l m w) = dbus_world.more w"
  "native (pushToClient E c s w) = native w" "slots (pushToClient E c s w) = slots w"
  "nextFn (pushToClient E c s w) = nextFn w"
  "dbus_world.more (pushToClient E c s w) = dbus_world.more w"
  by (simp_all add: dbus_defs)

lemma pushes_simps [simp]:
  "pushes (sendLog l m w) = pushes w"
  "pushes (pushToClient E c s w) = pushes w @ [(c, s)]"
  "pushes (snd (pollDaemon w)) = pushes w"
  "pushes (snd (pollClient E c w)) = pushes w"
  "pushes (snd (sleep ms w)) = pushes w"
  "pushes (print s w) = pushes w"
  by (simp_all add: dbus_defs pushes_def push_of_def)

lemma pushes_update_same:
  "i < length ps \<Longrightarrow> push_of p = push_of (ps ! i) \<Longrightarrow>
     concat (map push_of (ps[i := p])) = concat (map push_of ps)"
  by (simp add: map_update list_update_same_conv [THEN iffD2])

lemma pushes_settle [simp]:
  "i < length (promises w) \<Longrightarrow> pushes (dbus_reply i v w) = pushes w"
  "i < length (promises w) \<Longrightarrow> pushes (promise_timeout E i w) = pushes w"
  "i < length (promises w) \<Longrightarrow> pushes (mark_done i w) = pushes w"
  by (simp_all add: pushes_def dbus_reply_def promise_timeout_def mark_done_def settle_def
      stop_promise_timer_def pushes_update_same push_of_def)

lemma pushes_reaction [simp]:
  "i < length (promises w) \<Longrightarrow> pushes (promise_reaction E i w) = pushes w"
  by (auto simp: promise_reaction_def log_settled_def push_settled_def Let_def
      split: waiter.splits outcome.splits)

section \<open>Invariant\<close>

text \<open>A promise is pending exactly as long as its timer runs, so every call of the script
  settles: by its reply, or by its timer.\<close>

definition promise_ok :: "promise \<Rightarrow> bool" where
  "promise_ok p \<longleftrightarrow> (tm_active (pr_timer p) \<longleftrightarrow> pr_outcome p = Pending)"

definition dbus_inv :: "'a dbus_world_scheme \<Rightarrow> bool" where
  "dbus_inv w \<longleftrightarrow> (\<forall>p \<in> set (promises w). promise_ok p)"

lemma settle_stop_ok:
  "v \<noteq> Pending \<Longrightarrow> promise_ok (settle v (stop_promise_timer p))"
  by (cases "pr_outcome p") (auto simp: promise_ok_def settle_def stop_promise_timer_def)

lemma dbus_inv_new: "dbus_inv w \<Longrightarrow> dbus_inv (snd (new_promise ms c wt w))"
  by (auto simp: dbus_inv_def new_promise_def promise_ok_def single_shot_def)

lemma dbus_inv_update:
  "dbus_inv w \<Longrightarrow> promise_ok p \<Longrightarrow> dbus_inv (w\<lparr>promises := (promises w)[i := p]\<rparr>)"
  unfolding dbus_inv_def using set_update_subset_insert [of "promises w" i p] by auto

lemma dbus_inv_reply: "dbus_inv w \<Longrightarrow> dbus_inv (dbus_reply i v w)"
  by (simp add: dbus_reply_def dbus_inv_update settle_stop_ok)

lemma dbus_inv_timeout: "dbus_inv w \<Longrightarrow> dbus_inv (promise_timeout E i w)"
  by (auto simp: promise_timeout_def timer_outcome_def intro!: dbus_inv_update settle_stop_ok
      split: option.splits)

lemma dbus_inv_done: "dbus_inv w \<Longrightarrow> i < length (promises w) \<Longrightarrow> dbus_inv (mark_done i w)"
  unfolding mark_done_def
  by (rule dbus_inv_update) (auto simp: dbus_inv_def promise_ok_def)

lemma dbus_inv_calls [intro]:
  "dbus_inv w \<Longrightarrow> dbus_inv (sendLog l m w)"
  "dbus_inv w \<Longrightarrow> dbus_inv (pushToClient E c s w)"
  "dbus_inv w \<Longrightarrow> dbus_inv (snd (pollDaemon w))"
  "dbus_inv w \<Longrightarrow> dbus_inv (snd (pollClient E c w))"
  "dbus_inv w \<Longrightarrow> dbus_inv (snd (sleep ms w))"
  by (simp_all add: sendLog_def pushToClient_def pollDaemon_def pollClient_def sleep_def
      callDBusAsync_def dbus_inv_new)

lemma dbus_inv_print [intro]: "dbus_inv w \<Longrightarrow> dbus_inv (print s w)"
  by (simp add: dbus_inv_def print_def)

lemma dbus_inv_reaction:
  assumes "dbus_inv w" "i < length (promises w)"
  shows "dbus_inv (promise_reaction E i w)"
  using assms(1) dbus_inv_done [OF assms]
  by (auto simp: promise_reaction_def log_settled_def push_settled_def Let_def
      split: waiter.splits outcome.splits)

end
