(* ===== verification/Jsonrpc.thy ===== *)
theory Jsonrpc
  imports Dbus
begin

text \<open>
  \<open>kwinscript/src/jsonrpc.ts\<close> and the connection object of \<open>clients.ts\<close> it talks to:
  validated method registration, notifications to a client, and the reply half of
  \<open>dispatchMessage\<close>. The JSON-RPC server itself is the library json-rpc-2.0.

  A method takes its raw params and the calling connection. It may throw, and it may not
  return at all (\<open>token.request\<close> samples until it finds a fresh token), hence the option.
\<close>

record ClientConnection =
  cc_id :: number
  cc_alive :: bool

record conn_world = dbus_world +
  conns :: "connref \<Rightarrow> ClientConnection"
  nextConn :: connref

type_synonym 'w handler = "jsval \<Rightarrow> connref \<Rightarrow> 'w \<Rightarrow> ((exn + jsval) \<times> 'w) option"

abbreviation conn_id :: "'a conn_world_scheme \<Rightarrow> connref \<Rightarrow> number" where
  "conn_id w c \<equiv> cc_id (conns w c)"

abbreviation conn_alive :: "'a conn_world_scheme \<Rightarrow> connref \<Rightarrow> bool" where
  "conn_alive w c \<equiv> cc_alive (conns w c)"

section \<open>Sending\<close>

definition send :: "ext \<Rightarrow> connref \<Rightarrow> jsval \<Rightarrow> 'a conn_world_scheme \<Rightarrow> 'a conn_world_scheme" where
  "send E c message w = pushToClient E (conn_id w c) (jsonStringify E message) w"

definition notifyClient ::
  "ext \<Rightarrow> connref \<Rightarrow> string \<Rightarrow> jsval \<Rightarrow> 'a conn_world_scheme \<Rightarrow> 'a conn_world_scheme" where
  "notifyClient E c meth params w =
     (if \<not> conn_alive w c then w
      else send E c (createJSONRPCNotification E meth params) w)"

section \<open>Methods\<close>

definition issue_text :: "zod_issue \<Rightarrow> string" where
  "issue_text issue =
     (if zi_path issue \<noteq> [] then js_join ''.'' (zi_path issue) else ''(root)'')
       @ '': '' @ zi_message issue"

definition registerMethod :: "ext \<Rightarrow> zod \<Rightarrow> 'w handler \<Rightarrow> 'w handler" where
  "registerMethod E schema handler rawParams c w =
     (case zodSafeParse E schema rawParams of
        Inl issues \<Rightarrow>
          Some (Inl (JSONRPCErrorException
                  (''invalid params: '' @ js_join ''; '' (map issue_text issues))
                  InvalidParams (Some issues)), w)
      | Inr data \<Rightarrow> handler data c w)"

text \<open>
  A handler receives the parsed data at the type its schema infers; the adapter reads the
  data at that type. Data of another shape never reaches a handler (the property theorems
  about the schemas say so); a destructuring of it would throw.
\<close>

definition typed_handler ::
  "ext \<Rightarrow> (jsval \<Rightarrow> 'p option) \<Rightarrow> ('p \<Rightarrow> connref \<Rightarrow> 'w \<Rightarrow> ((exn + jsval) \<times> 'w) option) \<Rightarrow> 'w handler" where
  "typed_handler E decode h data c w = (case decode data of
      Some p \<Rightarrow> h p c w
    | None \<Rightarrow> Some (Inl (JsError (undefinedCallText E)), w))"

fun errorListener :: "ext \<Rightarrow> string \<Rightarrow> exn \<Rightarrow> 'a dbus_world_scheme \<Rightarrow> 'a dbus_world_scheme" where
  "errorListener E message (JSONRPCErrorException m c d) w = w"
| "errorListener E message (JsError e) w =
     sendLog ''warn'' (''jsonrpc: unexpected error: '' @ message @ '' '' @ e) w"

text \<open>\<open>invalidParams\<close> of \<open>windows.ts\<close>.\<close>

definition invalidParams :: "string \<Rightarrow> exn" where
  "invalidParams message =
     JSONRPCErrorException (''invalid params: '' @ message) InvalidParams None"

lemma invalidParams_code [simp]: "is_invalid_params (invalidParams m)"
  by (simp add: invalidParams_def)

text \<open>\<open>dispatchMessage\<close> after the server has answered: a reply whose id is \<open>null\<close> is
  dropped, alone or inside a batch; one remaining reply of a batch is sent as an object.\<close>

definition reply_response ::
  "ext \<Rightarrow> connref \<Rightarrow> jsval \<Rightarrow> 'a conn_world_scheme \<Rightarrow> 'a conn_world_scheme" where
  "reply_response E c response w =
     (if response = JNull \<or> response = Undefined then w
      else case response of
        JArr entries \<Rightarrow>
          (let kept = filter (\<lambda>e. js_prop e ''id'' \<noteq> JNull) entries
           in if length kept = 1 then send E c (kept ! 0) w
              else if length kept > 1 then send E c (JArr kept) w
              else w)
      | _ \<Rightarrow> if js_prop response ''id'' = JNull then w else send E c response w)"

section \<open>Frame\<close>

lemma send_frame [frame, simp]:
  "native (send E c m w) = native w" "slots (send E c m w) = slots w"
  "nextFn (send E c m w) = nextFn w"
  "conns (send E c m w) = conns w" "nextConn (send E c m w) = nextConn w"
  "conn_world.more (send E c m w) = conn_world.more w"
  "pushes (send E c m w) = pushes w @ [(conn_id w c, jsonStringify E m)]"
  by (simp_all add: send_def) (simp_all add: dbus_defs)

lemma sendLog_conn_frame [frame, simp]:
  "conns (sendLog l m w) = conns w" "nextConn (sendLog l m w) = nextConn w"
  "conn_world.more (sendLog l m w) = conn_world.more w"
  by (simp_all add: dbus_defs)

lemma notifyClient_frame [frame, simp]:
  "native (notifyClient E c m p w) = native w" "slots (notifyClient E c m p w) = slots w"
  "nextFn (notifyClient E c m p w) = nextFn w"
  "conns (notifyClient E c m p w) = conns w" "nextConn (notifyClient E c m p w) = nextConn w"
  "conn_world.more (notifyClient E c m p w) = conn_world.more w"
  by (simp_all add: notifyClient_def)

text \<open>The pushes a notification adds: one to a live client, none to a dead one.\<close>

definition notification ::
  "ext \<Rightarrow> 'a conn_world_scheme \<Rightarrow> connref \<Rightarrow> string \<Rightarrow> jsval \<Rightarrow> (number \<times> string) list" where
  "notification E w c meth params =
     (if conn_alive w c
      then [(conn_id w c, jsonStringify E (createJSONRPCNotification E meth params))] else [])"

lemma pushes_notifyClient [simp]:
  "pushes (notifyClient E c m p w) = pushes w @ notification E w c m p"
  by (simp add: notifyClient_def notification_def)

lemma dbus_inv_send [intro]: "dbus_inv w \<Longrightarrow> dbus_inv (send E c m w)"
  by (auto simp: send_def)

lemma dbus_inv_notify [intro]: "dbus_inv w \<Longrightarrow> dbus_inv (notifyClient E c m p w)"
  by (auto simp: notifyClient_def)

lemma dbus_inv_listener [intro]: "dbus_inv w \<Longrightarrow> dbus_inv (errorListener E m e w)"
  by (cases e) auto

lemma dbus_inv_response [intro]: "dbus_inv w \<Longrightarrow> dbus_inv (reply_response E c r w)"
  by (auto simp: reply_response_def Let_def split: jsval.splits)

end
