(* ===== verification/Window_Watches.thy ===== *)
theory Window_Watches
  imports Jsonrpc
begin

text \<open>
  The first half of \<open>kwinscript/src/windows.ts\<close>: the workspace catalogs (desktop and
  activity IDs), the catalogs of supported properties, and the window watch registry with
  \<open>setWatch\<close> and \<open>dropClientWatches\<close>. The methods that need the token registry are in
  \<open>Window_Methods\<close>.
\<close>

section \<open>State\<close>

record WatchState =
  wst_window :: Window
  wst_handlers :: "(string, slot) jsmap"

record watch_world = conn_world +
  desktopsById :: "(string, VirtualDesktop) jsmap"
  activitiesById :: "string list"
  watchesByToken :: "(string, WatchState) jsmap"

section \<open>Workspace catalogs\<close>

definition rescanDesktops :: "'a watch_world_scheme \<Rightarrow> 'a watch_world_scheme" where
  "rescanDesktops w =
     w\<lparr>desktopsById := fold (\<lambda>d. AList.update (vdId d) d) (ws_desktops (native w)) []\<rparr>"

definition rescanActivities :: "'a watch_world_scheme \<Rightarrow> 'a watch_world_scheme" where
  "rescanActivities w = w\<lparr>activitiesById := fold js_add (ws_activities (native w)) []\<rparr>"

definition activityAdded :: "string \<Rightarrow> 'a watch_world_scheme \<Rightarrow> 'a watch_world_scheme" where
  "activityAdded i w = w\<lparr>activitiesById := js_add i (activitiesById w)\<rparr>"

definition activityRemoved :: "string \<Rightarrow> 'a watch_world_scheme \<Rightarrow> 'a watch_world_scheme" where
  "activityRemoved i w = w\<lparr>activitiesById := removeAll i (activitiesById w)\<rparr>"

definition wireWorkspaceEvents :: "ext \<Rightarrow> 'a watch_world_scheme \<Rightarrow> 'a watch_world_scheme" where
  "wireWorkspaceEvents E w =
     (let w1 = rescanDesktops w;
          w2 = rescanActivities w1;
          w3 = snd (connect E (WorkspaceSignal ''desktopsChanged'') SlotRescanDesktops w2);
          w4 = snd (connect E (WorkspaceSignal ''activityAdded'') SlotActivityAdded w3)
      in snd (connect E (WorkspaceSignal ''activityRemoved'') SlotActivityRemoved w4))"

definition lookupDesktop :: "'a watch_world_scheme \<Rightarrow> string \<Rightarrow> VirtualDesktop option" where
  "lookupDesktop w i = map_of (desktopsById w) i"

definition hasActivity :: "'a watch_world_scheme \<Rightarrow> string \<Rightarrow> bool" where
  "hasActivity w i \<longleftrightarrow> i \<in> set (activitiesById w)"

section \<open>Supported properties\<close>

definition UPDATE_PROPS :: "string list" where
  [const_defs]: "UPDATE_PROPS =
    [''opacity'', ''skipsCloseAnimation'', ''fullScreen'', ''onAllDesktops'', ''skipTaskbar'',
     ''skipPager'', ''skipSwitcher'', ''keepAbove'', ''keepBelow'', ''minimized'',
     ''demandsAttention'', ''noBorder'', ''excludeFromCapture'', ''desktops'', ''activities'']"

definition QUERY_PROPS :: "string list" where
  [const_defs]: "QUERY_PROPS = UPDATE_PROPS"

definition WATCH_PROPS :: "string list" where
  [const_defs]: "WATCH_PROPS =
    [''skipsCloseAnimation'', ''fullScreen'', ''skipTaskbar'', ''skipPager'', ''skipSwitcher'',
     ''keepAbove'', ''keepBelow'', ''minimized'', ''demandsAttention'', ''excludeFromCapture'',
     ''desktops'', ''activities'']"

section \<open>Property values\<close>

definition propSignal :: "Window \<Rightarrow> string \<Rightarrow> sigref" where
  "propSignal wd prop = WindowSignal wd (prop @ ''Changed'')"

definition propValue :: "'a kwin_world_scheme \<Rightarrow> Window \<Rightarrow> string \<Rightarrow> jsval" where
  "propValue w wd prop =
     (let n = win_state (native w) wd
      in if prop = ''desktops'' then JArr (map (\<lambda>d. JStr (vdId d)) (win_desktops n))
         else if prop = ''activities'' then JArr (map JStr (win_activities n))
         else win_prop n prop)"

fun as_string :: "jsval \<Rightarrow> string option" where
  "as_string (JStr s) = Some s"
| "as_string _ = None"

fun as_strings :: "jsval \<Rightarrow> string list option" where
  "as_strings (JArr vs) = those (map as_string vs)"
| "as_strings _ = None"

fun check_ids :: "'a watch_world_scheme \<Rightarrow> string \<Rightarrow> string list \<Rightarrow> exn option" where
  "check_ids w prop [] = None"
| "check_ids w prop (i # ids) =
     (if prop = ''desktops'' \<and> \<not> jm_has (desktopsById w) i
      then Some (invalidParams (''unknown desktop ID '' @ quoted i))
      else if prop = ''activities'' \<and> i \<notin> set (activitiesById w)
      then Some (invalidParams (''unknown activity ID '' @ quoted i))
      else check_ids w prop ids)"

definition validateIdList :: "'a watch_world_scheme \<Rightarrow> string \<Rightarrow> jsval \<Rightarrow> exn + string list" where
  "validateIdList w prop v = (case as_strings v of
      None \<Rightarrow> Inl (invalidParams (''property '' @ quoted prop @ '' expects an array of IDs (string[])''))
    | Some ids \<Rightarrow> (case check_ids w prop ids of None \<Rightarrow> Inr ids | Some e \<Rightarrow> Inl e))"

section \<open>Watches\<close>

text \<open>The slot of a window watch: tell the client the property's current value.\<close>

definition window_changed ::
  "ext \<Rightarrow> string \<Rightarrow> connref \<Rightarrow> Window \<Rightarrow> string \<Rightarrow> 'a conn_world_scheme \<Rightarrow> 'a conn_world_scheme" where
  "window_changed E tok c wd prop w = notifyClient E c ''window.changed''
      (JObj [(''token'', JStr tok), (''property'', JStr prop), (''value'', propValue w wd prop)]) w"

definition setWatch ::
  "ext \<Rightarrow> string \<Rightarrow> connref \<Rightarrow> Window \<Rightarrow> string \<Rightarrow> bool \<Rightarrow> 'a watch_world_scheme \<Rightarrow>
     (string + bool) \<times> 'a watch_world_scheme" where
  "setWatch E tok c wd prop enable w =
     (if enable then
        (let st = (case map_of (watchesByToken w) tok of
                     None \<Rightarrow> \<lparr>wst_window = wd, wst_handlers = []\<rparr> | Some st \<Rightarrow> st);
             w1 = (case map_of (watchesByToken w) tok of
                     None \<Rightarrow> w\<lparr>watchesByToken := AList.update tok st (watchesByToken w)\<rparr> | Some _ \<Rightarrow> w)
         in if jm_has (wst_handlers st) prop then (Inr True, w1)
            else
              (let handler = SlotWindowWatch (nextFn w1) tok c wd prop;
                   (err, w2) = connect E (propSignal wd prop) handler (w1\<lparr>nextFn := Suc (nextFn w1)\<rparr>)
               in case err of
                    Some e \<Rightarrow> (Inl e, w2)
                  | None \<Rightarrow>
                      (Inr True,
                       sendLog ''info'' (''window.watch: client '' @ numberToString E (conn_id w c) @
                          '' watches '' @ prop @ '' on token '' @ tok)
                         (w2\<lparr>watchesByToken := AList.update tok
                            (st\<lparr>wst_handlers := AList.update prop handler (wst_handlers st)\<rparr>)
                            (watchesByToken w2)\<rparr>))))
      else
        (case map_of (watchesByToken w) tok of
           None \<Rightarrow> (Inr False, w)
         | Some st \<Rightarrow>
             (case map_of (wst_handlers st) prop of
                None \<Rightarrow> (Inr False, w)
              | Some handler \<Rightarrow>
                  (let (err, w1) = disconnect E (propSignal (wst_window st) prop) handler w;
                       w2 = (case err of
                               None \<Rightarrow> w1
                             | Some e \<Rightarrow> sendLog ''warn'' (''window.watch: cannot disconnect '' @ prop @
                                          '' for token '' @ tok @ '': '' @ e) w1);
                       hs = AList.delete prop (wst_handlers st);
                       w3 = w2\<lparr>watchesByToken :=
                              (if hs = [] then AList.delete tok (watchesByToken w2)
                               else AList.update tok (st\<lparr>wst_handlers := hs\<rparr>) (watchesByToken w2))\<rparr>
                   in (Inr False,
                       sendLog ''info'' (''window.watch: client '' @ numberToString E (conn_id w c) @
                          '' no longer watches '' @ prop @ '' on token '' @ tok) w3)))))"

text \<open>The body of the loops of \<open>dropClientWatches\<close>: one handler, one token.\<close>

definition drop_handler ::
  "ext \<Rightarrow> string \<Rightarrow> Window \<Rightarrow> string \<times> slot \<Rightarrow> 'a watch_world_scheme \<Rightarrow> 'a watch_world_scheme" where
  "drop_handler E tok wd = (\<lambda>(prop, handler) w.
     (case disconnect E (propSignal wd prop) handler w of
        (None, w1) \<Rightarrow> w1
      | (Some e, w1) \<Rightarrow> sendLog ''warn'' (''window.watch: cannot disconnect '' @ prop @
                          '' for token '' @ tok @ '': '' @ e) w1))"

definition drop_token :: "ext \<Rightarrow> string \<Rightarrow> 'a watch_world_scheme \<Rightarrow> 'a watch_world_scheme" where
  "drop_token E tok w = (case map_of (watchesByToken w) tok of
      None \<Rightarrow> w
    | Some st \<Rightarrow>
        (let w1 = fold (drop_handler E tok (wst_window st)) (wst_handlers st) w
         in w1\<lparr>watchesByToken := AList.delete tok (watchesByToken w1)\<rparr>))"

definition dropClientWatches ::
  "ext \<Rightarrow> string list \<Rightarrow> 'a watch_world_scheme \<Rightarrow> 'a watch_world_scheme" where
  "dropClientWatches E toks w = fold (drop_token E) toks w"

section \<open>Lemmas: catalogs\<close>

lemma map_of_fold_update:
  "map_of (fold (\<lambda>d. AList.update (f d) d) ds m) k =
     (case find (\<lambda>d. f d = k) (rev ds) of Some d \<Rightarrow> Some d | None \<Rightarrow> map_of m k)"
  by (induction ds rule: rev_induct) auto

lemma set_fold_js_add [simp]: "set (fold js_add xs ys) = set xs \<union> set ys"
  by (induction xs arbitrary: ys) auto

lemma distinct_fold_js_add: "distinct ys \<Longrightarrow> distinct (fold js_add xs ys)"
  by (induction xs arbitrary: ys) auto

lemma check_ids_None_iff:
  "check_ids w prop ids = None \<longleftrightarrow>
     (\<forall>i \<in> set ids. (prop = ''desktops'' \<longrightarrow> map_of (desktopsById w) i \<noteq> None) \<and>
                    (prop = ''activities'' \<longrightarrow> i \<in> set (activitiesById w)))"
  by (induction ids) auto

lemma check_ids_invalid: "check_ids w prop ids = Some e \<Longrightarrow> is_invalid_params e"
  by (induction ids) (auto split: if_splits)

lemma validateIdList_invalid: "validateIdList w prop v = Inl e \<Longrightarrow> is_invalid_params e"
  by (auto simp: validateIdList_def dest: check_ids_invalid split: option.splits)

section \<open>Lemmas: frame of the watch operations\<close>

lemma watch_comm_frame [frame, simp]:
  "desktopsById (sendLog l m w) = desktopsById w"
  "activitiesById (sendLog l m w) = activitiesById w"
  "watchesByToken (sendLog l m w) = watchesByToken w"
  "watch_world.more (sendLog l m w) = watch_world.more w"
  "desktopsById (notifyClient E c me p w) = desktopsById w"
  "activitiesById (notifyClient E c me p w) = activitiesById w"
  "watchesByToken (notifyClient E c me p w) = watchesByToken w"
  "watch_world.more (notifyClient E c me p w) = watch_world.more w"
  by (simp_all add: dbus_defs notifyClient_def send_def)

lemma watch_update_frame [simp]:
  "pushes (w\<lparr>watchesByToken := x\<rparr>) = pushes w"
  "pushes (w\<lparr>desktopsById := d\<rparr>) = pushes w"
  "pushes (w\<lparr>activitiesById := a\<rparr>) = pushes w"
  "dbus_inv (w\<lparr>watchesByToken := x\<rparr>) = dbus_inv w"
  "dbus_inv (w\<lparr>desktopsById := d\<rparr>) = dbus_inv w"
  "dbus_inv (w\<lparr>activitiesById := a\<rparr>) = dbus_inv w"
  by (simp_all add: pushes_def dbus_inv_def)

lemma disconnect_watch_frame [frame]:
  "conns (snd (disconnect E sig sl w)) = conns w"
  "nextConn (snd (disconnect E sig sl w)) = nextConn w"
  "desktopsById (snd (disconnect E sig sl w)) = desktopsById w"
  "activitiesById (snd (disconnect E sig sl w)) = activitiesById w"
  "watchesByToken (snd (disconnect E sig sl w)) = watchesByToken w"
  "watch_world.more (snd (disconnect E sig sl w)) = watch_world.more w"
  "pushes (snd (disconnect E sig sl w)) = pushes w"
  "promises (snd (disconnect E sig sl w)) = promises w"
  by (simp_all add: disconnect_def pushes_def split: option.splits)

lemma drop_handler_eq:
  "drop_handler E tok wd ph w =
     (case fst (disconnect E (propSignal wd (fst ph)) (snd ph) w) of
        None \<Rightarrow> snd (disconnect E (propSignal wd (fst ph)) (snd ph) w)
      | Some e \<Rightarrow> sendLog ''warn'' (''window.watch: cannot disconnect '' @ fst ph @
                    '' for token '' @ tok @ '': '' @ e)
                    (snd (disconnect E (propSignal wd (fst ph)) (snd ph) w)))"
  by (cases ph; cases "disconnect E (propSignal wd (fst ph)) (snd ph) w")
    (auto simp: drop_handler_def split: option.splits)

lemma drop_handler_frame [frame]:
  "native (drop_handler E tok wd ph w) = native w"
  "nextFn (drop_handler E tok wd ph w) = nextFn w"
  "conns (drop_handler E tok wd ph w) = conns w"
  "nextConn (drop_handler E tok wd ph w) = nextConn w"
  "desktopsById (drop_handler E tok wd ph w) = desktopsById w"
  "activitiesById (drop_handler E tok wd ph w) = activitiesById w"
  "watchesByToken (drop_handler E tok wd ph w) = watchesByToken w"
  "watch_world.more (drop_handler E tok wd ph w) = watch_world.more w"
  "pushes (drop_handler E tok wd ph w) = pushes w"
  by (simp_all add: drop_handler_eq frame split: option.splits)

lemma drop_handler_slots:
  "slots (drop_handler E tok wd ph w) = slots (snd (disconnect E (propSignal wd (fst ph)) (snd ph) w))"
  by (simp add: drop_handler_eq split: option.splits)

lemma drop_token_frame [frame]:
  "native (drop_token E tok w) = native w"
  "nextFn (drop_token E tok w) = nextFn w"
  "conns (drop_token E tok w) = conns w"
  "nextConn (drop_token E tok w) = nextConn w"
  "desktopsById (drop_token E tok w) = desktopsById w"
  "activitiesById (drop_token E tok w) = activitiesById w"
  "watchesByToken (drop_token E tok w) = AList.delete tok (watchesByToken w)"
  "watch_world.more (drop_token E tok w) = watch_world.more w"
  "pushes (drop_token E tok w) = pushes w"
  by (auto simp: drop_token_def Let_def frame fold_keeps delete_id
        map_of_eq_None_iff [THEN iffD1] split: option.splits)


lemma drop_handler_inv: "dbus_inv w \<Longrightarrow> dbus_inv (drop_handler E tok wd ph w)"
  by (auto simp: drop_handler_eq dbus_inv_def [of "snd (disconnect E sig sl w)" for E sig sl w] frame
      simp flip: dbus_inv_def [of w] split: option.splits)

text \<open>What dropping the handlers of a token does to the slots: it only removes slots, only
  those of the token's handlers, and each of them unless its signal is dead.\<close>

lemma fold_drop_handler_slots:
  "set (slots (fold (drop_handler E tok wd) phs w)) \<subseteq> set (slots w)"
  "x \<in> set (slots w) \<Longrightarrow> x \<notin> (\<lambda>(p, h). (propSignal wd p, h)) ` set phs \<Longrightarrow>
     x \<in> set (slots (fold (drop_handler E tok wd) phs w))"
  "(p, h) \<in> set phs \<Longrightarrow> signal_exists (propSignal wd p) \<Longrightarrow>
     \<not> dead_signal E (native w) (propSignal wd p) \<Longrightarrow>
     (propSignal wd p, h) \<notin> set (slots (fold (drop_handler E tok wd) phs w))"
proof (induction phs arbitrary: w)
  case Nil
  { case 1 show ?case by simp }
  { case 2 then show ?case by simp }
  { case 3 then show ?case by simp }
next
  case (Cons ph phs)
  { case 1
    let ?w = "drop_handler E tok wd ph w"
    have "set (slots ?w) \<subseteq> set (slots w)"
      by (simp add: drop_handler_slots disconnect_slots(1))
    then show ?case using Cons(1)[of ?w] by auto }
  { case 2
    then show ?case
      by (cases ph) (auto simp: drop_handler_slots intro!: Cons(2) disconnect_slots(2)) }
  { case 3
    let ?w = "drop_handler E tok wd ph w"
    show ?case
    proof (cases "(p, h) \<in> set phs")
      case True
      then show ?thesis using 3 Cons(3)[of ?w] by (simp add: frame)
    next
      case False
      then have "ph = (p, h)" using 3 by auto
      then have "(propSignal wd p, h) \<notin> set (slots ?w)"
        using 3 by (simp add: drop_handler_slots disconnect_slots(3))
      then show ?thesis using Cons(1)[of ?w] by auto
    qed }
qed


section \<open>Invariant of the watch registry\<close>

text \<open>
  Registered handlers and connected slots correspond: a registered handler is the watch slot
  of its token, window and property and is connected to the property's signal; and a
  connected watch slot is registered, unless its signal is dead (disconnecting it threw).
\<close>

definition registered :: "'a watch_world_scheme \<Rightarrow> string \<Rightarrow> Window \<Rightarrow> string \<Rightarrow> slot \<Rightarrow> bool" where
  "registered w t wd p h \<longleftrightarrow>
     (case map_of (watchesByToken w) t of
        None \<Rightarrow> False
      | Some st \<Rightarrow> wst_window st = wd \<and> map_of (wst_handlers st) p = Some h)"

definition handler_ok :: "'a watch_world_scheme \<Rightarrow> string \<Rightarrow> Window \<Rightarrow> string \<Rightarrow> slot \<Rightarrow> bool" where
  "handler_ok w t wd p h \<longleftrightarrow>
     (\<exists>n c. h = SlotWindowWatch n t c wd p \<and> n < nextFn w) \<and>
     signal_exists (propSignal wd p) \<and> (propSignal wd p, h) \<in> set (slots w)"

definition watch_inv :: "ext \<Rightarrow> 'a watch_world_scheme \<Rightarrow> bool" where
  "watch_inv E w \<longleftrightarrow>
     distinct (map fst (watchesByToken w)) \<and>
     (\<forall>t st. map_of (watchesByToken w) t = Some st \<longrightarrow>
        distinct (map fst (wst_handlers st)) \<and>
        (\<forall>p h. map_of (wst_handlers st) p = Some h \<longrightarrow> handler_ok w t (wst_window st) p h)) \<and>
     (\<forall>sig n t c wd p. (sig, SlotWindowWatch n t c wd p) \<in> set (slots w) \<longrightarrow>
        n < nextFn w \<and> sig = propSignal wd p \<and> signal_exists sig \<and>
        (registered w t wd p (SlotWindowWatch n t c wd p) \<or> dead_signal E (native w) sig))"

lemma watch_inv_cong:
  "watchesByToken w' = watchesByToken w \<Longrightarrow> slots w' = slots w \<Longrightarrow> nextFn w' = nextFn w \<Longrightarrow>
     native w' = native w \<Longrightarrow> watch_inv E w' = watch_inv E w"
  by (simp add: watch_inv_def registered_def handler_ok_def)

lemma watch_invI:
  assumes "distinct (map fst (watchesByToken w))"
    and "\<And>t st. map_of (watchesByToken w) t = Some st \<Longrightarrow> distinct (map fst (wst_handlers st))"
    and "\<And>t st p h. map_of (watchesByToken w) t = Some st \<Longrightarrow> map_of (wst_handlers st) p = Some h \<Longrightarrow>
           handler_ok w t (wst_window st) p h"
    and "\<And>sig n t c wd p. (sig, SlotWindowWatch n t c wd p) \<in> set (slots w) \<Longrightarrow>
           n < nextFn w \<and> sig = propSignal wd p \<and> signal_exists sig \<and>
           (registered w t wd p (SlotWindowWatch n t c wd p) \<or> dead_signal E (native w) sig)"
  shows "watch_inv E w"
  using assms by (simp add: watch_inv_def)

lemma watch_invD:
  assumes "watch_inv E w"
  shows watch_inv_distinct: "distinct (map fst (watchesByToken w))"
    and watch_inv_handlers:
      "map_of (watchesByToken w) t = Some st \<Longrightarrow> distinct (map fst (wst_handlers st))"
    and watch_inv_handler: "map_of (watchesByToken w) t = Some st \<Longrightarrow>
           map_of (wst_handlers st) p = Some h \<Longrightarrow> handler_ok w t (wst_window st) p h"
    and watch_inv_slot: "(sig, SlotWindowWatch n t' c wd p') \<in> set (slots w) \<Longrightarrow>
           n < nextFn w \<and> sig = propSignal wd p' \<and> signal_exists sig \<and>
           (registered w t' wd p' (SlotWindowWatch n t' c wd p') \<or> dead_signal E (native w) sig)"
  using assms unfolding watch_inv_def by blast+

lemma propSignal_inj [simp]: "propSignal wd p = propSignal wd' p' \<longleftrightarrow> wd = wd' \<and> p = p'"
  by (simp add: propSignal_def)

lemma drop_token_slots:
  assumes "map_of (watchesByToken w) tok = Some st"
  shows "slots (drop_token E tok w) =
    slots (fold (drop_handler E tok (wst_window st)) (wst_handlers st) w)"
  using assms by (simp add: drop_token_def Let_def)

lemma watch_inv_drop_token:
  assumes inv: "watch_inv E w"
  shows "watch_inv E (drop_token E tok w)"
proof (cases "map_of (watchesByToken w) tok")
  case None
  then show ?thesis using inv by (simp add: drop_token_def)
next
  case (Some st)
  let ?w = "drop_token E tok w" and ?phs = "wst_handlers st"
  note dist = watch_inv_handlers [OF inv Some]
  note sl = drop_token_slots [OF Some, of E]
  have sub: "set (slots ?w) \<subseteq> set (slots w)"
    by (simp add: sl fold_drop_handler_slots(1))
  have keep: "x \<in> set (slots ?w)" if "x \<in> set (slots w)"
    "\<And>p h. map_of ?phs p = Some h \<Longrightarrow> x \<noteq> (propSignal (wst_window st) p, h)" for x
    unfolding sl using that dist
    by (intro fold_drop_handler_slots(2)) auto
  show ?thesis
  proof (rule watch_invI)
    fix t st' p h
    assume *: "map_of (watchesByToken ?w) t = Some st'" "map_of (wst_handlers st') p = Some h"
    then have t: "t \<noteq> tok" "map_of (watchesByToken w) t = Some st'"
      by (auto simp: frame split: if_splits)
    have ok: "handler_ok w t (wst_window st') p h"
      using watch_inv_handler [OF inv t(2) *(2)] .
    have "(propSignal (wst_window st') p, h) \<in> set (slots ?w)"
    proof (rule keep)
      show "(propSignal (wst_window st') p, h) \<in> set (slots w)"
        using ok by (simp add: handler_ok_def)
    next
      fix p' h'
      assume "map_of ?phs p' = Some h'"
      then have "handler_ok w tok (wst_window st) p' h'"
        by (rule watch_inv_handler [OF inv Some])
      then show "(propSignal (wst_window st') p, h) \<noteq> (propSignal (wst_window st) p', h')"
        using ok t(1) by (auto simp: handler_ok_def)
    qed
    then show "handler_ok ?w t (wst_window st') p h"
      using ok by (simp add: handler_ok_def frame)
  next
    fix sig n t c wd p
    assume mem: "(sig, SlotWindowWatch n t c wd p) \<in> set (slots ?w)"
    note old = watch_inv_slot [OF inv subsetD [OF sub mem]]
    have "t \<noteq> tok \<or> dead_signal E (native w) sig"
    proof (rule ccontr)
      assume "\<not> (t \<noteq> tok \<or> dead_signal E (native w) sig)"
      then have t: "t = tok" "\<not> dead_signal E (native w) sig" by auto
      then have "wst_window st = wd" "map_of ?phs p = Some (SlotWindowWatch n t c wd p)"
        using old Some by (auto simp: registered_def)
      then have "(propSignal wd p, SlotWindowWatch n t c wd p) \<notin> set (slots ?w)"
        using old t(2) unfolding sl
        by (metis fold_drop_handler_slots(3) map_of_SomeD)
      then show False using mem old by simp
    qed
    then show "n < nextFn ?w \<and> sig = propSignal wd p \<and> signal_exists sig \<and>
       (registered ?w t wd p (SlotWindowWatch n t c wd p) \<or> dead_signal E (native ?w) sig)"
      using old by (auto simp: registered_def frame)
  next
    show "distinct (map fst (watchesByToken ?w))"
      using watch_inv_distinct [OF inv] by (simp add: frame jm.invar_del)
  next
    fix t st'
    assume "map_of (watchesByToken ?w) t = Some st'"
    then show "distinct (map fst (wst_handlers st'))"
      using watch_inv_handlers [OF inv] by (auto simp: frame split: if_splits)
  qed
qed


lemma watch_inv_drop: "watch_inv E w \<Longrightarrow> watch_inv E (dropClientWatches E toks w)"
  unfolding dropClientWatches_def by (rule fold_invariant_set) (auto intro: watch_inv_drop_token)

lemma dropClientWatches_frame [frame]:
  "native (dropClientWatches E toks w) = native w"
  "nextFn (dropClientWatches E toks w) = nextFn w"
  "conns (dropClientWatches E toks w) = conns w"
  "nextConn (dropClientWatches E toks w) = nextConn w"
  "desktopsById (dropClientWatches E toks w) = desktopsById w"
  "activitiesById (dropClientWatches E toks w) = activitiesById w"
  "watch_world.more (dropClientWatches E toks w) = watch_world.more w"
  "pushes (dropClientWatches E toks w) = pushes w"
  by (simp_all add: dropClientWatches_def fold_keeps frame)

lemma dropClientWatches_watches:
  "watchesByToken (dropClientWatches E toks w) = fold AList.delete toks (watchesByToken w)"
  by (induction toks arbitrary: w) (simp_all add: dropClientWatches_def frame)

lemma drop_token_slots_sub: "set (slots (drop_token E tok w)) \<subseteq> set (slots w)"
proof (cases "map_of (watchesByToken w) tok")
  case None
  then show ?thesis by (simp add: drop_token_def)
next
  case (Some st)
  show ?thesis unfolding drop_token_slots [OF Some] by (rule fold_drop_handler_slots(1))
qed

lemma dropClientWatches_slots:
  "set (slots (dropClientWatches E toks w)) \<subseteq> set (slots w)"
proof (induction toks arbitrary: w)
  case Nil
  then show ?case by (simp add: dropClientWatches_def)
next
  case (Cons t toks)
  from Cons [of "drop_token E t w"] drop_token_slots_sub [of E t w]
  show ?case by (simp add: dropClientWatches_def)
qed

lemma dbus_inv_drop: "dbus_inv w \<Longrightarrow> dbus_inv (dropClientWatches E toks w)"
  unfolding dropClientWatches_def
  by (rule fold_invariant_set)
    (auto simp: drop_token_def Let_def intro!: fold_invariant_set drop_handler_inv split: option.splits)

section \<open>Setting and removing one watch\<close>

text \<open>The state a watch of \<open>tok\<close> starts from: the present one, or a fresh one.\<close>

definition watch_state :: "'a watch_world_scheme \<Rightarrow> string \<Rightarrow> Window \<Rightarrow> WatchState" where
  "watch_state w tok wd = (case map_of (watchesByToken w) tok of
      None \<Rightarrow> \<lparr>wst_window = wd, wst_handlers = []\<rparr> | Some st \<Rightarrow> st)"

definition ensure_state :: "string \<Rightarrow> Window \<Rightarrow> 'a watch_world_scheme \<Rightarrow> 'a watch_world_scheme" where
  "ensure_state tok wd w = (case map_of (watchesByToken w) tok of
      None \<Rightarrow> w\<lparr>watchesByToken := AList.update tok (watch_state w tok wd) (watchesByToken w)\<rparr>
    | Some _ \<Rightarrow> w)"

lemma ensure_state_frame [frame]:
  "native (ensure_state tok wd w) = native w"
  "slots (ensure_state tok wd w) = slots w"
  "nextFn (ensure_state tok wd w) = nextFn w"
  "conns (ensure_state tok wd w) = conns w"
  "nextConn (ensure_state tok wd w) = nextConn w"
  "desktopsById (ensure_state tok wd w) = desktopsById w"
  "activitiesById (ensure_state tok wd w) = activitiesById w"
  "watch_world.more (ensure_state tok wd w) = watch_world.more w"
  "pushes (ensure_state tok wd w) = pushes w"
  "dbus_inv (ensure_state tok wd w) = dbus_inv w"
  "pushes ((ensure_state tok wd w)\<lparr>nextFn := n\<rparr>) = pushes w"
  "dbus_inv ((ensure_state tok wd w)\<lparr>nextFn := n\<rparr>) = dbus_inv w"
  by (simp_all add: ensure_state_def pushes_def dbus_inv_def split: option.splits)

lemma map_of_ensure_state:
  "map_of (watchesByToken (ensure_state tok wd w)) =
     (map_of (watchesByToken w))(tok \<mapsto> watch_state w tok wd)"
  by (auto simp: ensure_state_def watch_state_def split: option.splits)

lemma distinct_ensure_state:
  "distinct (map fst (watchesByToken w)) \<Longrightarrow>
     distinct (map fst (watchesByToken (ensure_state tok wd w)))"
  by (auto simp: ensure_state_def split: option.splits)

abbreviation new_handler :: "'a kwin_world_scheme \<Rightarrow> string \<Rightarrow> connref \<Rightarrow> Window \<Rightarrow> string \<Rightarrow> slot" where
  "new_handler w tok c wd prop \<equiv> SlotWindowWatch (nextFn w) tok c wd prop"

text \<open>The four outcomes of \<open>setWatch\<close>.\<close>

lemma setWatch_present:
  "map_of (wst_handlers (watch_state w tok wd)) prop = Some h \<Longrightarrow>
     setWatch E tok c wd prop True w = (Inr True, ensure_state tok wd w)"
  by (simp add: setWatch_def Let_def watch_state_def ensure_state_def split: option.splits)

lemma setWatch_no_signal:
  "map_of (wst_handlers (watch_state w tok wd)) prop = None \<Longrightarrow> \<not> signal_exists (propSignal wd prop) \<Longrightarrow>
     setWatch E tok c wd prop True w =
       (Inl (undefinedCallText E), (ensure_state tok wd w)\<lparr>nextFn := Suc (nextFn w)\<rparr>)"
  by (simp add: setWatch_def Let_def watch_state_def ensure_state_def connect_def split: option.splits)

definition add_watch ::
  "string \<Rightarrow> connref \<Rightarrow> Window \<Rightarrow> string \<Rightarrow> 'a watch_world_scheme \<Rightarrow> 'a watch_world_scheme" where
  "add_watch tok c wd prop w =
     (let st = watch_state w tok wd; h = new_handler w tok c wd prop; w1 = ensure_state tok wd w
      in w1\<lparr>nextFn := Suc (nextFn w), slots := slots w @ [(propSignal wd prop, h)],
            watchesByToken := AList.update tok
              (st\<lparr>wst_handlers := AList.update prop h (wst_handlers st)\<rparr>) (watchesByToken w1)\<rparr>)"

lemma setWatch_connects:
  "map_of (wst_handlers (watch_state w tok wd)) prop = None \<Longrightarrow> signal_exists (propSignal wd prop) \<Longrightarrow>
     setWatch E tok c wd prop True w =
       (Inr True, sendLog ''info'' (''window.watch: client '' @ numberToString E (conn_id w c) @
          '' watches '' @ prop @ '' on token '' @ tok) (add_watch tok c wd prop w))"
  by (simp add: setWatch_def Let_def watch_state_def ensure_state_def connect_def add_watch_def
      split: option.splits)

definition remove_watch ::
  "ext \<Rightarrow> string \<Rightarrow> WatchState \<Rightarrow> string \<times> slot \<Rightarrow> 'a watch_world_scheme \<Rightarrow> 'a watch_world_scheme" where
  "remove_watch E tok st ph w =
     (let w1 = drop_handler E tok (wst_window st) ph w; hs = AList.delete (fst ph) (wst_handlers st)
      in w1\<lparr>watchesByToken :=
             (if hs = [] then AList.delete tok (watchesByToken w1)
              else AList.update tok (st\<lparr>wst_handlers := hs\<rparr>) (watchesByToken w1))\<rparr>)"

lemma setWatch_disconnects:
  "map_of (watchesByToken w) tok = Some st \<Longrightarrow> map_of (wst_handlers st) prop = Some h \<Longrightarrow>
     setWatch E tok c wd prop False w =
       (Inr False, sendLog ''info'' (''window.watch: client '' @ numberToString E (conn_id w c) @
          '' no longer watches '' @ prop @ '' on token '' @ tok) (remove_watch E tok st (prop, h) w))"
  by (simp add: setWatch_def Let_def remove_watch_def drop_handler_def split: prod.split option.splits)

lemma setWatch_absent:
  "map_of (wst_handlers (watch_state w tok wd)) prop = None \<Longrightarrow>
     setWatch E tok c wd prop False w = (Inr False, w)"
  by (simp add: setWatch_def watch_state_def split: option.splits)

lemma setWatch_cases:
  obtains (present) h where "enable" "map_of (wst_handlers (watch_state w tok wd)) prop = Some h"
    | (no_signal) "enable" "map_of (wst_handlers (watch_state w tok wd)) prop = None"
        "\<not> signal_exists (propSignal wd prop)"
    | (connects) "enable" "map_of (wst_handlers (watch_state w tok wd)) prop = None"
        "signal_exists (propSignal wd prop)"
    | (disconnects) st h where "\<not> enable" "map_of (watchesByToken w) tok = Some st"
        "map_of (wst_handlers st) prop = Some h"
    | (absent) "\<not> enable" "map_of (wst_handlers (watch_state w tok wd)) prop = None"
  by (cases enable; cases "map_of (wst_handlers (watch_state w tok wd)) prop";
      cases "map_of (watchesByToken w) tok"; cases "signal_exists (propSignal wd prop)")
    (auto simp: watch_state_def)

lemmas setWatch_outcomes = setWatch_present setWatch_no_signal setWatch_connects
  setWatch_disconnects setWatch_absent

lemma add_watch_frame [frame]:
  "native (add_watch tok c wd prop w) = native w"
  "conns (add_watch tok c wd prop w) = conns w"
  "nextConn (add_watch tok c wd prop w) = nextConn w"
  "desktopsById (add_watch tok c wd prop w) = desktopsById w"
  "activitiesById (add_watch tok c wd prop w) = activitiesById w"
  "watch_world.more (add_watch tok c wd prop w) = watch_world.more w"
  "pushes (add_watch tok c wd prop w) = pushes w"
  "dbus_inv (add_watch tok c wd prop w) = dbus_inv w"
  by (simp_all add: add_watch_def Let_def ensure_state_def pushes_def dbus_inv_def split: option.splits)

lemma remove_watch_frame [frame]:
  "native (remove_watch E tok st ph w) = native w"
  "nextFn (remove_watch E tok st ph w) = nextFn w"
  "conns (remove_watch E tok st ph w) = conns w"
  "nextConn (remove_watch E tok st ph w) = nextConn w"
  "desktopsById (remove_watch E tok st ph w) = desktopsById w"
  "activitiesById (remove_watch E tok st ph w) = activitiesById w"
  "watch_world.more (remove_watch E tok st ph w) = watch_world.more w"
  "pushes (remove_watch E tok st ph w) = pushes w"
  "slots (remove_watch E tok st ph w) = slots (drop_handler E tok (wst_window st) ph w)"
  by (simp_all add: remove_watch_def Let_def frame)

lemma setWatch_frame [frame]:
  "native (snd (setWatch E tok c wd prop b w)) = native w"
  "conns (snd (setWatch E tok c wd prop b w)) = conns w"
  "nextConn (snd (setWatch E tok c wd prop b w)) = nextConn w"
  "desktopsById (snd (setWatch E tok c wd prop b w)) = desktopsById w"
  "activitiesById (snd (setWatch E tok c wd prop b w)) = activitiesById w"
  "watch_world.more (snd (setWatch E tok c wd prop b w)) = watch_world.more w"
  "pushes (snd (setWatch E tok c wd prop b w)) = pushes w"
  by (cases rule: setWatch_cases [of b w tok wd "prop"];
      simp add: setWatch_outcomes frame)+

lemma dbus_inv_setWatch: "dbus_inv w \<Longrightarrow> dbus_inv (snd (setWatch E tok c wd prop b w))"
  by (cases rule: setWatch_cases [of b w tok wd "prop"])
    (auto simp: setWatch_outcomes frame remove_watch_def Let_def intro!: dbus_inv_calls drop_handler_inv)

lemma watch_inv_ensure_state:
  assumes inv: "watch_inv E w"
  shows "watch_inv E (ensure_state tok wd w)" (is "watch_inv E ?w")
proof (rule watch_invI)
  show "distinct (map fst (watchesByToken ?w))"
    using watch_inv_distinct [OF inv] by (rule distinct_ensure_state)
next
  fix t st
  assume "map_of (watchesByToken ?w) t = Some st"
  then show "distinct (map fst (wst_handlers st))"
    using watch_inv_handlers [OF inv]
    by (auto simp: map_of_ensure_state watch_state_def split: if_splits option.splits)
next
  fix t st p h
  assume "map_of (watchesByToken ?w) t = Some st" "map_of (wst_handlers st) p = Some h"
  then have "map_of (watchesByToken w) t = Some st"
    by (auto simp: map_of_ensure_state watch_state_def split: if_splits option.splits)
  from watch_inv_handler [OF inv this \<open>map_of (wst_handlers st) p = Some h\<close>]
  show "handler_ok ?w t (wst_window st) p h"
    by (simp add: handler_ok_def frame)
next
  fix sig n t c wd' p
  assume "(sig, SlotWindowWatch n t c wd' p) \<in> set (slots ?w)"
  then have "(sig, SlotWindowWatch n t c wd' p) \<in> set (slots w)"
    by (simp add: frame)
  from watch_inv_slot [OF inv this]
  show "n < nextFn ?w \<and> sig = propSignal wd' p \<and> signal_exists sig \<and>
     (registered ?w t wd' p (SlotWindowWatch n t c wd' p) \<or> dead_signal E (native ?w) sig)"
    by (auto simp: frame registered_def map_of_ensure_state watch_state_def split: option.splits)
qed

text \<open>Only the handler counter grows: the invariant stays.\<close>

lemma watch_inv_nextFn:
  assumes "watch_inv E w" "nextFn w \<le> n"
  shows "watch_inv E (w\<lparr>nextFn := n\<rparr>)"
proof (rule watch_invI)
  fix t st p h
  assume "map_of (watchesByToken (w\<lparr>nextFn := n\<rparr>)) t = Some st" "map_of (wst_handlers st) p = Some h"
  then have "handler_ok w t (wst_window st) p h"
    using watch_inv_handler [OF assms(1)] by simp
  then show "handler_ok (w\<lparr>nextFn := n\<rparr>) t (wst_window st) p h"
    using assms(2) by (auto simp: handler_ok_def)
next
  fix sig k t c wd p
  assume "(sig, SlotWindowWatch k t c wd p) \<in> set (slots (w\<lparr>nextFn := n\<rparr>))"
  then show "k < nextFn (w\<lparr>nextFn := n\<rparr>) \<and> sig = propSignal wd p \<and> signal_exists sig \<and>
     (registered (w\<lparr>nextFn := n\<rparr>) t wd p (SlotWindowWatch k t c wd p) \<or>
      dead_signal E (native (w\<lparr>nextFn := n\<rparr>)) sig)"
    using watch_inv_slot [OF assms(1), of sig k t c wd p] assms(2) by (auto simp: registered_def)
qed (use watch_inv_distinct [OF assms(1)] watch_inv_handlers [OF assms(1)] in auto)

lemma add_watch_map_of:
  "map_of (watchesByToken (add_watch tok c wd prop w)) = (map_of (watchesByToken w))
     (tok \<mapsto> (watch_state w tok wd)\<lparr>wst_handlers :=
        AList.update prop (new_handler w tok c wd prop) (wst_handlers (watch_state w tok wd))\<rparr>)"
  by (simp add: add_watch_def Let_def map_of_ensure_state)

lemma add_watch_slots:
  "slots (add_watch tok c wd prop w) = slots w @ [(propSignal wd prop, new_handler w tok c wd prop)]"
  "nextFn (add_watch tok c wd prop w) = Suc (nextFn w)"
  by (simp_all add: add_watch_def Let_def frame)

lemma watch_state_window:
  "(\<And>st. map_of (watchesByToken w) tok = Some st \<Longrightarrow> wst_window st = wd) \<Longrightarrow>
     wst_window (watch_state w tok wd) = wd"
  by (auto simp: watch_state_def split: option.splits)

lemma watch_inv_state:
  assumes "watch_inv E w"
  shows "distinct (map fst (wst_handlers (watch_state w tok wd)))"
  using watch_inv_handlers [OF assms] by (auto simp: watch_state_def split: option.splits)

lemma watch_inv_add_watch:
  assumes inv: "watch_inv E w"
    and win: "\<And>st. map_of (watchesByToken w) tok = Some st \<Longrightarrow> wst_window st = wd"
    and new: "map_of (wst_handlers (watch_state w tok wd)) prop = None"
    and ex: "signal_exists (propSignal wd prop)"
  shows "watch_inv E (add_watch tok c wd prop w)" (is "watch_inv E ?w")
proof (rule watch_invI)
  show "distinct (map fst (watchesByToken ?w))"
    using watch_inv_distinct [OF inv]
    by (simp add: add_watch_def Let_def jm.invar_put distinct_ensure_state)
next
  fix t st
  assume "map_of (watchesByToken ?w) t = Some st"
  then show "distinct (map fst (wst_handlers st))"
    using watch_inv_handlers [OF inv] watch_inv_state [OF inv]
    by (auto simp: add_watch_map_of jm.invar_put split: if_splits)
next
  fix t st p h
  assume *: "map_of (watchesByToken ?w) t = Some st" "map_of (wst_handlers st) p = Some h"
  show "handler_ok ?w t (wst_window st) p h"
  proof (cases "t = tok \<and> p = prop")
    case True
    then show ?thesis
      using * ex watch_state_window [of w tok wd, OF win]
      by (auto simp: add_watch_map_of add_watch_slots handler_ok_def)
  next
    case False
    then obtain st0 where "map_of (watchesByToken w) t = Some st0" "map_of (wst_handlers st0) p = Some h"
      "wst_window st0 = wst_window st"
      using * by (auto simp: add_watch_map_of watch_state_def split: if_splits option.splits)
    then have "handler_ok w t (wst_window st) p h"
      using watch_inv_handler [OF inv] by metis
    then show ?thesis by (auto simp: handler_ok_def add_watch_slots)
  qed
next
  fix sig n t c' wd' p
  assume "(sig, SlotWindowWatch n t c' wd' p) \<in> set (slots ?w)"
  then consider "(sig, SlotWindowWatch n t c' wd' p) \<in> set (slots w)"
    | "sig = propSignal wd prop" "SlotWindowWatch n t c' wd' p = new_handler w tok c wd prop"
    by (auto simp: add_watch_slots)
  then show "n < nextFn ?w \<and> sig = propSignal wd' p \<and> signal_exists sig \<and>
     (registered ?w t wd' p (SlotWindowWatch n t c' wd' p) \<or> dead_signal E (native ?w) sig)"
  proof cases
    case 1
    then have old: "n < nextFn w \<and> sig = propSignal wd' p \<and> signal_exists sig \<and>
      (registered w t wd' p (SlotWindowWatch n t c' wd' p) \<or> dead_signal E (native w) sig)"
      by (rule watch_inv_slot [OF inv])
    have "registered ?w t wd' p (SlotWindowWatch n t c' wd' p)"
      if "registered w t wd' p (SlotWindowWatch n t c' wd' p)"
      using that new
      by (auto simp: registered_def add_watch_map_of watch_state_def split: option.splits)
    then show ?thesis using old by (auto simp: add_watch_slots add_watch_frame)
  next
    case 2
    then show ?thesis
      using ex watch_state_window [of w tok wd, OF win]
      by (auto simp: add_watch_slots registered_def add_watch_map_of)
  qed
qed

lemma remove_watch_map_of:
  "map_of (watchesByToken (remove_watch E tok st ph w)) = (map_of (watchesByToken w))
     (tok := (if AList.delete (fst ph) (wst_handlers st) = [] then None
              else Some (st\<lparr>wst_handlers := AList.delete (fst ph) (wst_handlers st)\<rparr>)))"
  by (simp add: remove_watch_def Let_def frame)

lemma remove_watch_handlers:
  assumes "map_of (watchesByToken (remove_watch E tok st (prop, h) w)) t = Some st'"
    and "map_of (watchesByToken w) tok = Some st"
  obtains st0 where "map_of (watchesByToken w) t = Some st0" "wst_window st' = wst_window st0"
    "wst_handlers st' = (if t = tok then AList.delete prop (wst_handlers st0) else wst_handlers st0)"
  using assms by (auto simp: remove_watch_map_of split: if_splits)

lemma watch_inv_remove_watch:
  assumes inv: "watch_inv E w"
    and st: "map_of (watchesByToken w) tok = Some st" "map_of (wst_handlers st) prop = Some h"
  shows "watch_inv E (remove_watch E tok st (prop, h) w)" (is "watch_inv E ?w")
proof (rule watch_invI)
  note hok = watch_inv_handler [OF inv st]
  show "distinct (map fst (watchesByToken ?w))"
    using watch_inv_distinct [OF inv]
    by (simp add: remove_watch_def Let_def frame jm.invar_put jm.invar_del)
next
  fix t st'
  assume "map_of (watchesByToken ?w) t = Some st'"
  then show "distinct (map fst (wst_handlers st'))"
    using st(1) by (rule remove_watch_handlers) (auto simp: jm.invar_del dest: watch_inv_handlers [OF inv])
next
  fix t st' p g
  assume *: "map_of (watchesByToken ?w) t = Some st'" "map_of (wst_handlers st') p = Some g"
  from *(1) st(1) obtain st0 where st0: "map_of (watchesByToken w) t = Some st0"
    "wst_window st' = wst_window st0"
    "wst_handlers st' = (if t = tok then AList.delete prop (wst_handlers st0) else wst_handlers st0)"
    by (rule remove_watch_handlers)
  then have g: "map_of (wst_handlers st0) p = Some g" "t \<noteq> tok \<or> p \<noteq> prop"
    using *(2) by (auto split: if_splits)
  have ok: "handler_ok w t (wst_window st') p g"
    using watch_inv_handler [OF inv st0(1) g(1)] st0(2) by simp
  moreover have "(propSignal (wst_window st') p, g) \<noteq> (propSignal (wst_window st) prop, h)"
    using ok g(2) watch_inv_handler [OF inv st] by (auto simp: handler_ok_def)
  ultimately show "handler_ok ?w t (wst_window st') p g"
    by (auto simp: handler_ok_def frame drop_handler_slots intro!: disconnect_slots(2))
next
  fix sig n t c wd p
  assume mem: "(sig, SlotWindowWatch n t c wd p) \<in> set (slots ?w)"
  have sl: "slots ?w = slots (snd (disconnect E (propSignal (wst_window st) prop) h w))"
    by (simp add: frame drop_handler_slots)
  have "(sig, SlotWindowWatch n t c wd p) \<in> set (slots w)"
    using mem disconnect_slots(1) unfolding sl by (rule rev_subsetD)
  note old = watch_inv_slot [OF inv this]
  have "registered ?w t wd p (SlotWindowWatch n t c wd p) \<or> dead_signal E (native w) sig"
  proof (cases "t = tok \<and> p = prop \<and> wd = wst_window st")
    case True
    then have "SlotWindowWatch n t c wd p = h \<or> dead_signal E (native w) sig"
      using old st by (auto simp: registered_def)
    then show ?thesis
      using mem old True disconnect_slots(3) by (auto simp: sl)
  next
    case False
    then show ?thesis
      using old st delete_empty_other [of "prop" "wst_handlers st" p]
      by (auto simp: registered_def remove_watch_map_of split: option.splits)
  qed
  then show "n < nextFn ?w \<and> sig = propSignal wd p \<and> signal_exists sig \<and>
     (registered ?w t wd p (SlotWindowWatch n t c wd p) \<or> dead_signal E (native ?w) sig)"
    using old by (auto simp: frame)
qed

lemma watch_inv_setWatch:
  assumes "watch_inv E w"
    and "\<And>st. map_of (watchesByToken w) tok = Some st \<Longrightarrow> wst_window st = wd"
  shows "watch_inv E (snd (setWatch E tok c wd prop b w))"
proof (cases rule: setWatch_cases [of b w tok wd "prop"])
  case no_signal
  then show ?thesis
    using watch_inv_nextFn [OF watch_inv_ensure_state [OF assms(1)], of tok wd "Suc (nextFn w)"]
    by (simp add: setWatch_no_signal frame)
next
  case connects
  then show ?thesis
    using watch_inv_add_watch [OF assms connects(2,3), of c]
    by (simp add: setWatch_connects watch_inv_cong [of "sendLog l m v" v for l m v])
next
  case disconnects
  then show ?thesis
    using watch_inv_remove_watch [OF assms(1) disconnects(2,3)]
    by (simp add: setWatch_disconnects watch_inv_cong [of "sendLog l m v" v for l m v])
qed (simp_all add: assms setWatch_present setWatch_absent watch_inv_ensure_state)

text \<open>The signal environment evolves: dead signals stay dead.\<close>

definition kwin_evolves :: "ext \<Rightarrow> native \<Rightarrow> native \<Rightarrow> bool" where
  "kwin_evolves E n n' \<longleftrightarrow> (\<forall>sig. dead_signal E n sig \<longrightarrow> dead_signal E n' sig)"

lemma watch_inv_native:
  assumes inv: "watch_inv E w" and ev: "kwin_evolves E (native w) n"
  shows "watch_inv E (w\<lparr>native := n\<rparr>)"
proof (rule watch_invI)
  fix sig k t c wd p
  assume "(sig, SlotWindowWatch k t c wd p) \<in> set (slots (w\<lparr>native := n\<rparr>))"
  then have "(sig, SlotWindowWatch k t c wd p) \<in> set (slots w)" by simp
  from watch_inv_slot [OF inv this] ev
  show "k < nextFn (w\<lparr>native := n\<rparr>) \<and> sig = propSignal wd p \<and> signal_exists sig \<and>
     (registered (w\<lparr>native := n\<rparr>) t wd p (SlotWindowWatch k t c wd p) \<or>
      dead_signal E (native (w\<lparr>native := n\<rparr>)) sig)"
    by (auto simp: registered_def kwin_evolves_def)
qed (use watch_inv_distinct [OF inv] watch_inv_handlers [OF inv] watch_inv_handler [OF inv] in
    \<open>auto simp: handler_ok_def\<close>)

text \<open>
  The contract \<open>tokens.ts\<close> relies on when it tears watches down: the watches of the given
  tokens are gone, all others are kept.
\<close>

locale watch_teardown =
  fixes drop :: "string list \<Rightarrow> 'w \<Rightarrow> 'w"
    and watch_of :: "'w \<Rightarrow> string \<Rightarrow> 's option"
  assumes drop_watch_of: "watch_of (drop ts w) t = (if t \<in> set ts then None else watch_of w t)"
begin

lemma dropped: "t \<in> set ts \<Longrightarrow> watch_of (drop ts w) t = None"
  by (simp add: drop_watch_of)

lemma kept: "t \<notin> set ts \<Longrightarrow> watch_of (drop ts w) t = watch_of w t"
  by (simp add: drop_watch_of)

lemma subset_kept: "watch_of (drop ts w) t = Some s \<Longrightarrow> t \<notin> set ts \<and> watch_of w t = Some s"
  by (simp add: drop_watch_of split: if_splits)

end

interpretation wt: watch_teardown "dropClientWatches E" "\<lambda>w. map_of (watchesByToken w)" for E
  by unfold_locales (simp add: dropClientWatches_watches jm.get_fold_del)

end
