(* ===== verification/Tokens.thy ===== *)
theory Tokens
  imports Window_Watches "HOL-Library.Sublist"
begin

text \<open>
  \<open>kwinscript/src/tokens.ts\<close>: the window claiming protocol. The registry is two maps to
  shared, mutable entries, so entries live in a store and the maps hold references; a timer
  belongs to one entry and lives in it.
\<close>

section \<open>Constants and state\<close>

definition TOKEN_LENGTH :: nat where
  "TOKEN_LENGTH = 20"

definition TOKEN_ALPHABET :: string where
  "TOKEN_ALPHABET = ''ABCDEFGHIJKLMNOPQRSTUVWXYZabcdefghijklmnopqrstuvwxyz0123456789+/''"

definition MAX_VALIDATE_TIMEOUT_MS :: int where
  "MAX_VALIDATE_TIMEOUT_MS = 3600000"

definition COARSE_TIMER :: int where
  "COARSE_TIMER = 1"

definition TokenRequestSchema :: zod where
  "TokenRequestSchema = ZObject [(''timeout'', ZInt 1 MAX_VALIDATE_TIMEOUT_MS)]"

datatype TokenReason = Timeout | WindowClosed | Ambiguous | Superseded

fun reason_text :: "TokenReason \<Rightarrow> string" where
  "reason_text Timeout = ''timeout''"
| "reason_text WindowClosed = ''window_closed''"
| "reason_text Ambiguous = ''ambiguous''"
| "reason_text Superseded = ''superseded''"

datatype TokenState = TPending | TActive

record TokenEntry =
  te_token :: string
  te_conn :: connref
  te_state :: TokenState
  te_window :: "Window option"
  te_timer :: QTimer

type_synonym entryref = nat

record token_world = watch_world +
  byToken :: "(string, entryref) jsmap"
  byWindow :: "(string, entryref) jsmap"
  entries :: "entryref \<Rightarrow> TokenEntry"
  nextEntry :: entryref
  rng :: nat

definition windowKey :: "Window \<Rightarrow> string" where
  "windowKey wd = filter (\<lambda>ch. ch \<notin> set ''{}'') (internalId wd)"

definition windowInfo :: "'a kwin_world_scheme \<Rightarrow> Window \<Rightarrow> jsval" where
  "windowInfo w wd = JObj [(''caption'', JStr (caption_of w wd))]"

section \<open>Token generation\<close>

text \<open>\<open>TOKEN_ALPHABET[i]\<close> appended to a string: one character, or the text of
  \<open>undefined\<close> for an index out of range.\<close>

definition alphabet_at :: "int \<Rightarrow> string" where
  "alphabet_at i =
     (if 0 \<le> i \<and> i < int (length TOKEN_ALPHABET) then [TOKEN_ALPHABET ! nat i] else ''undefined'')"

definition sample_token :: "ext \<Rightarrow> nat \<Rightarrow> string" where
  "sample_token E n = concat (map (\<lambda>i. alphabet_at
      \<lfloor>mathRandom E (n + i) * of_nat (length TOKEN_ALPHABET)\<rfloor>) [0..<TOKEN_LENGTH])"

text \<open>Sample until the token is not in use. The second component of the result is the
  number of random numbers drawn so far.\<close>

partial_function (option) sample_loop ::
  "ext \<Rightarrow> (string, entryref) jsmap \<Rightarrow> nat \<Rightarrow> (string \<times> nat) option" where
  "sample_loop E used n =
     (let tok = sample_token E n
      in if \<not> jm_has used tok then Some (tok, n + TOKEN_LENGTH)
         else sample_loop E used (n + TOKEN_LENGTH))"

declare sample_loop.simps [code]

definition generateToken ::
  "ext \<Rightarrow> 'a token_world_scheme \<Rightarrow> (string \<times> 'a token_world_scheme) option" where
  "generateToken E w = (case sample_loop E (byToken w) (rng w) of
      None \<Rightarrow> None
    | Some (tok, n) \<Rightarrow> Some (tok, w\<lparr>rng := n\<rparr>))"

section \<open>Leaving the registry\<close>

text \<open>The statements \<open>invalidate\<close> and \<open>dropClientTokens\<close> share: stop the deadline timer,
  free the window, forget the token.\<close>

definition unregister :: "entryref \<Rightarrow> 'a token_world_scheme \<Rightarrow> 'a token_world_scheme" where
  "unregister r w =
     (let e = entries w r;
          w1 = w\<lparr>entries := (entries w)(r := e\<lparr>te_timer := timer_stop (te_timer e)\<rparr>)\<rparr>;
          w2 = (case (te_state e, te_window e) of
                  (TActive, Some wd) \<Rightarrow> w1\<lparr>byWindow := AList.delete (windowKey wd) (byWindow w1)\<rparr>
                | _ \<Rightarrow> w1)
      in w2\<lparr>byToken := AList.delete (te_token e) (byToken w2)\<rparr>)"

definition invalidated_params :: "'a token_world_scheme \<Rightarrow> entryref \<Rightarrow> TokenReason \<Rightarrow> jsval" where
  "invalidated_params w r reason =
     JObj [(''token'', JStr (te_token (entries w r))),
           (''reason'', JStr (reason_text reason)),
           (''window'', case te_window (entries w r) of Some wd \<Rightarrow> windowInfo w wd | None \<Rightarrow> JNull)]"

definition invalidate ::
  "ext \<Rightarrow> entryref \<Rightarrow> TokenReason \<Rightarrow> 'a token_world_scheme \<Rightarrow> 'a token_world_scheme" where
  "invalidate E r reason w =
     (let tok = te_token (entries w r); c = te_conn (entries w r);
          w1 = unregister r w;
          w2 = dropClientWatches E [tok] w1;
          w3 = notifyClient E c ''token.invalidated'' (invalidated_params w2 r reason) w2
      in sendLog ''info'' (''token '' @ tok @ '' invalidated ('' @ reason_text reason @
           '') for client '' @ numberToString E (conn_id w3 c)) w3)"

section \<open>Validation\<close>

definition validated_params :: "'a token_world_scheme \<Rightarrow> entryref \<Rightarrow> Window \<Rightarrow> jsval" where
  "validated_params w r wd =
     JObj [(''token'', JStr (te_token (entries w r))), (''window'', windowInfo w wd)]"

definition validate ::
  "ext \<Rightarrow> entryref \<Rightarrow> Window \<Rightarrow> 'a token_world_scheme \<Rightarrow> 'a token_world_scheme" where
  "validate E r wd w =
     (let key = windowKey wd;
          w1 = (case map_of (byWindow w) key of
                  Some existing \<Rightarrow> if existing \<noteq> r then invalidate E existing Superseded w else w
                | None \<Rightarrow> w);
          w2 = w1\<lparr>entries := (entries w1)(r := (entries w1 r)\<lparr>te_state := TActive, te_window := Some wd\<rparr>)\<rparr>;
          w3 = w2\<lparr>byWindow := AList.update key r (byWindow w2)\<rparr>;
          c = te_conn (entries w3 r);
          w4 = notifyClient E c ''token.validated'' (validated_params w3 r wd) w3
      in sendLog ''info'' (''token '' @ te_token (entries w r) @ '' validated for client '' @
           numberToString E (conn_id w4 c) @ '' on '' @ key) w4)"

definition checkCaption :: "ext \<Rightarrow> Window \<Rightarrow> 'a token_world_scheme \<Rightarrow> 'a token_world_scheme" where
  "checkCaption E wd w =
     (let caption = caption_of w wd
      in if length caption < TOKEN_LENGTH then w
         else case map_of (byToken w) (take TOKEN_LENGTH caption) of
             None \<Rightarrow> w
           | Some r \<Rightarrow>
               if \<not> tm_active (te_timer (entries w r)) then w
               else (case te_window (entries w r) of
                   None \<Rightarrow> validate E r wd w
                 | Some wd' \<Rightarrow> if wd' \<noteq> wd then invalidate E r Ambiguous w else w))"

section \<open>Events\<close>

definition onTokenDeadline :: "ext \<Rightarrow> entryref \<Rightarrow> 'a token_world_scheme \<Rightarrow> 'a token_world_scheme" where
  "onTokenDeadline E r w =
     (if te_state (entries w r) = TPending then invalidate E r Timeout w else w)"

text \<open>The deadline timer of an entry fires: a single-shot timer is inactive by the time its
  slot runs.\<close>

definition deadline_fires :: "ext \<Rightarrow> entryref \<Rightarrow> 'a token_world_scheme \<Rightarrow> 'a token_world_scheme" where
  "deadline_fires E r w = onTokenDeadline E r
     (w\<lparr>entries := (entries w)(r := (entries w r)\<lparr>te_timer := timer_stop (te_timer (entries w r))\<rparr>)\<rparr>)"

definition onWindowAdded :: "ext \<Rightarrow> Window \<Rightarrow> 'a token_world_scheme \<Rightarrow> 'a token_world_scheme" where
  "onWindowAdded E wd w = checkCaption E wd
     (snd (connect E (WindowSignal wd ''captionNormalChanged'') (SlotCheckCaption wd) w))"

definition onWindowRemoved :: "ext \<Rightarrow> Window \<Rightarrow> 'a token_world_scheme \<Rightarrow> 'a token_world_scheme" where
  "onWindowRemoved E wd w = (case map_of (byWindow w) (windowKey wd) of
      Some r \<Rightarrow> invalidate E r WindowClosed w
    | None \<Rightarrow> w)"

text \<open>The entries of a client's tokens, in registration order.\<close>

definition client_entries :: "'a token_world_scheme \<Rightarrow> number \<Rightarrow> entryref list" where
  "client_entries w clientId =
     filter (\<lambda>r. conn_id w (te_conn (entries w r)) = clientId) (map snd (byToken w))"

definition dropClientTokens :: "ext \<Rightarrow> number \<Rightarrow> 'a token_world_scheme \<Rightarrow> 'a token_world_scheme" where
  "dropClientTokens E clientId w =
     (let removed = client_entries w clientId;
          toks = map (\<lambda>r. te_token (entries w r)) removed;
          w1 = fold unregister removed w;
          w2 = dropClientWatches E toks w1
      in if length removed > 0
         then sendLog ''info'' (''client '' @ numberToString E clientId @ '' disconnected: dropped '' @
                numberToString E (of_nat (length removed)) @ '' token(s)'') w2
         else w2)"

section \<open>Use of a token\<close>

definition resolveTokenWindow ::
  "string \<Rightarrow> connref \<Rightarrow> 'a token_world_scheme \<Rightarrow> exn + Window" where
  "resolveTokenWindow tok c w = (case map_of (byToken w) tok of
      None \<Rightarrow> Inl (invalidParams (''unknown token '' @ quoted tok))
    | Some r \<Rightarrow>
        if te_conn (entries w r) \<noteq> c
        then Inl (invalidParams (''token '' @ quoted tok @ '' belongs to another client''))
        else (case (te_state (entries w r), te_window (entries w r)) of
            (TActive, Some wd) \<Rightarrow> Inr wd
          | _ \<Rightarrow> Inl (invalidParams (''token '' @ quoted tok @ '' is not bound to a window''))))"

definition wireWindowEvents :: "ext \<Rightarrow> 'a token_world_scheme \<Rightarrow> 'a token_world_scheme" where
  "wireWindowEvents E w =
     (let w1 = snd (connect E (WorkspaceSignal ''windowAdded'') SlotWindowAdded w);
          w2 = snd (connect E (WorkspaceSignal ''windowRemoved'') SlotWindowRemoved w1)
      in fold (\<lambda>wd v. snd (connect E (WindowSignal wd ''captionNormalChanged'') (SlotCheckCaption wd) v))
           (windowList (native w2)) w2)"

text \<open>The handler of \<open>token.request\<close>, on the parsed params.\<close>

fun timeout_param :: "jsval \<Rightarrow> number option" where
  "timeout_param v = (case js_prop v ''timeout'' of JNum q \<Rightarrow> Some q | _ \<Rightarrow> None)"

definition new_entry :: "string \<Rightarrow> connref \<Rightarrow> number \<Rightarrow> TokenEntry" where
  "new_entry tok c ms =
     \<lparr>te_token = tok, te_conn = c, te_state = TPending, te_window = None,
      te_timer = timer_start (new_QTimer\<lparr>tm_singleShot := True, tm_timerType := COARSE_TIMER,
        tm_interval := ms\<rparr>)\<rparr>"

definition token_request ::
  "ext \<Rightarrow> number \<Rightarrow> connref \<Rightarrow> 'a token_world_scheme \<Rightarrow> ((exn + jsval) \<times> 'a token_world_scheme) option" where
  "token_request E ms c w = (case generateToken E w of
      None \<Rightarrow> None
    | Some (tok, w1) \<Rightarrow>
        (let r = nextEntry w1;
             w2 = w1\<lparr>entries := (entries w1)(r := new_entry tok c ms), nextEntry := Suc r,
                    byToken := AList.update tok r (byToken w1)\<rparr>
         in Some (Inr (JObj [(''token'', JStr tok)]),
              sendLog ''info'' (''token.request from client '' @ numberToString E (conn_id w2 c) @
                '': token='' @ tok @ '' timeout='' @ numberToString E ms @ ''ms'') w2)))"

definition method_token_request :: "ext \<Rightarrow> 'a token_world_scheme handler" where
  "method_token_request E =
     registerMethod E TokenRequestSchema (typed_handler E timeout_param (token_request E))"

end
