(* ===== verification/Token_Lemmas.thy ===== *)
theory Token_Lemmas
  imports Tokens
begin

text \<open>
  The invariant of the token registry and that every operation of \<open>tokens.ts\<close> keeps it; what
  each operation does to the registry, the watches and the messages sent.
\<close>

section \<open>Frame\<close>

lemma token_comm_frame [simp]:
  "byToken (sendLog l m w) = byToken w" "byWindow (sendLog l m w) = byWindow w"
  "entries (sendLog l m w) = entries w" "nextEntry (sendLog l m w) = nextEntry w"
  "rng (sendLog l m w) = rng w"
  "token_world.more (sendLog l m w) = token_world.more w"
  "byToken (notifyClient E c me p w) = byToken w" "byWindow (notifyClient E c me p w) = byWindow w"
  "entries (notifyClient E c me p w) = entries w" "nextEntry (notifyClient E c me p w) = nextEntry w"
  "rng (notifyClient E c me p w) = rng w"
  "token_world.more (notifyClient E c me p w) = token_world.more w"
  by (simp_all add: dbus_defs notifyClient_def send_def)

lemma token_more_frame:
  assumes "watch_world.more w = watch_world.more v"
  shows "byToken w = byToken v" "byWindow w = byWindow v" "entries w = entries v"
    "nextEntry w = nextEntry v" "rng w = rng v" "token_world.more w = token_world.more v"
  using assms by (cases w, cases v, simp)+

lemmas token_drop_frame [simp] = token_more_frame [OF dropClientWatches_frame(7)]

lemma token_update_frame [simp]:
  "pushes (w\<lparr>byToken := a\<rparr>) = pushes w" "pushes (w\<lparr>byWindow := b\<rparr>) = pushes w"
  "pushes (w\<lparr>entries := e\<rparr>) = pushes w" "pushes (w\<lparr>nextEntry := n\<rparr>) = pushes w"
  "pushes (w\<lparr>rng := i\<rparr>) = pushes w"
  "dbus_inv (w\<lparr>byToken := a\<rparr>) = dbus_inv w" "dbus_inv (w\<lparr>byWindow := b\<rparr>) = dbus_inv w"
  "dbus_inv (w\<lparr>entries := e\<rparr>) = dbus_inv w" "dbus_inv (w\<lparr>nextEntry := n\<rparr>) = dbus_inv w"
  "dbus_inv (w\<lparr>rng := i\<rparr>) = dbus_inv w"
  by (simp_all add: pushes_def dbus_inv_def)

lemma unregister_frame [simp]:
  "native (unregister r w) = native w" "slots (unregister r w) = slots w"
  "nextFn (unregister r w) = nextFn w" "conns (unregister r w) = conns w"
  "nextConn (unregister r w) = nextConn w"
  "desktopsById (unregister r w) = desktopsById w"
  "activitiesById (unregister r w) = activitiesById w"
  "watchesByToken (unregister r w) = watchesByToken w"
  "nextEntry (unregister r w) = nextEntry w" "rng (unregister r w) = rng w"
  "token_world.more (unregister r w) = token_world.more w"
  "pushes (unregister r w) = pushes w" "dbus_inv (unregister r w) = dbus_inv w"
  by (simp_all add: unregister_def Let_def split: TokenState.splits option.splits)

lemma unregister_fields:
  "byToken (unregister r w) = AList.delete (te_token (entries w r)) (byToken w)"
  "entries (unregister r w) =
     (entries w)(r := (entries w r)\<lparr>te_timer := timer_stop (te_timer (entries w r))\<rparr>)"
  "byWindow (unregister r w) = (case (te_state (entries w r), te_window (entries w r)) of
      (TActive, Some wd) \<Rightarrow> AList.delete (windowKey wd) (byWindow w) | _ \<Rightarrow> byWindow w)"
  by (simp_all add: unregister_def Let_def split: TokenState.splits option.splits)

lemma invalidate_frame [simp]:
  "native (invalidate E r rs w) = native w" "nextFn (invalidate E r rs w) = nextFn w"
  "conns (invalidate E r rs w) = conns w" "nextConn (invalidate E r rs w) = nextConn w"
  "desktopsById (invalidate E r rs w) = desktopsById w"
  "activitiesById (invalidate E r rs w) = activitiesById w"
  "nextEntry (invalidate E r rs w) = nextEntry w" "rng (invalidate E r rs w) = rng w"
  "token_world.more (invalidate E r rs w) = token_world.more w"
  by (simp_all add: invalidate_def Let_def dropClientWatches_frame)

lemma invalidate_fields:
  "byToken (invalidate E r rs w) = AList.delete (te_token (entries w r)) (byToken w)"
  "entries (invalidate E r rs w) =
     (entries w)(r := (entries w r)\<lparr>te_timer := timer_stop (te_timer (entries w r))\<rparr>)"
  "byWindow (invalidate E r rs w) = byWindow (unregister r w)"
  "map_of (watchesByToken (invalidate E r rs w)) =
     (map_of (watchesByToken w))(te_token (entries w r) := None)"
  "slots (invalidate E r rs w) =
     slots (dropClientWatches E [te_token (entries w r)] (unregister r w))"
  by (simp_all add: invalidate_def Let_def unregister_fields dropClientWatches_frame fun_eq_iff
      wt.drop_watch_of)

text \<open>An invalidation tells the owner, and only the owner, once.\<close>

lemma pushes_invalidate:
  "pushes (invalidate E r rs w) = pushes w @
     notification E w (te_conn (entries w r)) ''token.invalidated'' (invalidated_params w r rs)"
  by (simp add: invalidate_def Let_def dropClientWatches_frame notification_def
      invalidated_params_def windowInfo_def unregister_fields split: option.splits)

section \<open>Invariant\<close>

definition entry_ok :: "'a token_world_scheme \<Rightarrow> entryref \<Rightarrow> bool" where
  "entry_ok w r \<longleftrightarrow> (case te_state (entries w r) of
      TPending \<Rightarrow> te_window (entries w r) = None \<and> tm_active (te_timer (entries w r))
    | TActive \<Rightarrow> (case te_window (entries w r) of
         None \<Rightarrow> False | Some wd \<Rightarrow> map_of (byWindow w) (windowKey wd) = Some r))"

definition binding_ok :: "'a token_world_scheme \<Rightarrow> string \<Rightarrow> entryref \<Rightarrow> bool" where
  "binding_ok w k r \<longleftrightarrow>
     te_state (entries w r) = TActive \<and> map_option windowKey (te_window (entries w r)) = Some k \<and>
     map_of (byToken w) (te_token (entries w r)) = Some r"

definition tok_inv :: "'a token_world_scheme \<Rightarrow> bool" where
  "tok_inv w \<longleftrightarrow>
     distinct (map fst (byToken w)) \<and> distinct (map fst (byWindow w)) \<and>
     (\<forall>t r. map_of (byToken w) t = Some r \<longrightarrow>
        r < nextEntry w \<and> te_token (entries w r) = t \<and> entry_ok w r) \<and>
     (\<forall>k r. map_of (byWindow w) k = Some r \<longrightarrow> binding_ok w k r) \<and>
     (\<forall>r < nextEntry w. tm_active (te_timer (entries w r)) \<longrightarrow>
        map_of (byToken w) (te_token (entries w r)) = Some r)"

lemma tok_invD:
  assumes "tok_inv w"
  shows tok_inv_distinct: "distinct (map fst (byToken w))" "distinct (map fst (byWindow w))"
    and tok_inv_token: "map_of (byToken w) t = Some r \<Longrightarrow>
          r < nextEntry w \<and> te_token (entries w r) = t \<and> entry_ok w r"
    and tok_inv_window: "map_of (byWindow w) k = Some r \<Longrightarrow> binding_ok w k r"
    and tok_inv_timer: "r < nextEntry w \<Longrightarrow> tm_active (te_timer (entries w r)) \<Longrightarrow>
          map_of (byToken w) (te_token (entries w r)) = Some r"
  using assms unfolding tok_inv_def by blast+

lemma tok_invI:
  assumes "distinct (map fst (byToken w))" "distinct (map fst (byWindow w))"
    and "\<And>t r. map_of (byToken w) t = Some r \<Longrightarrow>
          r < nextEntry w \<and> te_token (entries w r) = t \<and> entry_ok w r"
    and "\<And>k r. map_of (byWindow w) k = Some r \<Longrightarrow> binding_ok w k r"
    and "\<And>r. r < nextEntry w \<Longrightarrow> tm_active (te_timer (entries w r)) \<Longrightarrow>
          map_of (byToken w) (te_token (entries w r)) = Some r"
  shows "tok_inv w"
  using assms by (simp add: tok_inv_def)

lemma tok_inv_cong:
  assumes "byToken w' = byToken w" "byWindow w' = byWindow w" "entries w' = entries w"
    "nextEntry w' = nextEntry w"
  shows "tok_inv w' = tok_inv w"
  unfolding tok_inv_def entry_ok_def binding_ok_def assms ..

text \<open>A registered entry is the one its token names.\<close>

lemma registered_entry_unique:
  assumes "tok_inv w" "map_of (byToken w) t = Some r" "map_of (byToken w) t' = Some r"
  shows "t = t'"
  using tok_inv_token [OF assms(1) assms(2)] tok_inv_token [OF assms(1) assms(3)] by simp

text \<open>Unregistering removes exactly that entry from both maps.\<close>

lemma unregister_byToken:
  assumes "tok_inv w" "map_of (byToken w) t = Some r"
  shows "map_of (byToken (unregister r w)) t' = Some r' \<longleftrightarrow> map_of (byToken w) t' = Some r' \<and> r' \<noteq> r"
  using registered_entry_unique [OF assms(1)] assms(2) tok_inv_token [OF assms]
  by (auto simp: unregister_fields)

lemma unregister_byWindow:
  assumes "tok_inv w" "map_of (byToken w) t = Some r"
  shows "map_of (byWindow (unregister r w)) k = Some r' \<longleftrightarrow> map_of (byWindow w) k = Some r' \<and> r' \<noteq> r"
  using tok_inv_token [OF assms] tok_inv_window [OF assms(1), of k]
  by (auto simp: unregister_fields entry_ok_def binding_ok_def split: TokenState.splits option.splits)

lemma tok_inv_unregister:
  assumes inv: "tok_inv w" and reg: "map_of (byToken w) t = Some r"
  shows "tok_inv (unregister r w)" (is "tok_inv ?w")
proof (rule tok_invI)
  note bt = unregister_byToken [OF inv reg] and bw = unregister_byWindow [OF inv reg]
  show "distinct (map fst (byToken ?w))" "distinct (map fst (byWindow ?w))"
    using tok_inv_distinct [OF inv]
    by (auto simp: unregister_fields jm.invar_del split: TokenState.splits option.splits)
  show "r' < nextEntry ?w \<and> te_token (entries ?w r') = t' \<and> entry_ok ?w r'"
    if "map_of (byToken ?w) t' = Some r'" for t' r'
    using that tok_inv_token [OF inv, of t' r'] bw
    by (auto simp: bt entry_ok_def unregister_fields(2) split: TokenState.splits option.splits)
  show "binding_ok ?w k r'" if "map_of (byWindow ?w) k = Some r'" for k r'
    using that tok_inv_window [OF inv, of k r'] by (auto simp: bw bt binding_ok_def unregister_fields(2))
  show "map_of (byToken ?w) (te_token (entries ?w r')) = Some r'"
    if "r' < nextEntry ?w" "tm_active (te_timer (entries ?w r'))" for r'
    using that tok_inv_timer [OF inv, of r'] by (auto simp: bt unregister_fields(2) split: if_splits)
qed

text \<open>The same for several entries at once, as \<open>dropClientTokens\<close> does.\<close>

definition all_registered :: "'a token_world_scheme \<Rightarrow> entryref list \<Rightarrow> bool" where
  "all_registered w rs \<longleftrightarrow>
     distinct rs \<and> (\<forall>r \<in> set rs. map_of (byToken w) (te_token (entries w r)) = Some r)"

lemma fold_unregister:
  assumes "tok_inv w" "all_registered w rs"
  shows "tok_inv (fold unregister rs w)"
    and "map_of (byToken (fold unregister rs w)) t = Some r \<longleftrightarrow>
           map_of (byToken w) t = Some r \<and> r \<notin> set rs"
    and "map_of (byWindow (fold unregister rs w)) k = Some r \<longleftrightarrow>
           map_of (byWindow w) k = Some r \<and> r \<notin> set rs"
    and "r \<notin> set rs \<Longrightarrow> entries (fold unregister rs w) r = entries w r"
  using assms
proof (induction rs arbitrary: w)
  case Nil
  { case 1 then show ?case by simp }
  { case 2 then show ?case by simp }
  { case 3 then show ?case by simp }
  { case 4 then show ?case by simp }
next
  case (Cons a rs)
  have step: "tok_inv (unregister a w)" "all_registered (unregister a w) rs"
    if "tok_inv w" "all_registered w (a # rs)" for w :: "'a token_world_scheme"
    using that tok_inv_unregister [OF that(1)]
    by (auto simp: all_registered_def unregister_byToken unregister_fields(2))
  have reg: "map_of (byToken w) (te_token (entries w a)) = Some a"
    if "all_registered w (a # rs)" for w :: "'a token_world_scheme"
    using that by (simp add: all_registered_def)
  { case 1 then show ?case using Cons(1) step by simp }
  { case 2 then show ?case
      using Cons(2) [OF step] unregister_byToken [OF 2(1) reg [OF 2(2)]] by auto }
  { case 3 then show ?case
      using Cons(3) [OF step] unregister_byWindow [OF 3(1) reg [OF 3(2)]] by auto }
  { case 4 then show ?case
      using Cons(4) [OF _ step] by (simp add: unregister_fields(2)) }
qed

section \<open>Watches belong to the owner of the window\<close>

definition owned_watch :: "'a token_world_scheme \<Rightarrow> WatchState \<Rightarrow> entryref \<Rightarrow> bool" where
  "owned_watch w st r \<longleftrightarrow>
     te_state (entries w r) = TActive \<and> te_window (entries w r) = Some (wst_window st) \<and>
     (\<forall>p n t c wd q. map_of (wst_handlers st) p = Some (SlotWindowWatch n t c wd q) \<longrightarrow>
        c = te_conn (entries w r))"

definition owner_inv :: "'a token_world_scheme \<Rightarrow> bool" where
  "owner_inv w \<longleftrightarrow>
     (\<forall>t st. map_of (watchesByToken w) t = Some st \<longrightarrow>
        (\<exists>r. map_of (byToken w) t = Some r \<and> owned_watch w st r))"

text \<open>The invariant of the script's registries.\<close>

definition script_inv :: "ext \<Rightarrow> 'a token_world_scheme \<Rightarrow> bool" where
  "script_inv E w \<longleftrightarrow> dbus_inv w \<and> watch_inv E w \<and> tok_inv w \<and> owner_inv w"

lemma script_invD:
  assumes "script_inv E w"
  shows "dbus_inv w" "watch_inv E w" "tok_inv w" "owner_inv w"
  using assms by (simp_all add: script_inv_def)

lemma owner_inv_cong:
  assumes "byToken w' = byToken w" "entries w' = entries w" "watchesByToken w' = watchesByToken w"
  shows "owner_inv w' = owner_inv w"
  unfolding owner_inv_def owned_watch_def assms ..

lemma owner_inv_mono:
  assumes "owner_inv w"
    and "\<And>t st. map_of (watchesByToken w') t = Some st \<Longrightarrow> map_of (watchesByToken w) t = Some st"
    and "\<And>t st r. map_of (watchesByToken w') t = Some st \<Longrightarrow> map_of (byToken w) t = Some r \<Longrightarrow>
           map_of (byToken w') t = Some r \<and> te_state (entries w' r) = te_state (entries w r) \<and>
           te_window (entries w' r) = te_window (entries w r) \<and> te_conn (entries w' r) = te_conn (entries w r)"
  shows "owner_inv w'"
  unfolding owner_inv_def
proof (intro allI impI)
  fix t st
  assume st: "map_of (watchesByToken w') t = Some st"
  then obtain r where r: "map_of (byToken w) t = Some r" "owned_watch w st r"
    using assms(1,2) unfolding owner_inv_def by blast
  then show "\<exists>r. map_of (byToken w') t = Some r \<and> owned_watch w' st r"
    using assms(3) [OF st r(1)] by (auto simp: owned_watch_def)
qed

lemma watch_inv_sendLog [simp]: "watch_inv E (sendLog l m w) = watch_inv E w"
  by (rule watch_inv_cong) simp_all

lemma watch_inv_notify [simp]: "watch_inv E (notifyClient E' c m p w) = watch_inv E w"
  by (rule watch_inv_cong) simp_all

lemma script_inv_comm [simp]:
  "script_inv E w \<Longrightarrow> script_inv E (sendLog l m w)"
  "script_inv E w \<Longrightarrow> script_inv E (notifyClient E' c me p w)"
  unfolding script_inv_def
  by (auto simp: tok_inv_cong [of "sendLog l m w" w] owner_inv_cong [of "sendLog l m w" w]
      tok_inv_cong [of "notifyClient E' c me p w" w] owner_inv_cong [of "notifyClient E' c me p w" w])

section \<open>Operations keep the invariant\<close>

lemma fold_unregister_frame [simp]:
  "native (fold unregister rs w) = native w" "slots (fold unregister rs w) = slots w"
  "nextFn (fold unregister rs w) = nextFn w" "conns (fold unregister rs w) = conns w"
  "nextConn (fold unregister rs w) = nextConn w"
  "watchesByToken (fold unregister rs w) = watchesByToken w"
  "desktopsById (fold unregister rs w) = desktopsById w"
  "activitiesById (fold unregister rs w) = activitiesById w"
  "nextEntry (fold unregister rs w) = nextEntry w" "rng (fold unregister rs w) = rng w"
  "token_world.more (fold unregister rs w) = token_world.more w"
  "pushes (fold unregister rs w) = pushes w" "dbus_inv (fold unregister rs w) = dbus_inv w"
  by (simp_all add: fold_keeps)

abbreviation drop_entries :: "ext \<Rightarrow> entryref list \<Rightarrow> 'a token_world_scheme \<Rightarrow> 'a token_world_scheme" where
  "drop_entries E rs w \<equiv>
     dropClientWatches E (map (\<lambda>r. te_token (entries w r)) rs) (fold unregister rs w)"

lemma script_inv_drop_entries:
  assumes inv: "script_inv E w" and reg: "all_registered w rs"
  shows "script_inv E (drop_entries E rs w)" (is "script_inv E ?w")
proof -
  note [simp] = fold_unregister [OF script_invD(3) [OF inv] reg]
  have "watch_inv E (fold unregister rs w) = watch_inv E w"
    by (rule watch_inv_cong) simp_all
  then have "dbus_inv ?w" "watch_inv E ?w"
    using script_invD [OF inv] by (simp_all add: dbus_inv_drop watch_inv_drop)
  moreover have "tok_inv ?w"
    by (subst tok_inv_cong [of ?w "fold unregister rs w"]) simp_all
  moreover have "owner_inv ?w"
  proof (rule owner_inv_mono [OF script_invD(4) [OF inv]])
    fix t st r
    assume st: "map_of (watchesByToken ?w) t = Some st" and r: "map_of (byToken w) t = Some r"
    have "t \<notin> (\<lambda>r. te_token (entries w r)) ` set rs"
      using wt.subset_kept [OF st] by simp
    moreover have "te_token (entries w r) = t"
      using tok_inv_token [OF script_invD(3) [OF inv] r] by simp
    ultimately have "r \<notin> set rs" by auto
    then show "map_of (byToken ?w) t = Some r \<and> te_state (entries ?w r) = te_state (entries w r) \<and>
        te_window (entries ?w r) = te_window (entries w r) \<and> te_conn (entries ?w r) = te_conn (entries w r)"
      using r by simp
  qed (simp add: wt.drop_watch_of split: if_splits)
  ultimately show ?thesis by (simp add: script_inv_def)
qed

lemma invalidate_drop_entries:
  "invalidate E r rs w =
     (let w2 = drop_entries E [r] w; c = te_conn (entries w r);
          w3 = notifyClient E c ''token.invalidated'' (invalidated_params w2 r rs) w2
      in sendLog ''info'' (''token '' @ te_token (entries w r) @ '' invalidated ('' @ reason_text rs @
           '') for client '' @ numberToString E (conn_id w3 c)) w3)"
  by (simp add: invalidate_def Let_def)

lemma script_inv_invalidate:
  assumes "script_inv E w" "map_of (byToken w) t = Some r"
  shows "script_inv E (invalidate E r rs w)"
proof -
  have "all_registered w [r]"
    using assms tok_inv_token [OF script_invD(3) [OF assms(1)] assms(2)] by (simp add: all_registered_def)
  from script_inv_drop_entries [OF assms(1) this] show ?thesis
    by (simp add: invalidate_drop_entries Let_def)
qed

text \<open>Binding a pending, registered entry to a window nobody owns.\<close>

abbreviation bind_entry :: "entryref \<Rightarrow> Window \<Rightarrow> 'a token_world_scheme \<Rightarrow> 'a token_world_scheme" where
  "bind_entry r wd w \<equiv>
     w\<lparr>entries := (entries w)(r := (entries w r)\<lparr>te_state := TActive, te_window := Some wd\<rparr>),
       byWindow := AList.update (windowKey wd) r (byWindow w)\<rparr>"

lemma script_inv_bind:
  assumes inv: "script_inv E w" and reg: "map_of (byToken w) t = Some r"
    and pend: "te_window (entries w r) = None" and free: "map_of (byWindow w) (windowKey wd) = None"
  shows "script_inv E (bind_entry r wd w)" (is "script_inv E ?w")
proof -
  note tinv = script_invD(3) [OF inv]
  have st: "te_state (entries w r) = TPending" and tok: "te_token (entries w r) = t"
    using tok_inv_token [OF tinv reg] pend by (auto simp: entry_ok_def split: TokenState.splits)
  have "watch_inv E ?w = watch_inv E w"
    by (rule watch_inv_cong) simp_all
  moreover have "tok_inv ?w"
  proof (rule tok_invI)
    show "distinct (map fst (byToken ?w))" "distinct (map fst (byWindow ?w))"
      using tok_inv_distinct [OF tinv] by (simp_all add: jm.invar_put)
    show "r' < nextEntry ?w \<and> te_token (entries ?w r') = t' \<and> entry_ok ?w r'"
      if "map_of (byToken ?w) t' = Some r'" for t' r'
      using that tok_inv_token [OF tinv, of t' r'] free
      by (auto simp: entry_ok_def split: TokenState.splits option.splits)
    show "binding_ok ?w k r'" if "map_of (byWindow ?w) k = Some r'" for k r'
      using that tok_inv_window [OF tinv, of k r'] reg tok st
      by (auto simp: binding_ok_def split: if_splits)
    show "map_of (byToken ?w) (te_token (entries ?w r')) = Some r'"
      if "r' < nextEntry ?w" "tm_active (te_timer (entries ?w r'))" for r'
      using that tok_inv_timer [OF tinv, of r'] by (auto split: if_splits)
  qed
  moreover have "owner_inv ?w"
  proof (rule owner_inv_mono [OF script_invD(4) [OF inv]])
    fix t' st' r'
    assume "map_of (watchesByToken ?w) t' = Some st'" "map_of (byToken w) t' = Some r'"
    then have "te_state (entries w r') = TActive"
      using script_invD(4) [OF inv] by (force simp: owner_inv_def owned_watch_def)
    then show "map_of (byToken ?w) t' = Some r' \<and> te_state (entries ?w r') = te_state (entries w r') \<and>
        te_window (entries ?w r') = te_window (entries w r') \<and> te_conn (entries ?w r') = te_conn (entries w r')"
      using \<open>map_of (byToken w) t' = Some r'\<close> st by auto
  qed simp
  ultimately show ?thesis using script_invD [OF inv] by (simp add: script_inv_def)
qed

text \<open>The state in which \<open>validate\<close> binds: the present owner of the window is superseded.\<close>

definition supersede :: "ext \<Rightarrow> entryref \<Rightarrow> Window \<Rightarrow> 'a token_world_scheme \<Rightarrow> 'a token_world_scheme" where
  "supersede E r wd w = (case map_of (byWindow w) (windowKey wd) of
      Some existing \<Rightarrow> if existing \<noteq> r then invalidate E existing Superseded w else w
    | None \<Rightarrow> w)"

lemma validate_bind:
  "validate E r wd w =
     (let w2 = bind_entry r wd (supersede E r wd w); c = te_conn (entries w2 r);
          w3 = notifyClient E c ''token.validated'' (validated_params w2 r wd) w2
      in sendLog ''info'' (''token '' @ te_token (entries w r) @ '' validated for client '' @
           numberToString E (conn_id w3 c) @ '' on '' @ windowKey wd) w3)"
  by (simp add: validate_def supersede_def Let_def)

lemma supersede_free:
  assumes inv: "script_inv E w" and reg: "map_of (byToken w) t = Some r"
    and pend: "te_window (entries w r) = None"
  shows "script_inv E (supersede E r wd w)"
    and "map_of (byToken (supersede E r wd w)) t = Some r"
    and "entries (supersede E r wd w) r = entries w r"
    and "map_of (byWindow (supersede E r wd w)) (windowKey wd) = None"
proof -
  note tinv = script_invD(3) [OF inv]
  let ?w = "supersede E r wd w"
  have "script_inv E ?w \<and> map_of (byToken ?w) t = Some r \<and> entries ?w r = entries w r \<and>
        map_of (byWindow ?w) (windowKey wd) = None"
  proof (cases "map_of (byWindow w) (windowKey wd)")
    case None
    then show ?thesis using inv reg by (simp add: supersede_def)
  next
    case (Some x)
    have b: "binding_ok w (windowKey wd) x"
      using tok_inv_window [OF tinv Some] .
    then have xr: "x \<noteq> r" using pend by (auto simp: binding_ok_def)
    have regx: "map_of (byToken w) (te_token (entries w x)) = Some x"
      using b by (simp add: binding_ok_def)
    have tx: "te_token (entries w x) \<noteq> t"
      using regx reg xr by auto
    show ?thesis
      using Some xr reg tx b script_inv_invalidate [OF inv regx]
      by (auto simp: supersede_def invalidate_fields unregister_fields(3) binding_ok_def)
  qed
  then show "script_inv E ?w" "map_of (byToken ?w) t = Some r" "entries ?w r = entries w r"
    "map_of (byWindow ?w) (windowKey wd) = None"
    by auto
qed

lemma script_inv_validate:
  assumes "script_inv E w" "map_of (byToken w) t = Some r" "te_window (entries w r) = None"
  shows "script_inv E (validate E r wd w)"
  using script_inv_bind [OF supersede_free(1,2) [OF assms], of wd wd] supersede_free(3,4) [OF assms, of wd]
    assms(3)
  by (simp add: validate_bind Let_def)

lemma script_inv_checkCaption: "script_inv E w \<Longrightarrow> script_inv E (checkCaption E wd w)"
  by (auto simp: checkCaption_def Let_def intro: script_inv_validate script_inv_invalidate
      split: option.splits)

lemma script_inv_window_removed: "script_inv E w \<Longrightarrow> script_inv E (onWindowRemoved E wd w)"
  using tok_inv_window [of w] script_invD(3) [of E w]
  by (auto simp: onWindowRemoved_def binding_ok_def intro: script_inv_invalidate split: option.splits)

text \<open>The deadline timer.\<close>

abbreviation stop_deadline :: "entryref \<Rightarrow> 'a token_world_scheme \<Rightarrow> 'a token_world_scheme" where
  "stop_deadline r w \<equiv>
     w\<lparr>entries := (entries w)(r := (entries w r)\<lparr>te_timer := timer_stop (te_timer (entries w r))\<rparr>)\<rparr>"

lemma unregister_stop_deadline: "unregister r (stop_deadline r w) = unregister r w"
  by (simp add: unregister_def Let_def split: TokenState.splits option.splits)

lemma invalidate_stop_deadline: "invalidate E r rs (stop_deadline r w) = invalidate E r rs w"
  unfolding invalidate_def unregister_stop_deadline by simp

lemma deadline_fires_eq:
  "deadline_fires E r w =
     (if te_state (entries w r) = TPending then invalidate E r Timeout w else stop_deadline r w)"
  by (simp add: deadline_fires_def onTokenDeadline_def invalidate_stop_deadline [simplified])

lemma script_inv_stop_deadline:
  assumes inv: "script_inv E w" and act: "te_state (entries w r) = TActive"
  shows "script_inv E (stop_deadline r w)" (is "script_inv E ?w")
proof -
  note tinv = script_invD(3) [OF inv]
  have "watch_inv E ?w = watch_inv E w"
    by (rule watch_inv_cong) simp_all
  moreover have "tok_inv ?w"
  proof (rule tok_invI)
    show "r' < nextEntry ?w \<and> te_token (entries ?w r') = t' \<and> entry_ok ?w r'"
      if "map_of (byToken ?w) t' = Some r'" for t' r'
      using that tok_inv_token [OF tinv, of t' r'] act
      by (auto simp: entry_ok_def split: TokenState.splits option.splits)
    show "binding_ok ?w k r'" if "map_of (byWindow ?w) k = Some r'" for k r'
      using that tok_inv_window [OF tinv, of k r'] by (auto simp: binding_ok_def)
    show "map_of (byToken ?w) (te_token (entries ?w r')) = Some r'"
      if "r' < nextEntry ?w" "tm_active (te_timer (entries ?w r'))" for r'
      using that tok_inv_timer [OF tinv, of r'] by (auto split: if_splits)
  qed (use tok_inv_distinct [OF tinv] in simp_all)
  moreover have "owner_inv ?w"
    by (rule owner_inv_mono [OF script_invD(4) [OF inv]]) auto
  ultimately show ?thesis using script_invD [OF inv] by (simp add: script_inv_def)
qed

lemma script_inv_deadline:
  assumes "script_inv E w" "r < nextEntry w" "tm_active (te_timer (entries w r))"
  shows "script_inv E (deadline_fires E r w)"
proof (cases "te_state (entries w r)")
  case TPending
  then show ?thesis
    using script_inv_invalidate [OF assms(1) tok_inv_timer [OF script_invD(3) [OF assms(1)] assms(2,3)]]
    by (simp add: deadline_fires_eq)
next
  case TActive
  then show ?thesis
    using script_inv_stop_deadline [OF assms(1)] by (simp add: deadline_fires_eq)
qed

text \<open>Connecting slots that are not window watches.\<close>

definition watch_slot :: "slot \<Rightarrow> bool" where
  "watch_slot sl = (case sl of SlotWindowWatch _ _ _ _ _ \<Rightarrow> True | _ \<Rightarrow> False)"

lemma watch_slot_simps [simp]:
  "watch_slot (SlotWindowWatch n t c wd p)" "\<not> watch_slot (SlotWorkspaceWatch n c p)"
  "\<not> watch_slot (SlotCheckCaption wd)" "\<not> watch_slot SlotWindowAdded" "\<not> watch_slot SlotWindowRemoved"
  "\<not> watch_slot SlotRescanDesktops" "\<not> watch_slot SlotActivityAdded" "\<not> watch_slot SlotActivityRemoved"
  by (simp_all add: watch_slot_def)

definition plain_slot :: "slot \<Rightarrow> bool" where
  "plain_slot sl = (case sl of
      SlotWindowWatch _ _ _ _ _ \<Rightarrow> False | SlotWorkspaceWatch _ _ _ \<Rightarrow> False | _ \<Rightarrow> True)"

lemma plain_slot_simps [simp]:
  "plain_slot (SlotCheckCaption wd)" "plain_slot SlotWindowAdded" "plain_slot SlotWindowRemoved"
  "plain_slot SlotRescanDesktops" "plain_slot SlotActivityAdded" "plain_slot SlotActivityRemoved"
  "\<not> plain_slot (SlotWindowWatch n t c wd p)" "\<not> plain_slot (SlotWorkspaceWatch n c p)"
  by (simp_all add: plain_slot_def)

text \<open>The signal a slot that is no watch is connected to.\<close>

definition at_home :: "sigref \<Rightarrow> slot \<Rightarrow> bool" where
  "at_home sig sl = (case sl of
      SlotCheckCaption wd \<Rightarrow> sig = WindowSignal wd ''captionNormalChanged''
    | SlotWindowAdded \<Rightarrow> sig = WorkspaceSignal ''windowAdded''
    | SlotWindowRemoved \<Rightarrow> sig = WorkspaceSignal ''windowRemoved''
    | SlotRescanDesktops \<Rightarrow> sig = WorkspaceSignal ''desktopsChanged''
    | SlotActivityAdded \<Rightarrow> sig = WorkspaceSignal ''activityAdded''
    | SlotActivityRemoved \<Rightarrow> sig = WorkspaceSignal ''activityRemoved''
    | _ \<Rightarrow> False)"

lemma at_home_plain: "at_home sig sl \<Longrightarrow> plain_slot sl"
  by (cases sl) (simp_all add: at_home_def)

text \<open>The connected watches, each of which is connected once.\<close>

definition watch_wires :: "(sigref \<times> slot) list \<Rightarrow> (sigref \<times> slot) list" where
  "watch_wires s = filter (\<lambda>x. \<not> plain_slot (snd x)) s"

lemma watch_wires_simps [simp]:
  "watch_wires [] = []" "set (watch_wires s) = {x \<in> set s. \<not> plain_slot (snd x)}"
  "watch_wires (s @ s') = watch_wires s @ watch_wires s'"
  "watch_wires (x # s) = (if plain_slot (snd x) then watch_wires s else x # watch_wires s)"
  by (simp_all add: watch_wires_def)

lemma watch_wires_filter: "watch_wires (filter P s) = filter P (watch_wires s)"
  by (induction s) auto

lemma distinct_watch_wires_filter: "distinct (watch_wires s) \<Longrightarrow> distinct (watch_wires (filter P s))"
  by (simp add: watch_wires_filter)

lemma distinct_watch_wires_disconnect:
  "distinct (watch_wires (slots w)) \<Longrightarrow> distinct (watch_wires (slots (snd (disconnect E sig sl w))))"
  by (simp add: disconnect_def distinct_watch_wires_filter split: option.splits)

text \<open>Slots that are no watches are never disconnected, and new ones are connected to the
  signals they belong to; no watch is connected twice.\<close>

definition plain_kept :: "(sigref \<times> slot) list \<Rightarrow> (sigref \<times> slot) list \<Rightarrow> bool" where
  "plain_kept s' s \<longleftrightarrow> (\<forall>sig sl. plain_slot sl \<longrightarrow>
     ((sig, sl) \<in> set s \<longrightarrow> (sig, sl) \<in> set s') \<and>
     ((sig, sl) \<in> set s' \<longrightarrow> at_home sig sl \<or> (sig, sl) \<in> set s)) \<and>
     (distinct (watch_wires s) \<longrightarrow> distinct (watch_wires s'))"

lemma plain_keptD:
  assumes "plain_kept s' s"
  shows "plain_slot sl \<Longrightarrow> (sig, sl) \<in> set s \<Longrightarrow> (sig, sl) \<in> set s'"
    and "plain_slot sl \<Longrightarrow> (sig, sl) \<in> set s' \<Longrightarrow> at_home sig sl \<or> (sig, sl) \<in> set s"
    and "distinct (watch_wires s) \<Longrightarrow> distinct (watch_wires s')"
  using assms unfolding plain_kept_def by blast+

lemma plain_kept_trans: "plain_kept s2 s1 \<Longrightarrow> plain_kept s1 s \<Longrightarrow> plain_kept s2 s"
  unfolding plain_kept_def by blast

lemma plain_kept_simps [simp]: "plain_kept s s"
  "(\<not> plain_slot sl \<and> (sig, sl) \<notin> set s) \<or> at_home sig sl \<Longrightarrow> plain_kept (s @ [(sig, sl)]) s"
  "\<not> plain_slot sl \<Longrightarrow> plain_kept (filter (\<lambda>x. x \<noteq> (sig, sl)) s) s"
  by (auto simp: plain_kept_def distinct_watch_wires_filter dest: at_home_plain)

lemma plain_kept_connect: "at_home sig sl \<Longrightarrow> plain_kept (slots (snd (connect E sig sl w))) (slots w)"
  by (simp add: connect_def)

definition ws_slot :: "slot \<Rightarrow> bool" where
  "ws_slot sl = (case sl of SlotWorkspaceWatch _ _ _ \<Rightarrow> True | _ \<Rightarrow> False)"

lemma ws_slot_simps [simp]: "ws_slot (SlotWorkspaceWatch n c p)"
  by (simp add: ws_slot_def)

lemma ws_slotD [dest]: "ws_slot sl \<Longrightarrow> \<not> watch_slot sl \<and> \<not> plain_slot sl"
  by (cases sl) (simp_all add: ws_slot_def plain_slot_def)

lemma watch_slot_not_plain: "watch_slot sl \<Longrightarrow> \<not> plain_slot sl"
  by (cases sl) (simp_all add: plain_slot_def)

lemma connect_token_frame [simp]:
  "conns (snd (connect E sig sl w)) = conns w"
  "nextConn (snd (connect E sig sl w)) = nextConn w"
  "promises (snd (connect E sig sl w)) = promises w"
  "pushes (snd (connect E sig sl w)) = pushes w"
  "native (snd (connect E sig sl w)) = native w"
  "nextFn (snd (connect E sig sl w)) = nextFn w"
  "watchesByToken (snd (connect E sig sl w)) = watchesByToken w"
  "desktopsById (snd (connect E sig sl w)) = desktopsById w"
  "activitiesById (snd (connect E sig sl w)) = activitiesById w"
  "byToken (snd (connect E sig sl w)) = byToken w"
  "byWindow (snd (connect E sig sl w)) = byWindow w"
  "entries (snd (connect E sig sl w)) = entries w"
  "nextEntry (snd (connect E sig sl w)) = nextEntry w"
  "rng (snd (connect E sig sl w)) = rng w"
  "token_world.more (snd (connect E sig sl w)) = token_world.more w"
  by (simp_all add: connect_def pushes_def)

lemma watch_inv_slots:
  assumes inv: "watch_inv E w" and same: "watchesByToken w' = watchesByToken w" "native w' = native w"
    and fn: "nextFn w \<le> nextFn w'"
    and sl: "\<And>sig s. watch_slot s \<Longrightarrow> (sig, s) \<in> set (slots w') \<longleftrightarrow> (sig, s) \<in> set (slots w)"
  shows "watch_inv E w'"
proof (rule watch_invI)
  fix t st p h
  assume "map_of (watchesByToken w') t = Some st" "map_of (wst_handlers st) p = Some h"
  then have "handler_ok w t (wst_window st) p h"
    using watch_inv_handler [OF inv] by (simp add: same)
  then show "handler_ok w' t (wst_window st) p h"
    using fn sl [of h] by (auto simp: handler_ok_def watch_slot_def)
next
  fix sig n t c wd p
  assume "(sig, SlotWindowWatch n t c wd p) \<in> set (slots w')"
  then have "(sig, SlotWindowWatch n t c wd p) \<in> set (slots w)"
    using sl by (simp add: watch_slot_def)
  from watch_inv_slot [OF inv this] fn
  show "n < nextFn w' \<and> sig = propSignal wd p \<and> signal_exists sig \<and>
     (registered w' t wd p (SlotWindowWatch n t c wd p) \<or> dead_signal E (native w') sig)"
    by (auto simp: registered_def same)
qed (use watch_inv_distinct [OF inv] watch_inv_handlers [OF inv] same in auto)

lemma script_inv_connect:
  assumes inv: "script_inv E w" and sl: "\<not> watch_slot sl"
  shows "script_inv E (snd (connect E' sig sl w))" (is "script_inv E ?w")
proof -
  have "watch_inv E ?w"
    by (rule watch_inv_slots [OF script_invD(2) [OF inv]]) (use sl in \<open>auto simp: connect_def\<close>)
  moreover have "dbus_inv ?w = dbus_inv w"
    by (simp add: dbus_inv_def)
  moreover have "tok_inv ?w = tok_inv w"
    by (rule tok_inv_cong) simp_all
  moreover have "owner_inv ?w = owner_inv w"
    by (rule owner_inv_cong) simp_all
  ultimately show ?thesis using script_invD [OF inv] by (simp add: script_inv_def)
qed

lemma script_inv_window_added: "script_inv E w \<Longrightarrow> script_inv E (onWindowAdded E wd w)"
  unfolding onWindowAdded_def
  by (intro script_inv_checkCaption script_inv_connect) (simp_all add: watch_slot_def)

text \<open>A client's tokens.\<close>

lemma client_entries_registered:
  assumes "tok_inv w"
  shows "all_registered w (client_entries w clientId)"
proof -
  have reg: "map_of (byToken w) (te_token (entries w r)) = Some r" if "r \<in> snd ` set (byToken w)" for r
  proof -
    from that obtain t where "map_of (byToken w) t = Some r"
      using tok_inv_distinct(1) [OF assms] by (auto simp: map_of_eq_Some_iff)
    then show ?thesis using tok_inv_token [OF assms] by simp
  qed
  have "inj_on snd (set (byToken w))"
  proof (rule inj_onI)
    fix x y
    assume xy: "x \<in> set (byToken w)" "y \<in> set (byToken w)" "snd x = snd y"
    have "map_of (byToken w) (fst x) = Some (snd x)" "map_of (byToken w) (fst y) = Some (snd y)"
      using tok_inv_distinct(1) [OF assms] xy(1,2) by simp_all
    then show "x = y" using registered_entry_unique [OF assms] xy(3) by (metis prod.collapse)
  qed
  then have "distinct (map snd (byToken w))"
    using tok_inv_distinct(1) [OF assms] by (simp add: distinct_map)
  then show ?thesis using reg by (auto simp: all_registered_def client_entries_def)
qed

lemma dropClientTokens_eq:
  "dropClientTokens E clientId w =
     (let w2 = drop_entries E (client_entries w clientId) w
      in if client_entries w clientId \<noteq> []
         then sendLog ''info'' (''client '' @ numberToString E clientId @ '' disconnected: dropped '' @
                numberToString E (of_nat (length (client_entries w clientId))) @ '' token(s)'') w2
         else w2)"
  by (simp add: dropClientTokens_def Let_def)

lemma script_inv_dropClientTokens:
  assumes "script_inv E w"
  shows "script_inv E (dropClientTokens E clientId w)"
proof -
  have inv: "script_inv E (drop_entries E (client_entries w clientId) w)"
    using assms by (intro script_inv_drop_entries client_entries_registered) (simp_all add: script_inv_def)
  show ?thesis
    unfolding dropClientTokens_eq Let_def
    by (simp only: inv script_inv_comm(1) [OF inv] simp_thms split: if_split)
qed

section \<open>Token generation\<close>

lemma sample_loop_Some:
  assumes "sample_loop E used n = Some (tok, m)"
  shows "map_of used tok = None \<and> n \<le> m \<and> (\<exists>k. tok = sample_token E (n + k * TOKEN_LENGTH))"
proof -
  have "case tm of (tok, m) \<Rightarrow>
      map_of used tok = None \<and> n \<le> m \<and> (\<exists>k. tok = sample_token E (n + k * TOKEN_LENGTH))"
    if "sample_loop E used n = Some tm" for tm
  proof (rule sample_loop.raw_induct [where P = "\<lambda>E used n tm. case tm of (tok, m) \<Rightarrow>
      map_of used tok = None \<and> n \<le> m \<and> (\<exists>k. tok = sample_token E (n + k * TOKEN_LENGTH))", OF _ that])
    fix loop E used n tm
    assume IH: "\<And>E used n tm. loop E used n = Some tm \<Longrightarrow> (case tm of (tok, m) \<Rightarrow>
        map_of used tok = None \<and> n \<le> m \<and> (\<exists>k. tok = sample_token E (n + k * TOKEN_LENGTH)))"
      and eq: "(let tok = sample_token E n in if \<not> jm_has used tok then Some (tok, n + TOKEN_LENGTH)
          else loop E used (n + TOKEN_LENGTH)) = Some tm"
    show "case tm of (tok, m) \<Rightarrow>
        map_of used tok = None \<and> n \<le> m \<and> (\<exists>k. tok = sample_token E (n + k * TOKEN_LENGTH))"
    proof (cases "jm_has used (sample_token E n)")
      case False
      then show ?thesis using eq by (auto intro: exI [of _ 0])
    next
      case True
      then have "loop E used (n + TOKEN_LENGTH) = Some tm" using eq by (auto simp: Let_def)
      from IH [OF this] obtain k where "fst tm = sample_token E (n + TOKEN_LENGTH + k * TOKEN_LENGTH)"
        "map_of used (fst tm) = None" "n + TOKEN_LENGTH \<le> snd tm"
        by (auto split: prod.splits)
      then show ?thesis
        by (auto split: prod.splits intro!: exI [of _ "Suc k"] simp: algebra_simps)
    qed
  qed
  from this [OF assms] show ?thesis by simp
qed

text \<open>The loop returns as soon as one of the samples to come is not in use.\<close>

lemma sample_loop_returns:
  "map_of used (sample_token E (n + k * TOKEN_LENGTH)) = None \<Longrightarrow>
     \<exists>tok m. sample_loop E used n = Some (tok, m)"
proof (induction k arbitrary: n)
  case 0
  then show ?case by (simp add: sample_loop.simps [of E used n])
next
  case (Suc k)
  show ?case
  proof (cases "map_of used (sample_token E n)")
    case None
    then show ?thesis by (simp add: sample_loop.simps [of E used n])
  next
    case (Some r)
    have "map_of used (sample_token E (n + TOKEN_LENGTH + k * TOKEN_LENGTH)) = None"
      using Suc.prems by (simp add: algebra_simps)
    from Suc.IH [OF this] Some show ?thesis by (simp add: sample_loop.simps [of E used n])
  qed
qed

text \<open>With a random source in \<open>[0, 1)\<close> a sample is a well-formed token.\<close>

definition random_documented :: "ext \<Rightarrow> bool" where
  "random_documented E \<longleftrightarrow> (\<forall>n. 0 \<le> mathRandom E n \<and> mathRandom E n < 1)"

definition well_formed_token :: "string \<Rightarrow> bool" where
  "well_formed_token t \<longleftrightarrow> length t = TOKEN_LENGTH \<and> set t \<subseteq> set TOKEN_ALPHABET"

lemma length_alphabet: "length TOKEN_ALPHABET = 64"
  by (simp add: TOKEN_ALPHABET_def)

lemma alphabet_at_random:
  assumes "0 \<le> q" "q < (1 :: rat)"
  shows "\<exists>ch \<in> set TOKEN_ALPHABET. alphabet_at \<lfloor>q * of_nat (length TOKEN_ALPHABET)\<rfloor> = [ch]"
proof -
  have "0 \<le> \<lfloor>q * 64\<rfloor>" "\<lfloor>q * 64\<rfloor> < 64"
    using assms by (simp_all add: floor_less_iff)
  note bounds = this
  then have idx: "nat \<lfloor>q * 64\<rfloor> < length TOKEN_ALPHABET"
    by (simp only: length_alphabet nat_less_iff)
  show ?thesis
  proof (rule bexI)
    show "alphabet_at \<lfloor>q * of_nat (length TOKEN_ALPHABET)\<rfloor> = [TOKEN_ALPHABET ! nat \<lfloor>q * 64\<rfloor>]"
      using bounds by (simp add: alphabet_at_def length_alphabet)
    show "TOKEN_ALPHABET ! nat \<lfloor>q * 64\<rfloor> \<in> set TOKEN_ALPHABET"
      using idx by (rule nth_mem)
  qed
qed

lemma sample_token_well_formed:
  assumes "random_documented E"
  shows "well_formed_token (sample_token E n)"
proof -
  let ?f = "\<lambda>i. alphabet_at \<lfloor>mathRandom E (n + i) * of_nat (length TOKEN_ALPHABET)\<rfloor>"
  have one: "\<exists>ch \<in> set TOKEN_ALPHABET. ?f i = [ch]" for i
    using assms by (intro alphabet_at_random) (simp_all add: random_documented_def)
  then have "length (?f i) = 1" "set (?f i) \<subseteq> set TOKEN_ALPHABET" for i
    by (metis length_Cons list.size(3) One_nat_def, metis empty_set list.simps(15) subsetI singletonD)
  then show ?thesis
    by (auto simp: well_formed_token_def sample_token_def length_concat comp_def interv_sum_list_conv_sum_set_nat)
qed

lemma script_inv_token_request:
  assumes inv: "script_inv E w" and req: "token_request E' ms c w = Some (res, w')"
  shows "script_inv E w'"
proof -
  note tinv = script_invD(3) [OF inv]
  obtain tok n where gen: "sample_loop E' (byToken w) (rng w) = Some (tok, n)"
    using req by (auto simp: token_request_def generateToken_def split: option.splits)
  note fresh = sample_loop_Some [OF gen]
  let ?r = "nextEntry w"
  let ?v = "w\<lparr>rng := n, entries := (entries w)(?r := new_entry tok c ms), nextEntry := Suc ?r,
      byToken := AList.update tok ?r (byToken w)\<rparr>"
  have old: "r \<noteq> ?r" if "map_of (byToken w) t = Some r" for t r
    using tok_inv_token [OF tinv that] by simp
  have oldw: "r \<noteq> ?r" if "map_of (byWindow w) k = Some r" for k r
    using tok_inv_window [OF tinv that] old by (auto simp: binding_ok_def)
  have "tok_inv ?v"
  proof (rule tok_invI)
    show "distinct (map fst (byToken ?v))" "distinct (map fst (byWindow ?v))"
      using tok_inv_distinct [OF tinv] by (simp_all add: jm.invar_put)
    show "r < nextEntry ?v \<and> te_token (entries ?v r) = t \<and> entry_ok ?v r"
      if "map_of (byToken ?v) t = Some r" for t r
      using that tok_inv_token [OF tinv, of t r] old [of t r]
      by (auto simp: entry_ok_def new_entry_def split: if_splits TokenState.splits option.splits)
    show "binding_ok ?v k r" if "map_of (byWindow ?v) k = Some r" for k r
      using that tok_inv_window [OF tinv, of k r] oldw [of k r] fresh by (auto simp: binding_ok_def)
    show "map_of (byToken ?v) (te_token (entries ?v r)) = Some r"
      if "r < nextEntry ?v" "tm_active (te_timer (entries ?v r))" for r
      using that tok_inv_timer [OF tinv, of r] fresh by (auto simp: new_entry_def less_Suc_eq split: if_splits)
  qed
  moreover have "owner_inv ?v"
    by (rule owner_inv_mono [OF script_invD(4) [OF inv]]) (use old fresh in auto)
  moreover have "watch_inv E ?v = watch_inv E w"
    by (rule watch_inv_cong) simp_all
  ultimately have "script_inv E ?v"
    using script_invD [OF inv] by (simp add: script_inv_def)
  moreover have "w' = sendLog ''info'' (''token.request from client '' @ numberToString E' (conn_id ?v c) @
      '': token='' @ tok @ '' timeout='' @ numberToString E' ms @ ''ms'') ?v"
    using req gen by (simp add: token_request_def generateToken_def Let_def)
  ultimately show ?thesis by simp
qed

section \<open>Using a token\<close>

lemma resolveTokenWindow_iff:
  "resolveTokenWindow tok c w = Inr wd \<longleftrightarrow>
     (\<exists>r. map_of (byToken w) tok = Some r \<and> te_conn (entries w r) = c \<and>
          te_state (entries w r) = TActive \<and> te_window (entries w r) = Some wd)"
  by (auto simp: resolveTokenWindow_def split: option.splits TokenState.splits)

lemma resolveTokenWindow_invalid: "resolveTokenWindow tok c w = Inl e \<Longrightarrow> is_invalid_params e"
  by (auto simp: resolveTokenWindow_def split: option.splits TokenState.splits if_splits)

lemma resolveTokenWindow_cong:
  assumes "byToken w' = byToken w" "entries w' = entries w"
  shows "resolveTokenWindow tok c w' = resolveTokenWindow tok c w"
  unfolding resolveTokenWindow_def assms ..

text \<open>The watches of a token belong to the connection that can resolve it.\<close>

lemma watch_of_owner:
  assumes "script_inv E w" "resolveTokenWindow tok c w = Inr wd" "map_of (watchesByToken w) tok = Some st"
  shows "wst_window st = wd"
    and "map_of (wst_handlers st) p = Some (SlotWindowWatch n t c' wd' q) \<Longrightarrow> c' = c"
  using assms(2) script_invD(4) [OF assms(1)] assms(3)
  by (fastforce simp: resolveTokenWindow_iff owner_inv_def owned_watch_def)+

end
