(* ===== verification/Workspace_Watches.thy ===== *)
theory Workspace_Watches
  imports Token_Lemmas
begin

text \<open>
  The first half of \<open>kwinscript/src/workspace.ts\<close>: the supported workspace properties, their
  values, ID validation, and the per-client watch registry. The methods are in
  \<open>Workspace_Methods\<close>.
\<close>

record ws_world = token_world +
  watchesByClient :: "(number, (string, slot) jsmap) jsmap"

section \<open>Supported properties\<close>

definition WORKSPACE_UPDATE_PROPS :: "string list" where
  [const_defs]: "WORKSPACE_UPDATE_PROPS = [''currentDesktop'', ''currentActivity'']"

definition WORKSPACE_QUERY_PROPS :: "string list" where
  [const_defs]: "WORKSPACE_QUERY_PROPS =
     [''currentDesktop'', ''currentActivity'', ''desktops'', ''activities'']"

definition WORKSPACE_WATCH_PROPS :: "string list" where
  [const_defs]: "WORKSPACE_WATCH_PROPS =
     [''currentDesktop'', ''currentActivity'', ''desktops'', ''activities'']"

text \<open>\<open>workspace.ts\<close> has its own \<open>invalidParams\<close>, with the body of the one of \<open>windows.ts\<close>.\<close>

definition ws_invalidParams :: "string \<Rightarrow> exn" where
  "ws_invalidParams message =
     JSONRPCErrorException (''invalid params: '' @ message) InvalidParams None"

lemma ws_invalidParams_eq [simp]: "ws_invalidParams = invalidParams"
  by (simp add: fun_eq_iff ws_invalidParams_def invalidParams_def)

section \<open>Values\<close>

definition workspaceValue :: "'a kwin_world_scheme \<Rightarrow> string \<Rightarrow> jsval" where
  "workspaceValue w prop =
     (if prop = ''currentDesktop'' then JStr (vdId (ws_currentDesktop (native w)))
      else if prop = ''currentActivity'' then JStr (ws_currentActivity (native w))
      else if prop = ''desktops'' then JArr (map (\<lambda>d. JStr (vdId d)) (ws_desktops (native w)))
      else JArr (map JStr (ws_activities (native w))))"

definition validateId :: "'a watch_world_scheme \<Rightarrow> string \<Rightarrow> jsval \<Rightarrow> exn + string" where
  "validateId w prop v = (case v of
      JStr i \<Rightarrow>
        (if prop = ''currentDesktop'' \<and> lookupDesktop w i = None
         then Inl (ws_invalidParams (''unknown desktop ID '' @ quoted i))
         else if prop = ''currentActivity'' \<and> \<not> hasActivity w i
         then Inl (ws_invalidParams (''unknown activity ID '' @ quoted i))
         else Inr i)
    | _ \<Rightarrow> Inl (ws_invalidParams (''property '' @ quoted prop @ '' expects an ID (string)'')))"

section \<open>Watches\<close>

definition workspaceSignal :: "string \<Rightarrow> sigref" where
  "workspaceSignal prop = WorkspaceSignal (prop @ ''Changed'')"

text \<open>The slot of a workspace watch.\<close>

definition workspace_changed ::
  "ext \<Rightarrow> connref \<Rightarrow> string \<Rightarrow> 'a conn_world_scheme \<Rightarrow> 'a conn_world_scheme" where
  "workspace_changed E c prop w = notifyClient E c ''workspace.changed''
      (JObj [(''property'', JStr prop), (''value'', workspaceValue w prop)]) w"

definition ws_setWatch ::
  "ext \<Rightarrow> connref \<Rightarrow> string \<Rightarrow> bool \<Rightarrow> 'a ws_world_scheme \<Rightarrow> (string + bool) \<times> 'a ws_world_scheme" where
  "ws_setWatch E c prop enable w =
     (let cid = conn_id w c
      in if enable then
        (let hs = (case map_of (watchesByClient w) cid of None \<Rightarrow> [] | Some hs \<Rightarrow> hs);
             w1 = (case map_of (watchesByClient w) cid of
                     None \<Rightarrow> w\<lparr>watchesByClient := AList.update cid [] (watchesByClient w)\<rparr> | Some _ \<Rightarrow> w)
         in if jm_has hs prop then (Inr True, w1)
            else
              (let handler = SlotWorkspaceWatch (nextFn w1) c prop;
                   (err, w2) = connect E (workspaceSignal prop) handler (w1\<lparr>nextFn := Suc (nextFn w1)\<rparr>)
               in case err of
                    Some e \<Rightarrow> (Inl e, w2)
                  | None \<Rightarrow>
                      (Inr True,
                       sendLog ''info'' (''workspace.watch: client '' @ numberToString E cid @
                          '' watches '' @ prop)
                         (w2\<lparr>watchesByClient := AList.update cid (AList.update prop handler hs)
                               (watchesByClient w2)\<rparr>))))
      else
        (case map_of (watchesByClient w) cid of
           None \<Rightarrow> (Inr False, w)
         | Some hs \<Rightarrow>
             (case map_of hs prop of
                None \<Rightarrow> (Inr False, w)
              | Some handler \<Rightarrow>
                  (case disconnect E (workspaceSignal prop) handler w of
                     (Some e, w1) \<Rightarrow> (Inl e, w1)
                   | (None, w1) \<Rightarrow>
                       (let hs' = AList.delete prop hs;
                            w2 = w1\<lparr>watchesByClient :=
                                   (if hs' = [] then AList.delete cid (watchesByClient w1)
                                    else AList.update cid hs' (watchesByClient w1))\<rparr>
                        in (Inr False,
                            sendLog ''info'' (''workspace.watch: client '' @ numberToString E cid @
                              '' no longer watches '' @ prop) w2))))))"

definition ws_drop_handler ::
  "ext \<Rightarrow> number \<Rightarrow> string \<times> slot \<Rightarrow> 'a ws_world_scheme \<Rightarrow> 'a ws_world_scheme" where
  "ws_drop_handler E clientId = (\<lambda>(prop, handler) w.
     (case disconnect E (workspaceSignal prop) handler w of
        (None, w1) \<Rightarrow> w1
      | (Some e, w1) \<Rightarrow> sendLog ''warn'' (''workspace.watch: cannot disconnect '' @ prop @
                          '' for client '' @ numberToString E clientId @ '': '' @ e) w1))"

definition dropClientWorkspaceWatches ::
  "ext \<Rightarrow> number \<Rightarrow> 'a ws_world_scheme \<Rightarrow> 'a ws_world_scheme" where
  "dropClientWorkspaceWatches E clientId w = (case map_of (watchesByClient w) clientId of
      None \<Rightarrow> w
    | Some hs \<Rightarrow>
        (let w1 = fold (ws_drop_handler E clientId) hs w
         in w1\<lparr>watchesByClient := AList.delete clientId (watchesByClient w1)\<rparr>))"

section \<open>Which properties a client watches\<close>

definition ws_watched :: "'a ws_world_scheme \<Rightarrow> number \<Rightarrow> string \<Rightarrow> bool" where
  "ws_watched w cid prop \<longleftrightarrow> (case map_of (watchesByClient w) cid of
      None \<Rightarrow> False | Some hs \<Rightarrow> map_of hs prop \<noteq> None)"

section \<open>Frame\<close>

lemma ws_comm_frame [simp]:
  "watchesByClient (sendLog l m w) = watchesByClient w"
  "watchesByClient (notifyClient E c me p w) = watchesByClient w"
  "ws_world.more (sendLog l m w) = ws_world.more w"
  "ws_world.more (notifyClient E c me p w) = ws_world.more w"
  by (simp_all add: dbus_defs notifyClient_def send_def)

lemma ws_update_frame [simp]:
  "pushes (w\<lparr>watchesByClient := x\<rparr>) = pushes w"
  "dbus_inv (w\<lparr>watchesByClient := x\<rparr>) = dbus_inv w"
  by (simp_all add: pushes_def dbus_inv_def)

lemma disconnect_full_frame:
  assumes "disconnect E sig sl w = (err, w')"
  shows "native w' = native w" "nextFn w' = nextFn w" "conns w' = conns w" "nextConn w' = nextConn w"
    "promises w' = promises w" "desktopsById w' = desktopsById w" "activitiesById w' = activitiesById w"
    "watchesByToken w' = watchesByToken w" "byToken w' = byToken w" "byWindow w' = byWindow w"
    "entries w' = entries w" "nextEntry w' = nextEntry w" "rng w' = rng w"
    "watchesByClient w' = watchesByClient w" "ws_world.more w' = ws_world.more w"
  using assms by (auto simp: disconnect_def split: if_splits option.splits)

lemma connect_ws_frame [simp]:
  "watchesByClient (snd (connect E sig sl w)) = watchesByClient w"
  "ws_world.more (snd (connect E sig sl w)) = ws_world.more w"
  by (simp_all add: connect_def)

text \<open>The registries above the slots are untouched.\<close>

definition same_registries :: "'a ws_world_scheme \<Rightarrow> 'a ws_world_scheme \<Rightarrow> bool" where
  "same_registries w' w \<longleftrightarrow>
     native w' = native w \<and> conns w' = conns w \<and> nextConn w' = nextConn w \<and> pushes w' = pushes w \<and>
     desktopsById w' = desktopsById w \<and> activitiesById w' = activitiesById w \<and>
     watchesByToken w' = watchesByToken w \<and> byToken w' = byToken w \<and> byWindow w' = byWindow w \<and>
     entries w' = entries w \<and> nextEntry w' = nextEntry w \<and> rng w' = rng w \<and>
     ws_world.more w' = ws_world.more w \<and>
     nextFn w \<le> nextFn w' \<and> (dbus_inv w \<longrightarrow> dbus_inv w') \<and>
     (\<forall>sig s. watch_slot s \<longrightarrow> (sig, s) \<in> set (slots w') \<longleftrightarrow> (sig, s) \<in> set (slots w)) \<and> plain_kept (slots w') (slots w)"

lemma same_registries_refl [simp]: "same_registries w w"
  by (simp add: same_registries_def)

lemma same_registries_trans:
  "same_registries w2 w1 \<Longrightarrow> same_registries w1 w \<Longrightarrow> same_registries w2 w"
  by (auto simp: same_registries_def intro: plain_kept_trans)

lemma same_registries_script_inv:
  assumes "same_registries w' w" "script_inv E w"
  shows "script_inv E w'"
proof -
  have "watch_inv E w'"
    by (rule watch_inv_slots [OF script_invD(2) [OF assms(2)]])
      (use assms(1) in \<open>auto simp: same_registries_def\<close>)
  moreover have "tok_inv w' = tok_inv w"
    by (rule tok_inv_cong) (use assms(1) in \<open>auto simp: same_registries_def\<close>)
  moreover have "owner_inv w' = owner_inv w"
    by (rule owner_inv_cong) (use assms(1) in \<open>auto simp: same_registries_def\<close>)
  ultimately show ?thesis
    using assms script_invD [OF assms(2)] by (simp add: script_inv_def same_registries_def)
qed

lemma same_registries_log [simp]: "same_registries (sendLog l m w) w"
  by (auto simp: same_registries_def)

lemma same_registries_watches [simp]: "same_registries (w\<lparr>watchesByClient := x\<rparr>) w"
  by (simp add: same_registries_def)

lemma same_registries_disconnect:
  assumes "disconnect E sig sl w = (err, w')" "ws_slot sl"
  shows "same_registries w' w"
  using assms ws_slotD [OF assms(2)] by (auto simp: same_registries_def disconnect_def pushes_def dbus_inv_def
      split: if_splits option.splits)

lemma same_registries_nextFn: "same_registries (w\<lparr>nextFn := Suc (nextFn w)\<rparr>) w"
  by (simp add: same_registries_def pushes_def dbus_inv_def)

end
