(* ===== verification/Workspace_Watch_Lemmas.thy ===== *)
theory Workspace_Watch_Lemmas
  imports Workspace_Watches
begin

text \<open>
  The outcomes of the workspace \<open>setWatch\<close>, the invariant of the workspace watch registry,
  and that \<open>setWatch\<close> and \<open>dropClientWorkspaceWatches\<close> keep it.
\<close>

section \<open>Outcomes\<close>

definition ws_handlers :: "'a ws_world_scheme \<Rightarrow> number \<Rightarrow> (string, slot) jsmap" where
  "ws_handlers w cid = (case map_of (watchesByClient w) cid of None \<Rightarrow> [] | Some hs \<Rightarrow> hs)"

definition ws_ensure :: "number \<Rightarrow> 'a ws_world_scheme \<Rightarrow> 'a ws_world_scheme" where
  "ws_ensure cid w = (case map_of (watchesByClient w) cid of
      None \<Rightarrow> w\<lparr>watchesByClient := AList.update cid [] (watchesByClient w)\<rparr> | Some _ \<Rightarrow> w)"

definition ws_add ::
  "connref \<Rightarrow> string \<Rightarrow> 'a ws_world_scheme \<Rightarrow> 'a ws_world_scheme" where
  "ws_add c prop w =
     (let cid = conn_id w c; h = SlotWorkspaceWatch (nextFn w) c prop; w1 = ws_ensure cid w
      in w1\<lparr>nextFn := Suc (nextFn w), slots := slots w @ [(workspaceSignal prop, h)],
            watchesByClient := AList.update cid (AList.update prop h (ws_handlers w cid))
              (watchesByClient w1)\<rparr>)"

definition ws_remove ::
  "number \<Rightarrow> string \<Rightarrow> slot \<Rightarrow> 'a ws_world_scheme \<Rightarrow> 'a ws_world_scheme" where
  "ws_remove cid prop h w =
     (let hs' = AList.delete prop (ws_handlers w cid)
      in w\<lparr>slots := filter (\<lambda>x. x \<noteq> (workspaceSignal prop, h)) (slots w),
           watchesByClient := (if hs' = [] then AList.delete cid (watchesByClient w)
                               else AList.update cid hs' (watchesByClient w))\<rparr>)"

lemma ws_ensure_frame [simp]:
  "native (ws_ensure cid w) = native w" "slots (ws_ensure cid w) = slots w"
  "nextFn (ws_ensure cid w) = nextFn w" "conns (ws_ensure cid w) = conns w"
  "nextConn (ws_ensure cid w) = nextConn w" "promises (ws_ensure cid w) = promises w"
  by (simp_all add: ws_ensure_def split: option.splits)

lemma map_of_ws_ensure:
  "map_of (watchesByClient (ws_ensure cid w)) = (map_of (watchesByClient w))(cid \<mapsto> ws_handlers w cid)"
  by (auto simp: ws_ensure_def ws_handlers_def split: option.splits)

lemma ws_ensure_same [simp]: "same_registries (ws_ensure cid w) w"
  by (simp add: ws_ensure_def split: option.splits)

lemma ws_setWatch_present:
  "map_of (ws_handlers w (conn_id w c)) prop = Some h \<Longrightarrow>
     ws_setWatch E c prop True w = (Inr True, ws_ensure (conn_id w c) w)"
  by (simp add: ws_setWatch_def Let_def ws_handlers_def ws_ensure_def split: option.splits)

lemma ws_setWatch_no_signal:
  "map_of (ws_handlers w (conn_id w c)) prop = None \<Longrightarrow> \<not> signal_exists (workspaceSignal prop) \<Longrightarrow>
     ws_setWatch E c prop True w =
       (Inl (undefinedCallText E), (ws_ensure (conn_id w c) w)\<lparr>nextFn := Suc (nextFn w)\<rparr>)"
  by (simp add: ws_setWatch_def Let_def ws_handlers_def ws_ensure_def connect_def split: option.splits)

lemma ws_setWatch_connects:
  "map_of (ws_handlers w (conn_id w c)) prop = None \<Longrightarrow> signal_exists (workspaceSignal prop) \<Longrightarrow>
     ws_setWatch E c prop True w =
       (Inr True, sendLog ''info'' (''workspace.watch: client '' @ numberToString E (conn_id w c) @
          '' watches '' @ prop) (ws_add c prop w))"
  by (simp add: ws_setWatch_def Let_def ws_handlers_def ws_ensure_def connect_def ws_add_def
      split: option.splits)

lemma ws_setWatch_absent:
  "map_of (ws_handlers w (conn_id w c)) prop = None \<Longrightarrow>
     ws_setWatch E c prop False w = (Inr False, w)"
  by (simp add: ws_setWatch_def ws_handlers_def Let_def split: option.splits)

lemma ws_setWatch_disconnects:
  "map_of (ws_handlers w (conn_id w c)) prop = Some h \<Longrightarrow> signal_exists (workspaceSignal prop) \<Longrightarrow>
     ws_setWatch E c prop False w =
       (case kwinDisconnect E (native w) (workspaceSignal prop) of
          Some e \<Rightarrow> (Inl e, w)
        | None \<Rightarrow> (Inr False, sendLog ''info'' (''workspace.watch: client '' @
             numberToString E (conn_id w c) @ '' no longer watches '' @ prop)
             (ws_remove (conn_id w c) prop h w)))"
  by (cases "map_of (watchesByClient w) (conn_id w c)")
    (auto simp: ws_setWatch_def ws_handlers_def Let_def disconnect_def ws_remove_def split: option.splits)

section \<open>Invariant\<close>

definition ws_registered :: "'a ws_world_scheme \<Rightarrow> connref \<Rightarrow> string \<Rightarrow> slot \<Rightarrow> bool" where
  "ws_registered w c p h \<longleftrightarrow> map_of (ws_handlers w (conn_id w c)) p = Some h"

definition ws_inv :: "ext \<Rightarrow> 'a ws_world_scheme \<Rightarrow> bool" where
  "ws_inv E w \<longleftrightarrow>
     (\<forall>cid p h. map_of (ws_handlers w cid) p = Some h \<longrightarrow>
        (\<exists>n c. h = SlotWorkspaceWatch n c p \<and> n < nextFn w \<and> c < nextConn w \<and> conn_id w c = cid) \<and>
        signal_exists (workspaceSignal p) \<and> (workspaceSignal p, h) \<in> set (slots w)) \<and>
     (\<forall>cid. distinct (map fst (ws_handlers w cid))) \<and>
     (\<forall>sig n c p. (sig, SlotWorkspaceWatch n c p) \<in> set (slots w) \<longrightarrow>
        n < nextFn w \<and> c < nextConn w \<and> sig = workspaceSignal p \<and> signal_exists sig \<and>
        (ws_registered w c p (SlotWorkspaceWatch n c p) \<or> dead_signal E (native w) sig))"

lemma ws_invI:
  assumes "\<And>cid p h. map_of (ws_handlers w cid) p = Some h \<Longrightarrow>
        (\<exists>n c. h = SlotWorkspaceWatch n c p \<and> n < nextFn w \<and> c < nextConn w \<and> conn_id w c = cid) \<and>
        signal_exists (workspaceSignal p) \<and> (workspaceSignal p, h) \<in> set (slots w)"
    and "\<And>cid. distinct (map fst (ws_handlers w cid))"
    and "\<And>sig n c p. (sig, SlotWorkspaceWatch n c p) \<in> set (slots w) \<Longrightarrow>
        n < nextFn w \<and> c < nextConn w \<and> sig = workspaceSignal p \<and> signal_exists sig \<and>
        (ws_registered w c p (SlotWorkspaceWatch n c p) \<or> dead_signal E (native w) sig)"
  shows "ws_inv E w"
  using assms by (simp add: ws_inv_def)

lemma ws_invD:
  assumes "ws_inv E w"
  shows ws_inv_handler: "map_of (ws_handlers w cid) p = Some h \<Longrightarrow>
        (\<exists>n c. h = SlotWorkspaceWatch n c p \<and> n < nextFn w \<and> c < nextConn w \<and> conn_id w c = cid) \<and>
        signal_exists (workspaceSignal p) \<and> (workspaceSignal p, h) \<in> set (slots w)"
    and ws_inv_distinct: "distinct (map fst (ws_handlers w cid))"
    and ws_inv_slot: "(sig, SlotWorkspaceWatch n c p') \<in> set (slots w) \<Longrightarrow>
        n < nextFn w \<and> c < nextConn w \<and> sig = workspaceSignal p' \<and> signal_exists sig \<and>
        (ws_registered w c p' (SlotWorkspaceWatch n c p') \<or> dead_signal E (native w) sig)"
  using assms unfolding ws_inv_def by blast+

text \<open>Changes that leave the workspace watches alone.\<close>

lemma ws_inv_mono:
  assumes inv: "ws_inv E w"
    and same: "\<And>cid. ws_handlers w' cid = ws_handlers w cid"
    and ids: "\<And>c. c < nextConn w \<Longrightarrow> conn_id w' c = conn_id w c"
    and le: "nextFn w \<le> nextFn w'" "nextConn w \<le> nextConn w'"
    and ev: "kwin_evolves E (native w) (native w')"
    and sl: "\<And>sig n c p. (sig, SlotWorkspaceWatch n c p) \<in> set (slots w') \<longleftrightarrow>
               (sig, SlotWorkspaceWatch n c p) \<in> set (slots w)"
  shows "ws_inv E w'"
proof (rule ws_invI)
  fix cid p h
  assume "map_of (ws_handlers w' cid) p = Some h"
  from ws_inv_handler [OF inv this [unfolded same]]
  show "(\<exists>n c. h = SlotWorkspaceWatch n c p \<and> n < nextFn w' \<and> c < nextConn w' \<and> conn_id w' c = cid) \<and>
        signal_exists (workspaceSignal p) \<and> (workspaceSignal p, h) \<in> set (slots w')"
    using le ids sl by (metis order_less_le_trans)
next
  show "distinct (map fst (ws_handlers w' cid))" for cid
    using ws_inv_distinct [OF inv] by (simp add: same)
next
  fix sig n c p
  assume "(sig, SlotWorkspaceWatch n c p) \<in> set (slots w')"
  from ws_inv_slot [OF inv this [unfolded sl]]
  show "n < nextFn w' \<and> c < nextConn w' \<and> sig = workspaceSignal p \<and> signal_exists sig \<and>
      (ws_registered w' c p (SlotWorkspaceWatch n c p) \<or> dead_signal E (native w') sig)"
    using le ids ev by (auto simp: ws_registered_def same kwin_evolves_def)
qed

lemma kwin_evolves_refl [simp]: "kwin_evolves E n n"
  by (simp add: kwin_evolves_def)

lemma kwin_evolves_trans: "kwin_evolves E n n' \<Longrightarrow> kwin_evolves E n' n'' \<Longrightarrow> kwin_evolves E n n''"
  by (simp add: kwin_evolves_def)

lemma ws_handlers_ensure [simp]: "ws_handlers (ws_ensure cid w) = ws_handlers w"
  by (rule ext) (simp add: ws_handlers_def map_of_ws_ensure)

lemma ws_handlers_cong: "watchesByClient w' = watchesByClient w \<Longrightarrow> ws_handlers w' = ws_handlers w"
  by (rule ext) (simp add: ws_handlers_def)

lemma ws_handlers_add:
  "ws_handlers (ws_add c prop w) = (ws_handlers w)(conn_id w c :=
     AList.update prop (SlotWorkspaceWatch (nextFn w) c prop) (ws_handlers w (conn_id w c)))"
  by (rule ext) (simp add: ws_handlers_def [of "ws_add c prop w"] ws_add_def Let_def map_of_ws_ensure,
      simp add: ws_handlers_def map_of_ws_ensure)

lemma ws_handlers_remove:
  "ws_handlers (ws_remove cid prop h w) = (ws_handlers w)(cid := AList.delete prop (ws_handlers w cid))"
  by (rule ext) (auto simp: ws_handlers_def [of "ws_remove cid prop h w"] ws_remove_def Let_def,
      auto simp: ws_handlers_def)

lemma ws_add_frame [simp]:
  "native (ws_add c prop w) = native w" "conns (ws_add c prop w) = conns w"
  "nextConn (ws_add c prop w) = nextConn w" "nextFn (ws_add c prop w) = Suc (nextFn w)"
  "slots (ws_add c prop w) = slots w @ [(workspaceSignal prop, SlotWorkspaceWatch (nextFn w) c prop)]"
  by (simp_all add: ws_add_def Let_def)

lemma ws_remove_frame [simp]:
  "native (ws_remove cid prop h w) = native w" "conns (ws_remove cid prop h w) = conns w"
  "nextConn (ws_remove cid prop h w) = nextConn w" "nextFn (ws_remove cid prop h w) = nextFn w"
  "slots (ws_remove cid prop h w) = filter (\<lambda>x. x \<noteq> (workspaceSignal prop, h)) (slots w)"
  by (simp_all add: ws_remove_def Let_def)

lemma workspaceSignal_inj [simp]: "workspaceSignal p = workspaceSignal q \<longleftrightarrow> p = q"
  by (simp add: workspaceSignal_def)

lemma ws_add_handler:
  assumes "map_of (ws_handlers (ws_add c prop w) cid) p = Some h"
  shows "(cid = conn_id w c \<and> p = prop \<and> h = SlotWorkspaceWatch (nextFn w) c prop) \<or>
    map_of (ws_handlers w cid) p = Some h"
  using assms unfolding ws_handlers_add by (cases "cid = conn_id w c"; cases "p = prop") simp_all

lemma ws_add_registered:
  assumes "ws_registered w c' p (SlotWorkspaceWatch n c' p)"
    and "map_of (ws_handlers w (conn_id w c)) prop = None"
  shows "ws_registered (ws_add c prop w) c' p (SlotWorkspaceWatch n c' p)"
  using assms
  by (cases "p = prop \<and> conn_id w c' = conn_id w c") (auto simp: ws_registered_def ws_handlers_add)

lemma ws_inv_add:
  assumes inv: "ws_inv E w" and c: "c < nextConn w"
    and new: "map_of (ws_handlers w (conn_id w c)) prop = None"
    and ex: "signal_exists (workspaceSignal prop)"
  shows "ws_inv E (ws_add c prop w)"
proof (rule ws_invI)
  fix cid p h
  assume "map_of (ws_handlers (ws_add c prop w) cid) p = Some h"
  from ws_add_handler [OF this]
  show "(\<exists>n c'. h = SlotWorkspaceWatch n c' p \<and> n < nextFn (ws_add c prop w) \<and>
        c' < nextConn (ws_add c prop w) \<and> conn_id (ws_add c prop w) c' = cid) \<and>
        signal_exists (workspaceSignal p) \<and> (workspaceSignal p, h) \<in> set (slots (ws_add c prop w))"
  proof
    assume "cid = conn_id w c \<and> p = prop \<and> h = SlotWorkspaceWatch (nextFn w) c prop"
    then show ?thesis using c ex by simp
  next
    assume "map_of (ws_handlers w cid) p = Some h"
    from ws_inv_handler [OF inv this] obtain n c' where "h = SlotWorkspaceWatch n c' p" "n < nextFn w"
      "c' < nextConn w" "conn_id w c' = cid" "signal_exists (workspaceSignal p)"
      "(workspaceSignal p, h) \<in> set (slots w)"
      by blast
    then show ?thesis by (simp add: less_SucI)
  qed
next
  show "distinct (map fst (ws_handlers (ws_add c prop w) cid))" for cid
    using ws_inv_distinct [OF inv] by (simp add: ws_handlers_add jm.invar_put)
next
  fix sig n c' p
  assume "(sig, SlotWorkspaceWatch n c' p) \<in> set (slots (ws_add c prop w))"
  then consider "(sig, SlotWorkspaceWatch n c' p) \<in> set (slots w)"
    | "sig = workspaceSignal prop \<and> n = nextFn w \<and> c' = c \<and> p = prop"
    by auto
  then show "n < nextFn (ws_add c prop w) \<and> c' < nextConn (ws_add c prop w) \<and> sig = workspaceSignal p \<and>
      signal_exists sig \<and> (ws_registered (ws_add c prop w) c' p (SlotWorkspaceWatch n c' p) \<or>
        dead_signal E (native (ws_add c prop w)) sig)"
  proof cases
    case 1
    from ws_inv_slot [OF inv this] ws_add_registered [OF _ new] show ?thesis
      by (metis less_SucI ws_add_frame(1,3,4))
  next
    case 2
    then show ?thesis using c ex by (simp add: ws_registered_def ws_handlers_add)
  qed
qed

lemma ws_inv_remove:
  assumes inv: "ws_inv E w" and h: "map_of (ws_handlers w cid) prop = Some h"
  shows "ws_inv E (ws_remove cid prop h w)"
proof (rule ws_invI)
  fix cid' p g
  assume "map_of (ws_handlers (ws_remove cid prop h w) cid') p = Some g"
  then have g: "map_of (ws_handlers w cid') p = Some g" "cid' \<noteq> cid \<or> p \<noteq> prop"
    by (auto simp: ws_handlers_remove split: if_splits)
  then have "(workspaceSignal p, g) \<noteq> (workspaceSignal prop, h)"
    using ws_inv_handler [OF inv g(1)] ws_inv_handler [OF inv h] by auto
  then show "(\<exists>n c. g = SlotWorkspaceWatch n c p \<and> n < nextFn (ws_remove cid prop h w) \<and>
        c < nextConn (ws_remove cid prop h w) \<and> conn_id (ws_remove cid prop h w) c = cid') \<and>
        signal_exists (workspaceSignal p) \<and> (workspaceSignal p, g) \<in> set (slots (ws_remove cid prop h w))"
    using ws_inv_handler [OF inv g(1)] by simp
next
  show "distinct (map fst (ws_handlers (ws_remove cid prop h w) cid'))" for cid'
    using ws_inv_distinct [OF inv] by (simp add: ws_handlers_remove jm.invar_del)
next
  fix sig n c p
  assume "(sig, SlotWorkspaceWatch n c p) \<in> set (slots (ws_remove cid prop h w))"
  then show "n < nextFn (ws_remove cid prop h w) \<and> c < nextConn (ws_remove cid prop h w) \<and>
      sig = workspaceSignal p \<and> signal_exists sig \<and>
      (ws_registered (ws_remove cid prop h w) c p (SlotWorkspaceWatch n c p) \<or>
        dead_signal E (native (ws_remove cid prop h w)) sig)"
    using h ws_inv_slot [OF inv, of sig n c p] by (auto simp: ws_registered_def ws_handlers_remove)
qed

lemma ws_inv_log [simp]: "ws_inv E w \<Longrightarrow> ws_inv E (sendLog l m w)"
  by (rule ws_inv_mono) (simp_all add: ws_handlers_def)

lemma ws_inv_ensure: "ws_inv E w \<Longrightarrow> ws_inv E (ws_ensure cid w)"
  by (rule ws_inv_mono) simp_all

lemma ws_inv_nextFn: "ws_inv E w \<Longrightarrow> nextFn w \<le> n \<Longrightarrow> ws_inv E (w\<lparr>nextFn := n\<rparr>)"
  by (rule ws_inv_mono) (simp_all add: ws_handlers_def)

lemma ws_inv_setWatch:
  assumes inv: "ws_inv E w" and c: "c < nextConn w"
  shows "ws_inv E (snd (ws_setWatch E c prop b w))"
proof (cases "map_of (ws_handlers w (conn_id w c)) prop")
  case None
  consider "\<not> b" | "b" "signal_exists (workspaceSignal prop)" | "b" "\<not> signal_exists (workspaceSignal prop)"
    by blast
  then show ?thesis
  proof cases
    case 1
    then show ?thesis using inv None by (simp add: ws_setWatch_absent)
  next
    case 2
    then show ?thesis
      using ws_inv_add [OF inv c None] None by (simp add: ws_setWatch_connects)
  next
    case 3
    then show ?thesis
      using None ws_inv_nextFn [OF ws_inv_ensure [OF inv]] by (simp add: ws_setWatch_no_signal)
  qed
next
  case (Some h)
  note ex = ws_inv_handler [OF inv Some]
  show ?thesis
  proof (cases b)
    case True
    then show ?thesis using Some ws_inv_ensure [OF inv] by (simp add: ws_setWatch_present)
  next
    case False
    then show ?thesis
      using Some ex inv ws_inv_remove [OF inv Some]
      by (simp add: ws_setWatch_disconnects split: option.splits)
  qed
qed

lemma ws_add_same:
  assumes "ws_inv E w"
  shows "same_registries (ws_add c prop w) w"
proof -
  have "(workspaceSignal prop, SlotWorkspaceWatch (nextFn w) c prop) \<notin> set (slots w)"
    using ws_inv_slot [OF assms] by blast
  then have "same_registries (ws_add c prop w) (ws_ensure (conn_id w c) w)"
    by (auto simp: same_registries_def ws_add_def Let_def pushes_def dbus_inv_def)
  then show ?thesis by (rule same_registries_trans) simp
qed

lemma ws_remove_same: "ws_slot h \<Longrightarrow> same_registries (ws_remove cid prop h w) w"
  by (frule ws_slotD) (auto simp: same_registries_def ws_remove_def Let_def pushes_def dbus_inv_def)

lemma ws_setWatch_same:
  assumes inv: "ws_inv E w"
  shows "same_registries (snd (ws_setWatch E c prop b w)) w"
proof (cases "map_of (ws_handlers w (conn_id w c)) prop")
  case None
  have "same_registries ((ws_ensure (conn_id w c) w)\<lparr>nextFn := Suc (nextFn w)\<rparr>) w"
    using same_registries_trans [OF same_registries_nextFn ws_ensure_same] by simp
  then show ?thesis
    using None
    by (cases b; cases "signal_exists (workspaceSignal prop)")
      (simp_all add: ws_setWatch_absent ws_setWatch_connects ws_setWatch_no_signal
        same_registries_trans [OF same_registries_log ws_add_same [OF inv]])
next
  case (Some h)
  have "ws_slot h" "signal_exists (workspaceSignal prop)"
    using ws_inv_handler [OF inv Some] by auto
  then show ?thesis
    using Some
    by (cases b) (simp_all add: ws_setWatch_present ws_setWatch_disconnects
        same_registries_trans [OF same_registries_log ws_remove_same] split: option.splits)
qed

section \<open>Teardown at disconnect\<close>

lemma ws_drop_handler_eq:
  "ws_drop_handler E cid ph w =
     (case fst (disconnect E (workspaceSignal (fst ph)) (snd ph) w) of
        None \<Rightarrow> snd (disconnect E (workspaceSignal (fst ph)) (snd ph) w)
      | Some e \<Rightarrow> sendLog ''warn'' (''workspace.watch: cannot disconnect '' @ fst ph @
                    '' for client '' @ numberToString E cid @ '': '' @ e)
                    (snd (disconnect E (workspaceSignal (fst ph)) (snd ph) w)))"
  by (cases ph; cases "disconnect E (workspaceSignal (fst ph)) (snd ph) w")
    (auto simp: ws_drop_handler_def split: option.splits)

lemma ws_drop_handler_frame [simp]:
  "watchesByClient (ws_drop_handler E cid ph w) = watchesByClient w"
  "slots (ws_drop_handler E cid ph w) =
     slots (snd (disconnect E (workspaceSignal (fst ph)) (snd ph) w))"
  "nextFn (ws_drop_handler E cid ph w) = nextFn w"
  "native (ws_drop_handler E cid ph w) = native w"
  "conns (ws_drop_handler E cid ph w) = conns w"
  "nextConn (ws_drop_handler E cid ph w) = nextConn w"
  by (simp_all add: ws_drop_handler_eq disconnect_def split: option.splits)

lemma ws_drop_handler_same:
  assumes "ws_slot (snd ph)"
  shows "same_registries (ws_drop_handler E cid ph w) w"
proof -
  let ?d = "disconnect E (workspaceSignal (fst ph)) (snd ph) w"
  have "same_registries (snd ?d) w"
    using same_registries_disconnect [OF _ assms] by (metis prod.collapse)
  then show ?thesis
    by (simp add: ws_drop_handler_eq same_registries_trans [OF same_registries_log] split: option.splits)
qed

lemma ws_drop_fold_same:
  assumes "\<And>p h. (p, h) \<in> set phs \<Longrightarrow> ws_slot h"
  shows "same_registries (fold (ws_drop_handler E cid) phs w) w"
  using assms
proof (induction phs arbitrary: w)
  case Nil
  then show ?case by simp
next
  case (Cons ph phs)
  have "ws_slot (snd ph)"
    using Cons.prems [of "fst ph" "snd ph"] by simp
  then have "same_registries (ws_drop_handler E cid ph w) w"
    by (rule ws_drop_handler_same)
  moreover have "same_registries (fold (ws_drop_handler E cid) phs (ws_drop_handler E cid ph w))
      (ws_drop_handler E cid ph w)"
    using Cons.prems by (intro Cons.IH) auto
  ultimately show ?case by (auto intro: same_registries_trans)
qed

lemma ws_drop_fold_slots:
  "set (slots (fold (ws_drop_handler E cid) phs w)) \<subseteq> set (slots w)"
  "x \<in> set (slots w) \<Longrightarrow> x \<notin> (\<lambda>(p, h). (workspaceSignal p, h)) ` set phs \<Longrightarrow>
     x \<in> set (slots (fold (ws_drop_handler E cid) phs w))"
  "(p, h) \<in> set phs \<Longrightarrow> signal_exists (workspaceSignal p) \<Longrightarrow>
     \<not> dead_signal E (native w) (workspaceSignal p) \<Longrightarrow>
     (workspaceSignal p, h) \<notin> set (slots (fold (ws_drop_handler E cid) phs w))"
proof (induction phs arbitrary: w)
  case Nil
  { case 1 show ?case by simp }
  { case 2 then show ?case by simp }
  { case 3 then show ?case by simp }
next
  case (Cons ph phs)
  { case 1
    have "set (slots (ws_drop_handler E cid ph w)) \<subseteq> set (slots w)"
      by (simp add: disconnect_slots(1))
    then show ?case using Cons(1) [of "ws_drop_handler E cid ph w"] by auto }
  { case 2
    then show ?case
      by (cases ph) (auto intro!: Cons(2) disconnect_slots(2)) }
  { case 3
    let ?w = "ws_drop_handler E cid ph w"
    show ?case
    proof (cases "(p, h) \<in> set phs")
      case True
      then show ?thesis using 3 Cons(3) [of ?w] by simp
    next
      case False
      then have "ph = (p, h)" using 3 by auto
      then have "(workspaceSignal p, h) \<notin> set (slots ?w)"
        using 3 by (simp add: disconnect_slots(3))
      then show ?thesis using Cons(1) [of ?w] by auto
    qed }
qed

lemma ws_drop_fold_frame [simp]:
  "watchesByClient (fold (ws_drop_handler E cid) phs w) = watchesByClient w"
  "nextFn (fold (ws_drop_handler E cid) phs w) = nextFn w"
  "native (fold (ws_drop_handler E cid) phs w) = native w"
  "conns (fold (ws_drop_handler E cid) phs w) = conns w"
  "nextConn (fold (ws_drop_handler E cid) phs w) = nextConn w"
  by (simp_all add: fold_keeps)

lemma dropWs_eq:
  "slots (dropClientWorkspaceWatches E cid w) =
     slots (fold (ws_drop_handler E cid) (ws_handlers w cid) w)"
  "ws_handlers (dropClientWorkspaceWatches E cid w) = (ws_handlers w)(cid := [])"
  "nextFn (dropClientWorkspaceWatches E cid w) = nextFn w"
  "native (dropClientWorkspaceWatches E cid w) = native w"
  "conns (dropClientWorkspaceWatches E cid w) = conns w"
  "nextConn (dropClientWorkspaceWatches E cid w) = nextConn w"
  by (auto simp: dropClientWorkspaceWatches_def ws_handlers_def fun_eq_iff Let_def split: option.splits)

lemma dropWs_same:
  assumes inv: "ws_inv E w"
  shows "same_registries (dropClientWorkspaceWatches E cid w) w"
proof (cases "map_of (watchesByClient w) cid")
  case None
  then show ?thesis by (simp add: dropClientWorkspaceWatches_def)
next
  case (Some hs)
  then have hs: "ws_handlers w cid = hs" by (simp add: ws_handlers_def)
  have "same_registries (fold (ws_drop_handler E cid) hs w) w"
  proof (rule ws_drop_fold_same)
    show "ws_slot h" if "(p, h) \<in> set hs" for p h
      using ws_inv_handler [OF inv, of cid p h] ws_inv_distinct [OF inv, of cid] that by (auto simp: hs)
  qed
  then show ?thesis
    by (simp add: dropClientWorkspaceWatches_def Some Let_def
        same_registries_trans [OF same_registries_watches])
qed

lemma ws_inv_dropWs:
  assumes inv: "ws_inv E w"
  shows "ws_inv E (dropClientWorkspaceWatches E cid w)" (is "ws_inv E ?w")
proof (rule ws_invI)
  note dist = ws_inv_distinct [OF inv, of cid]
  fix cid' p h
  assume "map_of (ws_handlers ?w cid') p = Some h"
  then have h: "map_of (ws_handlers w cid') p = Some h" "cid' \<noteq> cid"
    by (auto simp: dropWs_eq split: if_splits)
  from ws_inv_handler [OF inv h(1)] obtain n c where hc: "h = SlotWorkspaceWatch n c p" "n < nextFn w"
    "c < nextConn w" "conn_id w c = cid'" "signal_exists (workspaceSignal p)"
    "(workspaceSignal p, h) \<in> set (slots w)"
    by blast
  have "h \<noteq> g" if "(q, g) \<in> set (ws_handlers w cid)" for q g
  proof -
    have "map_of (ws_handlers w cid) q = Some g" using that dist by simp
    from ws_inv_handler [OF inv this] show ?thesis using hc(1,4) h(2) by auto
  qed
  then have "(workspaceSignal p, h) \<in> set (slots ?w)"
    using hc(6) by (auto simp: dropWs_eq intro!: ws_drop_fold_slots(2))
  then show "(\<exists>n c. h = SlotWorkspaceWatch n c p \<and> n < nextFn ?w \<and> c < nextConn ?w \<and> conn_id ?w c = cid') \<and>
        signal_exists (workspaceSignal p) \<and> (workspaceSignal p, h) \<in> set (slots ?w)"
    using hc by (simp add: dropWs_eq)
next
  show "distinct (map fst (ws_handlers ?w cid'))" for cid'
    using ws_inv_distinct [OF inv] by (simp add: dropWs_eq)
next
  fix sig n c p
  assume mem: "(sig, SlotWorkspaceWatch n c p) \<in> set (slots ?w)"
  then have "(sig, SlotWorkspaceWatch n c p) \<in> set (slots w)"
    unfolding dropWs_eq(1) by (rule subsetD [OF ws_drop_fold_slots(1)])
  note old = ws_inv_slot [OF inv this]
  have "conn_id w c \<noteq> cid \<or> dead_signal E (native w) sig"
  proof (rule ccontr)
    assume "\<not> ?thesis"
    then have *: "conn_id w c = cid" "\<not> dead_signal E (native w) sig" by auto
    then have "(p, SlotWorkspaceWatch n c p) \<in> set (ws_handlers w cid)"
      using old by (auto simp: ws_registered_def dest: map_of_SomeD)
    from ws_drop_fold_slots(3) [OF this, of E w cid] show False
      using mem old * by (auto simp: dropWs_eq(1))
  qed
  then show "n < nextFn ?w \<and> c < nextConn ?w \<and> sig = workspaceSignal p \<and> signal_exists sig \<and>
      (ws_registered ?w c p (SlotWorkspaceWatch n c p) \<or> dead_signal E (native ?w) sig)"
    using old by (auto simp: ws_registered_def dropWs_eq)
qed

end
