(* ===== verification/Events.thy ===== *)
theory Events
  imports Workspace_Watch_Lemmas
begin

text \<open>
  Signals reach the script: which slot runs which function, how a signal runs the slots
  connected to it, what an assignment to a KWin property sets off, and how the script is
  wired when KWin loads it (the top-level statements of \<open>windows.ts\<close> and \<open>tokens.ts\<close>).
\<close>

section \<open>Signals\<close>

definition run_slot :: "ext \<Rightarrow> sigarg \<Rightarrow> slot \<Rightarrow> 'a ws_world_scheme \<Rightarrow> 'a ws_world_scheme" where
  "run_slot E arg sl w = (case sl of
      SlotCheckCaption wd \<Rightarrow> checkCaption E wd w
    | SlotWindowAdded \<Rightarrow> (case arg of WindowArg wd \<Rightarrow> onWindowAdded E wd w | _ \<Rightarrow> w)
    | SlotWindowRemoved \<Rightarrow> (case arg of WindowArg wd \<Rightarrow> onWindowRemoved E wd w | _ \<Rightarrow> w)
    | SlotRescanDesktops \<Rightarrow> rescanDesktops w
    | SlotActivityAdded \<Rightarrow> (case arg of IdArg i \<Rightarrow> activityAdded i w | _ \<Rightarrow> w)
    | SlotActivityRemoved \<Rightarrow> (case arg of IdArg i \<Rightarrow> activityRemoved i w | _ \<Rightarrow> w)
    | SlotWindowWatch n tok c wd prop \<Rightarrow> window_changed E tok c wd prop w
    | SlotWorkspaceWatch n c prop \<Rightarrow> workspace_changed E c prop w)"

text \<open>A signal runs the slots connected to it when it is emitted, in connection order. (No
  slot of the script connects to or disconnects from the signal that runs it.)\<close>

definition connected :: "'a kwin_world_scheme \<Rightarrow> sigref \<Rightarrow> slot list" where
  "connected w sig = map snd (filter (\<lambda>(s, _). s = sig) (slots w))"

definition emit :: "ext \<Rightarrow> sigref \<Rightarrow> sigarg \<Rightarrow> 'a ws_world_scheme \<Rightarrow> 'a ws_world_scheme" where
  "emit E sig arg w = fold (run_slot E arg) (connected w sig) w"

text \<open>KWin moves to the state \<open>n\<close> and emits a signal.\<close>

definition kwin_signal ::
  "ext \<Rightarrow> native \<times> sigref \<times> sigarg \<Rightarrow> 'a ws_world_scheme \<Rightarrow> 'a ws_world_scheme" where
  "kwin_signal E = (\<lambda>(n, sig, arg) w. emit E sig arg (w\<lparr>native := n\<rparr>))"

text \<open>The script assigns a KWin property; the first component is the error raised, if any.\<close>

definition assign_kwin ::
  "ext \<Rightarrow> assignment \<Rightarrow> 'a ws_world_scheme \<Rightarrow> string option \<times> 'a ws_world_scheme" where
  "assign_kwin E a w =
     (let rc = kwinAssign E a (native w);
          w1 = fold (kwin_signal E) (rc_emissions rc) w
      in (rc_raised rc, w1\<lparr>native := rc_native rc\<rparr>))"

section \<open>Script load\<close>

definition load_windows :: "ext \<Rightarrow> 'a ws_world_scheme \<Rightarrow> 'a ws_world_scheme" where
  "load_windows E w =
     (let w1 = wireWorkspaceEvents E w
      in sendLog ''info'' (''windows: workspace catalogs: '' @
           numberToString E (of_nat (length (desktopsById w1))) @ '' desktop(s), '' @
           numberToString E (of_nat (length (activitiesById w1))) @ '' activity(ies)'') w1)"

definition load_tokens :: "ext \<Rightarrow> 'a ws_world_scheme \<Rightarrow> 'a ws_world_scheme" where
  "load_tokens E w = sendLog ''info'' ''tokens: window events wired'' (wireWindowEvents E w)"

section \<open>The workspace watches are untouched by the window side\<close>

definition ws_untouched :: "'a ws_world_scheme \<Rightarrow> 'a ws_world_scheme \<Rightarrow> bool" where
  "ws_untouched w' w \<longleftrightarrow>
     watchesByClient w' = watchesByClient w \<and> conns w' = conns w \<and> nextConn w' = nextConn w \<and>
     native w' = native w \<and> ws_world.more w' = ws_world.more w \<and> nextFn w \<le> nextFn w' \<and>
     (\<forall>sig n c p. (sig, SlotWorkspaceWatch n c p) \<in> set (slots w') \<longleftrightarrow>
        (sig, SlotWorkspaceWatch n c p) \<in> set (slots w)) \<and> plain_kept (slots w') (slots w)"

lemma ws_untouched_refl [simp]: "ws_untouched w w"
  by (simp add: ws_untouched_def)

lemma ws_untouched_trans: "ws_untouched w2 w1 \<Longrightarrow> ws_untouched w1 w \<Longrightarrow> ws_untouched w2 w"
  by (auto simp: ws_untouched_def intro: plain_kept_trans)

lemma ws_untouched_inv:
  assumes "ws_untouched w' w" "ws_inv E w"
  shows "ws_inv E w'"
proof (rule ws_inv_mono [OF assms(2)])
  show "ws_handlers w' cid = ws_handlers w cid" for cid
    using assms(1) by (simp add: ws_untouched_def ws_handlers_def)
qed (use assms(1) in \<open>simp_all add: ws_untouched_def\<close>)

lemma ws_untouched_simple [simp]:
  "ws_untouched (sendLog l m w) w" "ws_untouched (notifyClient E c me p w) w"
  "ws_untouched (w\<lparr>entries := e, byWindow := b\<rparr>) w" "ws_untouched (w\<lparr>entries := e\<rparr>) w"
  "ws_untouched (unregister r w) w"
  "ws_untouched (w\<lparr>rng := n, entries := e, nextEntry := x, byToken := t\<rparr>) w"
  by (simp_all add: ws_untouched_def)
    (simp add: unregister_def Let_def split: TokenState.splits option.splits)

lemma ws_untouched_drop_token:
  assumes inv: "watch_inv E w"
  shows "ws_untouched (drop_token E tok w) w"
proof (cases "map_of (watchesByToken w) tok")
  case None
  then show ?thesis by (simp add: drop_token_def)
next
  case (Some st)
  have kept: "(sig, s) \<in> set (slots (drop_token E tok w)) \<longleftrightarrow> (sig, s) \<in> set (slots w)"
    if "\<not> watch_slot s" for sig s
  proof
    show "(sig, s) \<in> set (slots w)" if "(sig, s) \<in> set (slots (drop_token E tok w))"
      using that drop_token_slots_sub by (rule rev_subsetD)
    have other: "h \<noteq> s" if "(q, h) \<in> set (wst_handlers st)" for q h
      using watch_inv_handler [OF inv Some, of q h] watch_inv_handlers [OF inv Some] that \<open>\<not> watch_slot s\<close>
      by (auto simp: handler_ok_def)
    show "(sig, s) \<in> set (slots (drop_token E tok w))" if "(sig, s) \<in> set (slots w)"
      unfolding drop_token_slots [OF Some]
      by (rule fold_drop_handler_slots(2) [OF that]) (use other in auto)
  qed
  moreover have "distinct (watch_wires (slots (drop_token E tok w)))" if "distinct (watch_wires (slots w))"
    unfolding drop_token_slots [OF Some]
    by (rule fold_invariant_set [where P = "\<lambda>v. distinct (watch_wires (slots v))"])
      (use that in \<open>auto simp: drop_handler_slots distinct_watch_wires_disconnect\<close>)
  ultimately have "plain_kept (slots (drop_token E tok w)) (slots w)"
    using watch_slot_not_plain by (auto simp: plain_kept_def)
  moreover have "watchesByClient (drop_token E tok w) = watchesByClient w"
    "ws_world.more (drop_token E tok w) = ws_world.more w"
    using drop_token_frame(8) [of E tok w] by (cases "drop_token E tok w", cases w, simp)+
  ultimately show ?thesis using kept by (simp add: ws_untouched_def frame)
qed

lemma ws_untouched_drop:
  "watch_inv E w \<Longrightarrow> ws_untouched (dropClientWatches E toks w) w"
proof (induction toks arbitrary: w)
  case Nil
  then show ?case by (simp add: dropClientWatches_def)
next
  case (Cons t toks)
  have "ws_untouched (dropClientWatches E toks (drop_token E t w)) (drop_token E t w)"
    using Cons.prems by (intro Cons.IH watch_inv_drop_token)
  from ws_untouched_trans [OF this ws_untouched_drop_token [OF Cons.prems]]
  show ?case by (simp add: dropClientWatches_def)
qed

lemma ws_untouched_fold_unregister: "ws_untouched (fold unregister rs w) w"
  by (rule fold_invariant_set [where P = "\<lambda>v. ws_untouched v w"])
    (auto intro: ws_untouched_trans [OF ws_untouched_simple(5)])

lemma ws_untouched_drop_entries:
  assumes "watch_inv E w"
  shows "ws_untouched (drop_entries E rs w) w"
proof -
  have "watch_inv E (fold unregister rs w)"
    using assms watch_inv_cong [of "fold unregister rs w" w E] by simp
  from ws_untouched_trans [OF ws_untouched_drop [OF this] ws_untouched_fold_unregister]
  show ?thesis .
qed

lemma ws_untouched_invalidate:
  "watch_inv E w \<Longrightarrow> ws_untouched (invalidate E r rs w) w"
  unfolding invalidate_drop_entries Let_def
  by (rule ws_untouched_trans [OF ws_untouched_simple(1)],
      rule ws_untouched_trans [OF ws_untouched_simple(2)], rule ws_untouched_drop_entries)

lemma ws_untouched_validate:
  assumes "watch_inv E w"
  shows "ws_untouched (validate E r wd w) w"
proof -
  have "ws_untouched (supersede E r wd w) w"
    using ws_untouched_invalidate [OF assms] by (simp add: supersede_def split: option.splits)
  then show ?thesis
    unfolding validate_bind Let_def
    by (intro ws_untouched_trans [OF ws_untouched_simple(1)] ws_untouched_trans [OF ws_untouched_simple(2)]
        ws_untouched_trans [OF ws_untouched_simple(3)])
qed

lemma ws_untouched_checkCaption: "watch_inv E w \<Longrightarrow> ws_untouched (checkCaption E wd w) w"
  by (simp add: checkCaption_def Let_def ws_untouched_validate ws_untouched_invalidate split: option.splits)

lemma ws_untouched_connect:
  "ws_untouched (snd (connect E (WindowSignal wd ''captionNormalChanged'') (SlotCheckCaption wd) w)) w"
  by (simp add: ws_untouched_def) (simp add: connect_def at_home_def)

lemma ws_untouched_events:
  assumes "script_inv E w"
  shows "ws_untouched (onWindowAdded E wd w) w" "ws_untouched (onWindowRemoved E wd w) w"
    "ws_untouched (deadline_fires E r w) w" "ws_untouched (dropClientTokens E cid w) w"
proof -
  note winv = script_invD(2) [OF assms]
  have "script_inv E (snd (connect E (WindowSignal wd ''captionNormalChanged'') (SlotCheckCaption wd) w))"
    using assms by (rule script_inv_connect) simp
  then show "ws_untouched (onWindowAdded E wd w) w"
    unfolding onWindowAdded_def
    by (intro ws_untouched_trans [OF ws_untouched_checkCaption ws_untouched_connect] script_invD(2))
  show "ws_untouched (onWindowRemoved E wd w) w"
    using winv by (simp add: onWindowRemoved_def ws_untouched_invalidate split: option.splits)
  show "ws_untouched (deadline_fires E r w) w"
    using winv by (simp add: deadline_fires_eq ws_untouched_invalidate)
  show "ws_untouched (dropClientTokens E cid w) w"
    unfolding dropClientTokens_eq Let_def
    using ws_untouched_drop_entries [OF winv] ws_untouched_trans [OF ws_untouched_simple(1)]
    by (simp only: split: if_split) blast
qed

lemma ws_untouched_token_request:
  assumes "token_request E ms c w = Some (res, w')"
  shows "ws_untouched w' w"
proof -
  obtain tok n where "sample_loop E (byToken w) (rng w) = Some (tok, n)"
    using assms by (auto simp: token_request_def generateToken_def split: option.splits)
  then show ?thesis
    using assms ws_untouched_trans [OF ws_untouched_simple(1) ws_untouched_simple(6)]
    by (auto simp: token_request_def generateToken_def Let_def)
qed

section \<open>The invariant of all registries\<close>

definition full_inv :: "ext \<Rightarrow> 'a ws_world_scheme \<Rightarrow> bool" where
  "full_inv E w \<longleftrightarrow> script_inv E w \<and> ws_inv E w"

lemma full_invD: "full_inv E w \<Longrightarrow> script_inv E w" "full_inv E w \<Longrightarrow> ws_inv E w"
  by (simp_all add: full_inv_def)

lemma full_inv_untouched:
  "full_inv E w \<Longrightarrow> script_inv E w' \<Longrightarrow> ws_untouched w' w \<Longrightarrow> full_inv E w'"
  by (simp add: full_inv_def ws_untouched_inv)

lemma full_inv_comm [simp]:
  "full_inv E w \<Longrightarrow> full_inv E (sendLog l m w)"
  "full_inv E w \<Longrightarrow> full_inv E (notifyClient E' c me p w)"
  by (simp_all add: full_inv_def ws_untouched_inv [OF ws_untouched_simple(1)]
      ws_untouched_inv [OF ws_untouched_simple(2)])

lemma script_inv_catalogs:
  assumes "script_inv E w" "watchesByToken w' = watchesByToken w" "slots w' = slots w"
    "nextFn w' = nextFn w" "native w' = native w" "promises w' = promises w" "byToken w' = byToken w"
    "byWindow w' = byWindow w" "entries w' = entries w" "nextEntry w' = nextEntry w"
  shows "script_inv E w'"
  using assms(1) watch_inv_cong [OF assms(2-5)] tok_inv_cong [OF assms(7-10)]
    owner_inv_cong [OF assms(7,9,2)] assms(6)
  by (simp add: script_inv_def dbus_inv_def)

lemma full_inv_catalogs:
  assumes "full_inv E w"
  shows "full_inv E (rescanDesktops w)" "full_inv E (rescanActivities w)"
    "full_inv E (activityAdded i w)" "full_inv E (activityRemoved i w)"
  using full_invD(1) [OF assms]
  by (auto intro!: full_inv_untouched [OF assms] script_inv_catalogs [of E w]
      simp: rescanDesktops_def rescanActivities_def activityAdded_def activityRemoved_def ws_untouched_def)

lemma full_inv_run_slot:
  assumes "full_inv E w"
  shows "full_inv E (run_slot E arg sl w)"
proof -
  note inv = full_invD(1) [OF assms]
  show ?thesis
    using assms
    by (auto simp: run_slot_def window_changed_def workspace_changed_def
        intro: full_inv_catalogs full_inv_untouched [OF assms]
          script_inv_checkCaption script_inv_window_added script_inv_window_removed
          ws_untouched_checkCaption script_invD(2) ws_untouched_events inv
        split: slot.splits sigarg.splits)
qed

lemma full_inv_emit: "full_inv E w \<Longrightarrow> full_inv E (emit E sig arg w)"
  unfolding emit_def by (rule fold_invariant_set) (auto intro: full_inv_run_slot)

lemma full_inv_native:
  assumes inv: "full_inv E w" and ev: "kwin_evolves E (native w) n"
  shows "full_inv E (w\<lparr>native := n\<rparr>)"
proof -
  note s = full_invD(1) [OF inv]
  have "watch_inv E (w\<lparr>native := n\<rparr>)"
    using watch_inv_native [OF script_invD(2) [OF s] ev] .
  moreover have "tok_inv (w\<lparr>native := n\<rparr>) = tok_inv w"
    by (rule tok_inv_cong) simp_all
  moreover have "owner_inv (w\<lparr>native := n\<rparr>) = owner_inv w"
    by (rule owner_inv_cong) simp_all
  moreover have "dbus_inv (w\<lparr>native := n\<rparr>) = dbus_inv w"
    by (simp add: dbus_inv_def)
  moreover have "ws_inv E (w\<lparr>native := n\<rparr>)"
    using full_invD(2) [OF inv] by (rule ws_inv_mono) (simp_all add: ws_handlers_def ev)
  ultimately show ?thesis
    using script_invD [OF s] by (simp add: full_inv_def script_inv_def)
qed

section \<open>What a signal leaves alone\<close>

lemma ws_untouched_catalogs [simp]:
  "ws_untouched (rescanDesktops w) w" "ws_untouched (rescanActivities w) w"
  "ws_untouched (activityAdded i w) w" "ws_untouched (activityRemoved i w) w"
  by (simp_all add: ws_untouched_def rescanDesktops_def rescanActivities_def activityAdded_def
      activityRemoved_def)

lemma ws_untouched_run_slot:
  assumes "full_inv E w"
  shows "ws_untouched (run_slot E arg sl w) w"
  using full_invD(1) [OF assms]
  by (auto simp: run_slot_def window_changed_def workspace_changed_def
      intro: ws_untouched_checkCaption script_invD(2) ws_untouched_events
      split: slot.splits sigarg.splits)

lemma emit_untouched:
  assumes "full_inv E w"
  shows "full_inv E (emit E sig arg w) \<and> ws_untouched (emit E sig arg w) w"
  unfolding emit_def
  by (rule fold_invariant_set [where P = "\<lambda>v. full_inv E v \<and> ws_untouched v w"])
    (auto simp: assms intro: full_inv_run_slot ws_untouched_trans [OF ws_untouched_run_slot])

section \<open>Assignments\<close>

text \<open>What the script relies on in KWin: an object that has been destroyed stays destroyed,
  also while an assignment runs.\<close>

fun evolves_through :: "ext \<Rightarrow> native \<Rightarrow> native list \<Rightarrow> native \<Rightarrow> bool" where
  "evolves_through E n [] n' = kwin_evolves E n n'"
| "evolves_through E n (m # ms) n' = (kwin_evolves E n m \<and> evolves_through E m ms n')"

definition kwin_documented :: "ext \<Rightarrow> bool" where
  "kwin_documented E \<longleftrightarrow>
     (\<forall>a n. evolves_through E n (map fst (rc_emissions (kwinAssign E a n))) (rc_native (kwinAssign E a n)))"

text \<open>The part of the state that lies above the registries, and the connections.\<close>

definition same_outer :: "'a ws_world_scheme \<Rightarrow> 'a ws_world_scheme \<Rightarrow> bool" where
  "same_outer w' w \<longleftrightarrow>
     conns w' = conns w \<and> nextConn w' = nextConn w \<and> ws_world.more w' = ws_world.more w \<and>
     plain_kept (slots w') (slots w)"

lemma same_outer_refl [simp]: "same_outer w w"
  by (simp add: same_outer_def)

lemma same_outer_trans: "same_outer w2 w1 \<Longrightarrow> same_outer w1 w \<Longrightarrow> same_outer w2 w"
  by (auto simp: same_outer_def intro: plain_kept_trans)

lemma same_outer_untouched: "ws_untouched w' w \<Longrightarrow> same_outer w' w"
  by (simp add: ws_untouched_def same_outer_def)

lemma same_outer_registries: "same_registries w' w \<Longrightarrow> same_outer w' w"
  by (simp add: same_registries_def same_outer_def)

lemma same_outer_log [simp]: "same_outer (sendLog l m w') w = same_outer w' w"
  by (simp add: same_outer_def)

lemma kwin_signal_inv:
  assumes "full_inv E w" "kwin_evolves E (native w) n"
  shows "full_inv E (kwin_signal E (n, sig, arg) w)" "same_outer (kwin_signal E (n, sig, arg) w) w"
    "native (kwin_signal E (n, sig, arg) w) = n"
proof -
  from emit_untouched [OF full_inv_native [OF assms], of sig arg]
  have "full_inv E (kwin_signal E (n, sig, arg) w)" "ws_untouched (kwin_signal E (n, sig, arg) w) (w\<lparr>native := n\<rparr>)"
    by (simp_all add: kwin_signal_def)
  then show "full_inv E (kwin_signal E (n, sig, arg) w)" "same_outer (kwin_signal E (n, sig, arg) w) w"
    "native (kwin_signal E (n, sig, arg) w) = n"
    by (simp_all add: same_outer_def ws_untouched_def)
qed

lemma kwin_signals_inv:
  assumes "full_inv E w" "evolves_through E (native w) (map fst ems) n'"
  shows "full_inv E (fold (kwin_signal E) ems w) \<and> same_outer (fold (kwin_signal E) ems w) w \<and>
    kwin_evolves E (native (fold (kwin_signal E) ems w)) n'"
  using assms
proof (induction ems arbitrary: w)
  case Nil
  then show ?case by simp
next
  case (Cons em ems)
  obtain n sig arg where em: "em = (n, sig, arg)" by (cases em)
  have "kwin_evolves E (native w) n" using Cons.prems(2) by (simp add: em)
  note v = kwin_signal_inv [OF Cons.prems(1) this, of sig arg, folded em]
  have "evolves_through E (native (kwin_signal E em w)) (map fst ems) n'"
    using Cons.prems(2) by (simp add: em v(3) [unfolded em])
  from Cons.IH [OF v(1) this] v(2) show ?case
    by (auto intro: same_outer_trans)
qed

lemma assign_kwin_inv:
  assumes "kwin_documented E" "full_inv E w"
  shows "full_inv E (snd (assign_kwin E a w))" "same_outer (snd (assign_kwin E a w)) w"
proof -
  let ?rc = "kwinAssign E a (native w)"
  let ?v = "fold (kwin_signal E) (rc_emissions ?rc) w"
  have ev: "evolves_through E (native w) (map fst (rc_emissions ?rc)) (rc_native ?rc)"
    using assms(1) by (simp add: kwin_documented_def)
  note v = kwin_signals_inv [OF assms(2) ev]
  then show "full_inv E (snd (assign_kwin E a w))"
    by (simp add: assign_kwin_def Let_def full_inv_native)
  show "same_outer (snd (assign_kwin E a w)) w"
    using v by (simp add: assign_kwin_def Let_def same_outer_def)
qed

section \<open>Loading the script keeps the invariant\<close>

lemma full_inv_connect:
  assumes "full_inv E w" "at_home sig sl"
  shows "full_inv E (snd (connect E sig sl w))" "same_outer (snd (connect E sig sl w)) w"
proof -
  have "\<not> watch_slot sl"
    using assms(2) by (cases sl) (auto simp: at_home_def)
  then have inv: "script_inv E (snd (connect E sig sl w))"
    by (rule script_inv_connect [OF full_invD(1) [OF assms(1)]])
  have un: "ws_untouched (snd (connect E sig sl w)) w"
    using assms(2) plain_kept_connect [OF assms(2), of E w]
    by (cases sl) (auto simp: ws_untouched_def connect_def at_home_def)
  from full_inv_untouched [OF assms(1) inv un] show "full_inv E (snd (connect E sig sl w))" .
  from un show "same_outer (snd (connect E sig sl w)) w" by (rule same_outer_untouched)
qed

lemma load_windows_inv:
  assumes "full_inv E w"
  shows "full_inv E (load_windows E w)" "same_outer (load_windows E w) w"
proof -
  let ?v = "rescanActivities (rescanDesktops w)"
  have v: "full_inv E ?v" "same_outer ?v w"
    using assms same_outer_trans [OF same_outer_untouched same_outer_untouched]
    by (auto intro: full_inv_catalogs ws_untouched_catalogs)
  note c1 = full_inv_connect [OF v(1), of "WorkspaceSignal ''desktopsChanged''" SlotRescanDesktops]
  note c2 = full_inv_connect [OF c1(1), of "WorkspaceSignal ''activityAdded''" SlotActivityAdded]
  note c3 = full_inv_connect [OF c2(1), of "WorkspaceSignal ''activityRemoved''" SlotActivityRemoved]
  show "full_inv E (load_windows E w)" "same_outer (load_windows E w) w"
    using c1 c2 c3 v(2)
    by (auto simp: load_windows_def wireWorkspaceEvents_def Let_def at_home_def intro: same_outer_trans)
qed

lemma load_tokens_inv:
  assumes "full_inv E w"
  shows "full_inv E (load_tokens E w)" "same_outer (load_tokens E w) w"
proof -
  note c1 = full_inv_connect [OF assms, of "WorkspaceSignal ''windowAdded''" SlotWindowAdded]
  note c2 = full_inv_connect [OF c1(1), of "WorkspaceSignal ''windowRemoved''" SlotWindowRemoved]
  let ?v = "snd (connect E (WorkspaceSignal ''windowRemoved'') SlotWindowRemoved
    (snd (connect E (WorkspaceSignal ''windowAdded'') SlotWindowAdded w)))"
  let ?f = "\<lambda>wd v. snd (connect E (WindowSignal wd ''captionNormalChanged'') (SlotCheckCaption wd) v)"
  have "full_inv E (fold ?f wds ?v) \<and> same_outer (fold ?f wds ?v) w" for wds
    by (rule fold_invariant_set [where P = "\<lambda>u. full_inv E u \<and> same_outer u w"])
      (use c1 c2 in \<open>auto simp: at_home_def intro: full_inv_connect same_outer_trans
        same_outer_trans [OF full_inv_connect(2)]\<close>)
  then show "full_inv E (load_tokens E w)" "same_outer (load_tokens E w) w"
    by (auto simp: load_tokens_def wireWindowEvents_def Let_def intro: same_outer_trans)
qed

end
