(* ===== verification/Property_Methods.thy ===== *)
theory Property_Methods
  imports Events
begin

text \<open>
  What the property methods of \<open>windows.ts\<close> and \<open>workspace.ts\<close> have in common: reading the
  parsed params, the query loop with its duplicate check, the check of the property names,
  the loop that sets or removes watches. The two modules repeat this code with their own
  property catalogs; the loops here take the catalog and the module's own function as
  arguments. The interface of a watch registry is a locale; both registries interpret it.
\<close>

section \<open>Params\<close>

fun as_bool :: "jsval \<Rightarrow> bool option" where
  "as_bool (JBool b) = Some b"
| "as_bool _ = None"

fun as_entries :: "jsval \<Rightarrow> (string \<times> jsval) list option" where
  "as_entries (JObj ps) = Some ps"
| "as_entries _ = None"

definition as_bool_entries :: "jsval \<Rightarrow> (string \<times> bool) list option" where
  "as_bool_entries v = (case as_entries v of
      None \<Rightarrow> None
    | Some ps \<Rightarrow> those (map (\<lambda>(k, b). map_option (Pair k) (as_bool b)) ps))"

text \<open>\<open>const [token, info] = params\<close> and \<open>const [info] = params\<close>.\<close>

fun token_params :: "(jsval \<Rightarrow> 'p option) \<Rightarrow> jsval \<Rightarrow> (string \<times> 'p) option" where
  "token_params dec (JArr [JStr tok, v]) = map_option (Pair tok) (dec v)"
| "token_params dec _ = None"

fun sole_param :: "(jsval \<Rightarrow> 'p option) \<Rightarrow> jsval \<Rightarrow> 'p option" where
  "sole_param dec (JArr [v]) = dec v"
| "sole_param dec _ = None"

lemma those_all: "(\<And>x. x \<in> set xs \<Longrightarrow> x \<noteq> None) \<Longrightarrow> \<exists>ys. those xs = Some ys"
  by (induction xs) (auto split: option.splits)

text \<open>Data a schema accepts has the shape the handler destructures.\<close>

lemma accepts_string: "zod_accepts ZString v \<longleftrightarrow> (\<exists>s. v = JStr s)"
  by (cases v) auto

lemma accepts_bool: "zod_accepts ZBoolean v \<longleftrightarrow> (\<exists>b. v = JBool b)"
  by (cases v) auto

lemma accepts_strings: "zod_accepts (ZArray ZString) v \<Longrightarrow> \<exists>ss. as_strings v = Some ss"
  by (cases v) (fastforce intro!: those_all simp del: zod_accepts.simps(1) simp: accepts_string list_all_iff)+

lemma accepts_bools:
  assumes "zod_accepts (ZRecord ZString ZBoolean) v"
  shows "\<exists>es. as_bool_entries v = Some es"
proof -
  from assms obtain ps where v: "v = JObj ps" and
    ok: "\<And>k x. (k, x) \<in> set ps \<Longrightarrow> \<exists>b. x = JBool b"
    by (cases v) (fastforce simp del: zod_accepts.simps(2) simp: accepts_bool list_all_iff)+
  show ?thesis
    unfolding v as_bool_entries_def by (auto intro!: those_all dest!: ok)
qed

lemma accepts_entries: "zod_accepts (ZRecord ZString s) v \<Longrightarrow> \<exists>es. as_entries v = Some es"
  by (cases v) auto

lemma accepts_token_params:
  assumes "zod_accepts (ZTuple [ZString, s]) v" "\<And>x. zod_accepts s x \<Longrightarrow> \<exists>y. dec x = Some y"
  shows "\<exists>p. token_params dec v = Some p"
proof -
  from assms(1) obtain t x where "v = JArr [JStr t, x]" "zod_accepts s x"
    by (cases v) (auto simp del: zod_accepts.simps(1) simp: accepts_string list_all2_Cons1)
  then show ?thesis using assms(2) by auto
qed

lemma accepts_sole_param:
  assumes "zod_accepts (ZTuple [s]) v" "\<And>x. zod_accepts s x \<Longrightarrow> \<exists>y. dec x = Some y"
  shows "\<exists>p. sole_param dec v = Some p"
proof -
  from assms(1) obtain x where "v = JArr [x]" "zod_accepts s x"
    by (cases v) (auto simp: list_all2_Cons1)
  then show ?thesis using assms(2) by auto
qed

section \<open>Query\<close>

fun query_loop :: "string \<Rightarrow> string list \<Rightarrow> (string \<Rightarrow> jsval) \<Rightarrow> string list \<Rightarrow> string list \<Rightarrow>
    (string \<times> jsval) list \<Rightarrow> exn + jsval" where
  "query_loop meth supported val [] seen result = Inr (JObj result)"
| "query_loop meth supported val (p # ps) seen result =
     (if p \<notin> set supported
      then Inl (invalidParams (''unsupported property '' @ quoted p @ '' in '' @ meth))
      else if p \<in> set seen then query_loop meth supported val ps seen result
      else query_loop meth supported val ps (js_add p seen) (AList.update p (val p) result))"

text \<open>The reference: each asked property once, in the order first asked.\<close>

definition first_asked :: "string list \<Rightarrow> string list" where
  "first_asked ps = fold js_add ps []"

lemma update_fresh: "k \<notin> fst ` set m \<Longrightarrow> AList.update k v m = m @ [(k, v)]"
  by (induction m) auto

lemma query_loop_supported:
  assumes "set ps \<subseteq> set supported" "result = map (\<lambda>p. (p, val p)) seen"
  shows "query_loop meth supported val ps seen result =
    Inr (JObj (map (\<lambda>p. (p, val p)) (fold js_add ps seen)))"
  using assms
proof (induction ps arbitrary: seen result)
  case Nil
  then show ?case by simp
next
  case (Cons p ps)
  show ?case
  proof (cases "p \<in> set seen")
    case True
    then show ?thesis using Cons by (simp add: js_add_def)
  next
    case False
    then have "AList.update p (val p) result = map (\<lambda>p. (p, val p)) (js_add p seen)"
      using Cons.prems(2) by (simp add: js_add_def update_fresh image_image)
    then show ?thesis using Cons False by simp
  qed
qed

lemma query_loop_unsupported:
  "\<not> set ps \<subseteq> set supported \<Longrightarrow> \<exists>e. query_loop meth supported val ps seen result = Inl e \<and> is_invalid_params e"
  by (induction ps arbitrary: seen result) auto

section \<open>Watch\<close>

fun check_names :: "(string \<Rightarrow> string) \<Rightarrow> string list \<Rightarrow> string list \<Rightarrow> exn option" where
  "check_names text supported [] = None"
| "check_names text supported (p # ps) =
     (if p \<notin> set supported then Some (invalidParams (text p)) else check_names text supported ps)"

fun watch_loop :: "(string \<Rightarrow> bool \<Rightarrow> 'w \<Rightarrow> (string + bool) \<times> 'w) \<Rightarrow> (string \<times> bool) list \<Rightarrow>
    (string \<times> jsval) list \<Rightarrow> 'w \<Rightarrow> (exn + jsval) \<times> 'w" where
  "watch_loop set_watch [] result w = (Inr (JObj result), w)"
| "watch_loop set_watch ((p, b) # es) result w =
     (case set_watch p b w of
        (Inl e, w1) \<Rightarrow> (Inl (JsError e), w1)
      | (Inr r, w1) \<Rightarrow> watch_loop set_watch es (AList.update p (JBool r) result) w1)"

lemma check_names_None_iff: "check_names text supported ps = None \<longleftrightarrow> set ps \<subseteq> set supported"
  by (induction ps) auto

lemma check_names_invalid: "check_names text supported ps = Some e \<Longrightarrow> is_invalid_params e"
  by (induction ps) (auto split: if_splits)

lemma watch_loop_invariant:
  assumes "P w" "\<And>p b w. p \<in> fst ` set es \<Longrightarrow> P w \<Longrightarrow> P (snd (set_watch p b w))"
  shows "P (snd (watch_loop set_watch es result w))"
  using assms
proof (induction es arbitrary: result w)
  case Nil
  then show ?case by simp
next
  case (Cons e es)
  obtain p b where e: "e = (p, b)" by (cases e)
  have "P (snd (set_watch p b w))"
    using Cons.prems by (auto simp: e)
  then show ?case
    using Cons.IH Cons.prems(2) by (auto simp: e split: prod.splits sum.splits)
qed

text \<open>
  The contract of a watch registry: setting a watch whose signal exists returns whether it is
  on afterwards, and changes that property only.
\<close>

locale watch_registry =
  fixes set_watch :: "string \<Rightarrow> bool \<Rightarrow> 'w \<Rightarrow> (string + bool) \<times> 'w"
    and watched :: "'w \<Rightarrow> string \<Rightarrow> bool"
    and ok :: "'w \<Rightarrow> bool"
    and available :: "string \<Rightarrow> bool"
  assumes set_ok: "ok w \<Longrightarrow> ok (snd (set_watch p b w))"
    and set_result: "ok w \<Longrightarrow> available p \<Longrightarrow> fst (set_watch p b w) = Inr b"
    and set_watched: "ok w \<Longrightarrow> available p \<Longrightarrow> watched (snd (set_watch p b w)) = (watched w)(p := b)"
begin

lemma set_watch_eq: "ok w \<Longrightarrow> available p \<Longrightarrow> set_watch p b w = (Inr b, snd (set_watch p b w))"
  using set_result [of w p b] by (cases "set_watch p b w") auto

lemma idempotent:
  "ok w \<Longrightarrow> available p \<Longrightarrow>
     watched (snd (set_watch p b (snd (set_watch p b w)))) = watched (snd (set_watch p b w))"
  by (simp add: set_ok set_watched)

lemma loop_returns:
  assumes "ok w" "\<And>p. p \<in> fst ` set es \<Longrightarrow> available p"
  shows "fst (watch_loop set_watch es result w) =
           Inr (JObj (fold (\<lambda>(p, b). AList.update p (JBool b)) es result)) \<and>
         ok (snd (watch_loop set_watch es result w)) \<and>
         watched (snd (watch_loop set_watch es result w)) = fold (\<lambda>(p, b) f. f(p := b)) es (watched w)"
  using assms
proof (induction es arbitrary: result w)
  case Nil
  then show ?case by simp
next
  case (Cons e es)
  obtain p b where e: "e = (p, b)" by (cases e)
  let ?w = "snd (set_watch p b w)"
  have eq: "set_watch p b w = (Inr b, ?w)" and ok: "ok ?w"
    and wt: "watched ?w = (watched w)(p := b)"
    using Cons.prems by (auto simp: e set_ok set_watched intro: set_watch_eq)
  have "watch_loop set_watch (e # es) result w = watch_loop set_watch es (AList.update p (JBool b) result) ?w"
    unfolding e watch_loop.simps by (subst eq) simp
  then show ?case
    using Cons.IH [OF ok, of "AList.update p (JBool b) result"] Cons.prems(2) by (simp add: e wt)
qed

end

text \<open>With distinct property names, as the entries of an object have, the returned object
  says of each property what was asked.\<close>

lemma fold_result_distinct:
  "distinct (map fst es) \<Longrightarrow> fst ` set es \<inter> fst ` set result = {} \<Longrightarrow>
     fold (\<lambda>(p, b). AList.update p (JBool b)) es result = result @ map (\<lambda>(p, b). (p, JBool b)) es"
proof (induction es arbitrary: result)
  case Nil
  then show ?case by simp
next
  case (Cons e es)
  then show ?case by (cases e) (auto simp: update_fresh)
qed

lemma fold_upd_distinct:
  "distinct (map fst es) \<Longrightarrow>
     fold (\<lambda>(p, b) f. f(p := b)) es f q = (case map_of es q of Some b \<Rightarrow> b | None \<Rightarrow> f q)"
proof (induction es arbitrary: f)
  case Nil
  then show ?case by simp
next
  case (Cons e es)
  obtain p b where e: "e = (p, b)" by (cases e)
  from Cons.prems have "map_of es p = None" by (auto simp: e map_of_eq_None_iff)
  then show ?case using Cons by (auto simp: e)
qed

end
