(* ===== verification/Window_Methods.thy ===== *)
theory Window_Methods
  imports Property_Methods
begin

text \<open>
  The methods of \<open>kwinscript/src/windows.ts\<close>: \<open>windows.update\<close>, \<open>windows.query\<close> and
  \<open>window.watch\<close>. Each resolves the caller's token first and validates everything before it
  changes anything.
\<close>

section \<open>Schemas\<close>

definition UpdateParamsSchema :: zod where
  "UpdateParamsSchema = ZTuple [ZString, ZRecord ZString ZUnknown]"

definition QueryParamsSchema :: zod where
  "QueryParamsSchema = ZTuple [ZString, ZArray ZString]"

definition WatchParamsSchema :: zod where
  "WatchParamsSchema = ZTuple [ZString, ZRecord ZString ZBoolean]"

section \<open>windows.update\<close>

text \<open>Assign one property. A value that is no ID list never gets here for \<open>desktops\<close> and
  \<open>activities\<close>; its \<open>map\<close> or \<open>slice\<close> would throw.\<close>

definition applyUpdate ::
  "ext \<Rightarrow> Window \<Rightarrow> string \<Rightarrow> jsval \<Rightarrow> 'a ws_world_scheme \<Rightarrow> string option \<times> 'a ws_world_scheme" where
  "applyUpdate E wd prop v w =
     (if prop = ''desktops'' then
        (case as_strings v of
           None \<Rightarrow> (Some (undefinedCallText E), w)
         | Some ids \<Rightarrow> assign_kwin E (AssignDesktops wd (map (map_of (desktopsById w)) ids)) w)
      else if prop = ''activities'' then
        (case as_strings v of
           None \<Rightarrow> (Some (undefinedCallText E), w)
         | Some ids \<Rightarrow> assign_kwin E (AssignActivities wd ids) w)
      else assign_kwin E (AssignProp wd prop v) w)"

text \<open>The two loops of the handler.\<close>

fun check_updates :: "'a watch_world_scheme \<Rightarrow> (string \<times> jsval) list \<Rightarrow> exn option" where
  "check_updates w [] = None"
| "check_updates w ((p, v) # es) =
     (if p \<notin> set UPDATE_PROPS
      then Some (invalidParams (''unsupported property '' @ quoted p @ '' in windows.update''))
      else if p = ''desktops'' \<or> p = ''activities'' then
        (case validateIdList w p v of Inl e \<Rightarrow> Some e | Inr _ \<Rightarrow> check_updates w es)
      else check_updates w es)"

fun apply_updates ::
  "ext \<Rightarrow> Window \<Rightarrow> (string \<times> jsval) list \<Rightarrow> 'a ws_world_scheme \<Rightarrow> string option \<times> 'a ws_world_scheme" where
  "apply_updates E wd [] w = (None, w)"
| "apply_updates E wd ((p, v) # es) w =
     (case applyUpdate E wd p v w of
        (Some e, w1) \<Rightarrow> (Some e, w1)
      | (None, w1) \<Rightarrow> apply_updates E wd es w1)"

definition windows_update ::
  "ext \<Rightarrow> string \<times> (string \<times> jsval) list \<Rightarrow> connref \<Rightarrow> 'a ws_world_scheme \<Rightarrow>
     ((exn + jsval) \<times> 'a ws_world_scheme) option" where
  "windows_update E params c w =
     (let (tok, updateInfo) = params
      in case resolveTokenWindow tok c w of
        Inl e \<Rightarrow> Some (Inl e, w)
      | Inr wd \<Rightarrow>
          (case check_updates w updateInfo of
             Some e \<Rightarrow> Some (Inl e, w)
           | None \<Rightarrow>
               (case apply_updates E wd updateInfo w of
                  (Some e, w1) \<Rightarrow> Some (Inl (JsError e), w1)
                | (None, w1) \<Rightarrow>
                    Some (Inr JNull,
                      if length updateInfo > 0
                      then sendLog ''info'' (''windows.update from client '' @ numberToString E (conn_id w1 c) @
                             '': token='' @ tok @ '' props='' @ js_join '','' (map fst updateInfo)) w1
                      else w1))))"

definition method_windows_update :: "ext \<Rightarrow> 'a ws_world_scheme handler" where
  "method_windows_update E =
     registerMethod E UpdateParamsSchema (typed_handler E (token_params as_entries) (windows_update E))"

section \<open>windows.query\<close>

definition windows_query ::
  "string \<times> string list \<Rightarrow> connref \<Rightarrow> 'a token_world_scheme \<Rightarrow>
     ((exn + jsval) \<times> 'a token_world_scheme) option" where
  "windows_query params c w =
     (let (tok, queryInfo) = params
      in case resolveTokenWindow tok c w of
        Inl e \<Rightarrow> Some (Inl e, w)
      | Inr wd \<Rightarrow>
          Some (query_loop ''windows.query'' QUERY_PROPS (propValue w wd) queryInfo [] [], w))"

definition method_windows_query :: "ext \<Rightarrow> 'a token_world_scheme handler" where
  "method_windows_query E =
     registerMethod E QueryParamsSchema (typed_handler E (token_params as_strings) windows_query)"

section \<open>window.watch\<close>

definition watch_unsupported :: "string \<Rightarrow> string" where
  "watch_unsupported p = ''unsupported property '' @ quoted p @ '' in window.watch '' @
     ''(not a boolean property or no '' @ p @ ''Changed signal)''"

definition window_watch ::
  "ext \<Rightarrow> string \<times> (string \<times> bool) list \<Rightarrow> connref \<Rightarrow> 'a token_world_scheme \<Rightarrow>
     ((exn + jsval) \<times> 'a token_world_scheme) option" where
  "window_watch E params c w =
     (let (tok, watchInfo) = params
      in case resolveTokenWindow tok c w of
        Inl e \<Rightarrow> Some (Inl e, w)
      | Inr wd \<Rightarrow>
          (case check_names watch_unsupported WATCH_PROPS (map fst watchInfo) of
             Some e \<Rightarrow> Some (Inl e, w)
           | None \<Rightarrow> Some (watch_loop (setWatch E tok c wd) watchInfo [] w)))"

definition method_window_watch :: "ext \<Rightarrow> 'a token_world_scheme handler" where
  "method_window_watch E =
     registerMethod E WatchParamsSchema (typed_handler E (token_params as_bool_entries) (window_watch E))"

section \<open>Specification of the update\<close>

text \<open>A value \<open>windows.update\<close> accepts for a property.\<close>

definition valid_update :: "'a watch_world_scheme \<Rightarrow> string \<Rightarrow> jsval \<Rightarrow> bool" where
  "valid_update w p v \<longleftrightarrow> p \<in> set UPDATE_PROPS \<and>
     (p = ''desktops'' \<longrightarrow> (\<exists>ids. v = JArr (map JStr ids) \<and> set ids \<subseteq> fst ` set (desktopsById w))) \<and>
     (p = ''activities'' \<longrightarrow> (\<exists>ids. v = JArr (map JStr ids) \<and> set ids \<subseteq> set (activitiesById w)))"

definition update_accepted ::
  "string \<Rightarrow> connref \<Rightarrow> (string \<times> jsval) list \<Rightarrow> 'a token_world_scheme \<Rightarrow> bool" where
  "update_accepted tok c info w \<longleftrightarrow>
     (\<exists>wd. resolveTokenWindow tok c w = Inr wd) \<and> (\<forall>(p, v) \<in> set info. valid_update w p v)"

lemma as_string_Some [simp]: "as_string v = Some s \<longleftrightarrow> v = JStr s"
  by (cases v) auto

lemma those_map_as_string: "those (map as_string vs) = Some ss \<longleftrightarrow> vs = map JStr ss"
proof (induction vs arbitrary: ss)
  case Nil
  then show ?case by auto
next
  case (Cons v vs)
  show ?case
  proof (cases "as_string v")
    case None
    then show ?thesis by auto
  next
    case (Some s)
    then show ?thesis by (cases ss) (auto simp: Cons)
  qed
qed

lemma as_strings_Some: "as_strings v = Some ss \<longleftrightarrow> v = JArr (map JStr ss)"
  by (cases v) (auto simp: those_map_as_string)

lemma as_strings_ids [simp]: "as_strings (JArr (map JStr ss)) = Some ss"
  by (simp only: as_strings_Some)

lemma JStr_ids_eq [simp]: "map JStr xs = map JStr ys \<longleftrightarrow> xs = ys"
  by (rule inj_map_eq_map) (simp add: inj_def)

lemma validateIdList_iff:
  "(\<exists>ids. validateIdList w p v = Inr ids) \<longleftrightarrow>
     (\<exists>ids. v = JArr (map JStr ids) \<and> check_ids w p ids = None)"
  by (cases "as_strings v") (auto simp: validateIdList_def as_strings_Some simp del: as_strings.simps
      split: option.splits)

lemma check_updates_None_iff:
  "check_updates w es = None \<longleftrightarrow> (\<forall>(p, v) \<in> set es. valid_update w p v)"
proof (induction es)
  case Nil
  then show ?case by simp
next
  case (Cons e es)
  obtain p v where e: "e = (p, v)" by (cases e)
  have "(\<exists>ids. validateIdList w p v = Inr ids) \<and> p \<in> set UPDATE_PROPS \<longleftrightarrow> valid_update w p v"
    if "p = ''desktops'' \<or> p = ''activities''"
    using that unfolding validateIdList_iff check_ids_None_iff valid_update_def map_of_eq_None_iff
    by (auto simp: subset_iff)
  moreover have "p \<in> set UPDATE_PROPS \<longleftrightarrow> valid_update w p v"
    if "p \<noteq> ''desktops''" "p \<noteq> ''activities''"
    using that by (simp add: valid_update_def)
  ultimately show ?case
    by (auto simp: e Cons split: sum.splits)
qed

lemma check_updates_invalid: "check_updates w es = Some e \<Longrightarrow> is_invalid_params e"
  by (induction w es rule: check_updates.induct)
    (auto dest: validateIdList_invalid split: if_splits sum.splits)

section \<open>The update keeps the invariant\<close>

lemma applyUpdate_inv:
  assumes "kwin_documented E" "full_inv E w"
  shows "full_inv E (snd (applyUpdate E wd p v w)) \<and> same_outer (snd (applyUpdate E wd p v w)) w"
  using assms by (auto simp: applyUpdate_def assign_kwin_inv split: option.splits)

lemma apply_updates_inv:
  assumes "kwin_documented E"
  shows "full_inv E w \<Longrightarrow>
    full_inv E (snd (apply_updates E wd es w)) \<and> same_outer (snd (apply_updates E wd es w)) w"
proof (induction es arbitrary: w)
  case Nil
  then show ?case by simp
next
  case (Cons e es)
  obtain p v where e: "e = (p, v)" by (cases e)
  obtain err w1 where u: "applyUpdate E wd p v w = (err, w1)" by fastforce
  have "full_inv E w1 \<and> same_outer w1 w"
    using applyUpdate_inv [OF assms Cons.prems, of wd p v] by (simp add: u)
  then show ?case
    using Cons.IH [of w1] by (cases err) (auto simp: e u intro: same_outer_trans)
qed

lemma windows_update_inv:
  assumes "kwin_documented E" "full_inv E w" "windows_update E ps c w = Some (res, w')"
  shows "full_inv E w' \<and> same_outer w' w"
proof -
  obtain tok es where ps: "ps = (tok, es)" by (cases ps)
  have "full_inv E w1 \<and> same_outer w1 w" if "apply_updates E wd es w = (err, w1)" for wd err w1
    using apply_updates_inv [OF assms(1,2), of wd es] that by simp
  then show ?thesis
    using assms(2,3) by (auto simp: windows_update_def ps split: sum.splits option.splits prod.splits if_splits)
qed

lemma windows_query_same: "windows_query ps c w = Some (res, w') \<Longrightarrow> w' = w"
  by (cases ps) (auto simp: windows_query_def split: sum.splits)

text \<open>The assignments made before an error: a prefix of the entries.\<close>

lemma apply_updates_error:
  "apply_updates E wd es w = (Some e, w') \<Longrightarrow>
     \<exists>es1 p v es2 w1. es = es1 @ (p, v) # es2 \<and> apply_updates E wd es1 w = (None, w1) \<and>
       applyUpdate E wd p v w1 = (Some e, w')"
proof (induction es arbitrary: w)
  case Nil
  then show ?case by simp
next
  case (Cons x es)
  obtain p v where x: "x = (p, v)" by (cases x)
  obtain err w1 where u: "applyUpdate E wd p v w = (err, w1)" by fastforce
  show ?case
  proof (cases err)
    case (Some e')
    then have "x # es = [] @ (p, v) # es" "apply_updates E wd [] w = (None, w)"
      "applyUpdate E wd p v w = (Some e, w')"
      using Cons.prems by (auto simp: x u)
    then show ?thesis by blast
  next
    case None
    then have "apply_updates E wd es w1 = (Some e, w')"
      using Cons.prems by (simp add: x u)
    from Cons.IH [OF this] obtain es1 q y es2 w2 where
      "es = es1 @ (q, y) # es2" "apply_updates E wd es1 w1 = (None, w2)"
      "applyUpdate E wd q y w2 = (Some e, w')" by blast
    then have "x # es = ((p, v) # es1) @ (q, y) # es2" "apply_updates E wd ((p, v) # es1) w = (None, w2)"
      "applyUpdate E wd q y w2 = (Some e, w')"
      by (simp_all add: x u None)
    then show ?thesis by blast
  qed
qed

section \<open>The window watch registry\<close>

definition window_watched :: "'a watch_world_scheme \<Rightarrow> string \<Rightarrow> string \<Rightarrow> bool" where
  "window_watched w tok p \<longleftrightarrow> (case map_of (watchesByToken w) tok of
      None \<Rightarrow> False | Some st \<Rightarrow> map_of (wst_handlers st) p \<noteq> None)"

definition watch_ok :: "ext \<Rightarrow> string \<Rightarrow> Window \<Rightarrow> 'a watch_world_scheme \<Rightarrow> bool" where
  "watch_ok E tok wd w \<longleftrightarrow>
     watch_inv E w \<and> (\<forall>st. map_of (watchesByToken w) tok = Some st \<longrightarrow> wst_window st = wd)"

lemma window_watched_state:
  "window_watched w tok p \<longleftrightarrow> map_of (wst_handlers (watch_state w tok wd)) p \<noteq> None"
  by (simp add: window_watched_def watch_state_def split: option.splits)

lemma setWatch_window:
  assumes "watch_ok E tok wd w" "map_of (watchesByToken (snd (setWatch E tok c wd p b w))) tok = Some st"
  shows "wst_window st = wd"
proof -
  have st: "wst_window (watch_state w tok wd) = wd"
    using assms(1) by (simp add: watch_state_def watch_ok_def split: option.splits)
  have old: "wst_window st' = wd" if "map_of (watchesByToken w) tok = Some st'" for st'
    using assms(1) that by (simp add: watch_ok_def)
  show ?thesis
  proof (cases rule: setWatch_cases [of b w tok wd p])
    case (present h)
    then have "st = watch_state w tok wd"
      using assms(2) by (simp add: setWatch_present map_of_ensure_state)
    then show ?thesis using st by simp
  next
    case no_signal
    then have "st = watch_state w tok wd"
      using assms(2) by (simp add: setWatch_no_signal map_of_ensure_state)
    then show ?thesis using st by simp
  next
    case connects
    then show ?thesis
      using assms(2) st by (force simp: setWatch_connects add_watch_map_of)
  next
    case (disconnects st0 h)
    then have "map_of (watchesByToken (remove_watch E tok st0 (p, h) w)) tok = Some st"
      using assms(2) by (simp add: setWatch_disconnects)
    from remove_watch_handlers [OF this disconnects(2)] old show ?thesis by metis
  next
    case absent
    then show ?thesis using assms(2) old by (simp add: setWatch_absent)
  qed
qed

lemma setWatch_other:
  "t \<noteq> tok \<Longrightarrow>
     map_of (watchesByToken (snd (setWatch E tok c wd p b w))) t = map_of (watchesByToken w) t"
  by (cases rule: setWatch_cases [of b w tok wd p])
    (simp_all add: setWatch_outcomes map_of_ensure_state add_watch_map_of remove_watch_map_of)

lemma setWatch_watched:
  assumes "signal_exists (propSignal wd p)"
  shows "window_watched (snd (setWatch E tok c wd p b w)) tok = (window_watched w tok)(p := b)"
proof (cases rule: setWatch_cases [of b w tok wd p])
  case present
  then show ?thesis
    by (auto simp: setWatch_present window_watched_def map_of_ensure_state watch_state_def fun_eq_iff
        split: option.splits)
next
  case no_signal
  then show ?thesis using assms by simp
next
  case connects
  then show ?thesis
    by (auto simp: setWatch_connects window_watched_def add_watch_map_of watch_state_def fun_eq_iff
        split: option.splits)
next
  case disconnects
  then show ?thesis
    by (auto simp: setWatch_disconnects window_watched_def remove_watch_map_of fun_eq_iff
        dest: delete_empty_other)
next
  case absent
  then show ?thesis
    by (auto simp: setWatch_absent window_watched_state [of _ _ _ wd] fun_eq_iff)
qed

interpretation ww: watch_registry "setWatch E tok c wd" "\<lambda>w. window_watched w tok"
  "watch_ok E tok wd" "\<lambda>p. signal_exists (propSignal wd p)" for E tok c wd
proof unfold_locales
  fix w :: "'a watch_world_scheme" and p b
  assume ok: "watch_ok E tok wd w"
  show "watch_ok E tok wd (snd (setWatch E tok c wd p b w))"
    using ok watch_inv_setWatch [of E w tok wd] setWatch_window [OF ok] by (simp add: watch_ok_def)
next
  fix w :: "'a watch_world_scheme" and p b
  assume "signal_exists (propSignal wd p)"
  then show "fst (setWatch E tok c wd p b w) = Inr b"
    by (cases rule: setWatch_cases [of b w tok wd p]) (simp_all add: setWatch_outcomes)
  show "window_watched (snd (setWatch E tok c wd p b w)) tok = (window_watched w tok)(p := b)"
    using \<open>signal_exists (propSignal wd p)\<close> by (rule setWatch_watched)
qed

section \<open>Watching keeps the invariant\<close>

lemma setWatch_handlers:
  assumes "map_of (watchesByToken (snd (setWatch E tok c wd p b w))) t = Some st"
    and "map_of (wst_handlers st) q = Some h"
  shows "h = new_handler w tok c wd p \<and> t = tok \<or>
    (\<exists>st0. map_of (watchesByToken w) t = Some st0 \<and> map_of (wst_handlers st0) q = Some h)"
  using assms
  by (cases rule: setWatch_cases [of b w tok wd p])
    (auto simp: setWatch_outcomes map_of_ensure_state add_watch_map_of remove_watch_map_of watch_state_def
      split: if_splits option.splits)

lemma setWatch_tokens:
  "byToken (snd (setWatch E tok c wd p b w)) = byToken w"
  "byWindow (snd (setWatch E tok c wd p b w)) = byWindow w"
  "entries (snd (setWatch E tok c wd p b w)) = entries w"
  "nextEntry (snd (setWatch E tok c wd p b w)) = nextEntry w"
  "rng (snd (setWatch E tok c wd p b w)) = rng w"
  "token_world.more (snd (setWatch E tok c wd p b w)) = token_world.more w"
  using setWatch_frame(6) [of E tok c wd p b w] by (rule token_more_frame)+

lemma owner_inv_setWatch:
  assumes inv: "script_inv E w" and tok: "resolveTokenWindow tok c w = Inr wd"
  shows "owner_inv (snd (setWatch E tok c wd p b w))" (is "owner_inv ?w")
  unfolding owner_inv_def
proof (intro allI impI)
  fix t st
  assume st: "map_of (watchesByToken ?w) t = Some st"
  note own = script_invD(4) [OF inv, unfolded owner_inv_def]
  have ok: "watch_ok E tok wd w"
    using script_invD(2) [OF inv] watch_of_owner(1) [OF inv tok] by (simp add: watch_ok_def)
  show "\<exists>r. map_of (byToken ?w) t = Some r \<and> owned_watch ?w st r"
  proof (cases "t = tok")
    case False
    then show ?thesis
      using st own by (simp add: setWatch_other setWatch_tokens owned_watch_def)
  next
    case True
    obtain r where r: "map_of (byToken w) tok = Some r" "te_conn (entries w r) = c"
      "te_state (entries w r) = TActive" "te_window (entries w r) = Some wd"
      using tok by (auto simp: resolveTokenWindow_iff)
    have "c' = c" if "map_of (wst_handlers st) q = Some (SlotWindowWatch n t' c' wd' q')" for q n t' c' wd' q'
      using setWatch_handlers [OF st that] True watch_of_owner(2) [OF inv tok] by auto
    moreover have "wst_window st = wd"
      using setWatch_window [OF ok] st True by auto
    ultimately show ?thesis
      using r True by (auto simp: owned_watch_def setWatch_tokens)
  qed
qed

lemma setWatch_other_slots:
  assumes "watch_inv E w" "\<not> watch_slot s"
  shows "(sig, s) \<in> set (slots (snd (setWatch E tok c wd p b w))) \<longleftrightarrow> (sig, s) \<in> set (slots w)"
proof (cases rule: setWatch_cases [of b w tok wd p])
  case (disconnects st h)
  have "h \<noteq> s"
    using watch_inv_handler [OF assms(1) disconnects(2,3)] assms(2) by (auto simp: handler_ok_def)
  then show ?thesis
    using disconnects disconnect_slots(1) [of E "propSignal (wst_window st) p" h w]
      disconnect_slots(2) [of "(sig, s)" w "propSignal (wst_window st) p" h E]
    by (auto simp: setWatch_disconnects frame drop_handler_slots)
qed (use assms(2) in \<open>auto simp: setWatch_outcomes frame add_watch_slots\<close>)

lemma setWatch_plain_kept:
  assumes "watch_inv E w"
  shows "plain_kept (slots (snd (setWatch E tok c wd p b w))) (slots w)"
proof -
  have "(propSignal wd p, SlotWindowWatch (nextFn w) tok c wd p) \<notin> set (slots w)"
    using watch_inv_slot [OF assms] by blast
  then have "distinct (watch_wires (slots (snd (setWatch E tok c wd p b w))))" if "distinct (watch_wires (slots w))"
    using that by (cases rule: setWatch_cases [of b w tok wd p])
      (auto simp: setWatch_outcomes frame add_watch_slots drop_handler_slots distinct_watch_wires_disconnect)
  then show ?thesis
    using setWatch_other_slots [OF assms] watch_slot_not_plain unfolding plain_kept_def by blast
qed

lemma setWatch_nextFn: "nextFn w \<le> nextFn (snd (setWatch E tok c wd p b w))"
  by (cases rule: setWatch_cases [of b w tok wd p])
    (auto simp: setWatch_outcomes frame add_watch_slots)

lemma setWatch_full_inv:
  assumes inv: "full_inv E w" and tok: "resolveTokenWindow tok c w = Inr wd"
  shows "full_inv E (snd (setWatch E tok c wd p b w))" (is "full_inv E ?w")
    and "ws_untouched (snd (setWatch E tok c wd p b w)) w"
    and "resolveTokenWindow tok c (snd (setWatch E tok c wd p b w)) = Inr wd"
proof -
  note s = full_invD(1) [OF inv]
  have "watch_inv E ?w"
    using watch_inv_setWatch [OF script_invD(2) [OF s] watch_of_owner(1) [OF s tok]] by simp
  moreover have "tok_inv ?w = tok_inv w"
    by (rule tok_inv_cong) (simp_all add: setWatch_tokens)
  ultimately have "script_inv E ?w"
    using script_invD [OF s] owner_inv_setWatch [OF s tok] by (simp add: script_inv_def dbus_inv_setWatch)
  moreover have "watchesByClient ?w = watchesByClient w" "ws_world.more ?w = ws_world.more w"
    using setWatch_tokens(6) [of E tok c wd p b w] by (cases ?w, cases w, simp)+
  then show un: "ws_untouched ?w w"
    using setWatch_other_slots [OF script_invD(2) [OF s]] setWatch_plain_kept [OF script_invD(2) [OF s]]
    by (simp add: ws_untouched_def frame setWatch_nextFn)
  ultimately show "full_inv E ?w"
    by (intro full_inv_untouched [OF inv])
  show "resolveTokenWindow tok c ?w = Inr wd"
    using tok unfolding resolveTokenWindow_cong [OF setWatch_tokens(1,3)] .
qed

lemma window_watch_inv:
  assumes inv: "full_inv E w" and run: "window_watch E ps c w = Some (res, w')"
  shows "full_inv E w' \<and> same_outer w' w"
proof -
  obtain tok es where ps: "ps = (tok, es)" by (cases ps)
  show ?thesis
  proof (cases "resolveTokenWindow tok c w")
    case (Inl e)
    then show ?thesis using run inv by (simp add: window_watch_def ps)
  next
    case (Inr wd)
    let ?P = "\<lambda>v. full_inv E v \<and> same_outer v w \<and> resolveTokenWindow tok c v = Inr wd"
    have "?P (snd (watch_loop (setWatch E tok c wd) es [] w))"
      by (rule watch_loop_invariant [where P = ?P])
        (use inv Inr in \<open>auto intro: setWatch_full_inv same_outer_trans [OF same_outer_untouched]\<close>)
    then show ?thesis
      using run inv Inr by (auto simp: window_watch_def ps split: option.splits)
  qed
qed

end
