(* ===== verification/Workspace_Methods.thy ===== *)
theory Workspace_Methods
  imports Property_Methods
begin

text \<open>
  The methods of \<open>kwinscript/src/workspace.ts\<close>: \<open>workspace.update\<close>, \<open>workspace.query\<close> and
  \<open>workspace.watch\<close>. They need no token; watches belong to the client.
\<close>

section \<open>Schemas\<close>

definition WsUpdateParamsSchema :: zod where
  "WsUpdateParamsSchema = ZTuple [ZRecord ZString ZUnknown]"

definition WsQueryParamsSchema :: zod where
  "WsQueryParamsSchema = ZTuple [ZArray ZString]"

definition WsWatchParamsSchema :: zod where
  "WsWatchParamsSchema = ZTuple [ZRecord ZString ZBoolean]"

section \<open>workspace.update\<close>

fun ws_check_updates :: "'a watch_world_scheme \<Rightarrow> (string \<times> jsval) list \<Rightarrow> exn option" where
  "ws_check_updates w [] = None"
| "ws_check_updates w ((p, v) # es) =
     (if p \<notin> set WORKSPACE_UPDATE_PROPS
      then Some (ws_invalidParams (''unsupported property '' @ quoted p @ '' in workspace.update''))
      else case validateId w p v of Inl e \<Rightarrow> Some e | Inr _ \<Rightarrow> ws_check_updates w es)"

text \<open>One assignment of the second loop; the value is a string, since every value was
  validated.\<close>

definition ws_applyUpdate ::
  "ext \<Rightarrow> string \<Rightarrow> jsval \<Rightarrow> 'a ws_world_scheme \<Rightarrow> string option \<times> 'a ws_world_scheme" where
  "ws_applyUpdate E p v w = (case as_string v of
      None \<Rightarrow> (Some (undefinedCallText E), w)
    | Some i \<Rightarrow>
        (if p = ''currentDesktop'' then assign_kwin E (AssignCurrentDesktop (lookupDesktop w i)) w
         else assign_kwin E (AssignCurrentActivity i) w))"

fun ws_apply_updates ::
  "ext \<Rightarrow> (string \<times> jsval) list \<Rightarrow> 'a ws_world_scheme \<Rightarrow> string option \<times> 'a ws_world_scheme" where
  "ws_apply_updates E [] w = (None, w)"
| "ws_apply_updates E ((p, v) # es) w =
     (case ws_applyUpdate E p v w of
        (Some e, w1) \<Rightarrow> (Some e, w1)
      | (None, w1) \<Rightarrow> ws_apply_updates E es w1)"

definition workspace_update ::
  "ext \<Rightarrow> (string \<times> jsval) list \<Rightarrow> connref \<Rightarrow> 'a ws_world_scheme \<Rightarrow>
     ((exn + jsval) \<times> 'a ws_world_scheme) option" where
  "workspace_update E updateInfo c w =
     (case ws_check_updates w updateInfo of
        Some e \<Rightarrow> Some (Inl e, w)
      | None \<Rightarrow>
          (case ws_apply_updates E updateInfo w of
             (Some e, w1) \<Rightarrow> Some (Inl (JsError e), w1)
           | (None, w1) \<Rightarrow>
               Some (Inr JNull,
                 if length updateInfo > 0
                 then sendLog ''info'' (''workspace.update from client '' @ numberToString E (conn_id w1 c) @
                        '': props='' @ js_join '','' (map fst updateInfo)) w1
                 else w1)))"

definition method_workspace_update :: "ext \<Rightarrow> 'a ws_world_scheme handler" where
  "method_workspace_update E =
     registerMethod E WsUpdateParamsSchema (typed_handler E (sole_param as_entries) (workspace_update E))"

section \<open>workspace.query\<close>

definition workspace_query ::
  "string list \<Rightarrow> connref \<Rightarrow> 'a kwin_world_scheme \<Rightarrow> ((exn + jsval) \<times> 'a kwin_world_scheme) option" where
  "workspace_query queryInfo c w =
     Some (query_loop ''workspace.query'' WORKSPACE_QUERY_PROPS (workspaceValue w) queryInfo [] [], w)"

definition method_workspace_query :: "ext \<Rightarrow> 'a kwin_world_scheme handler" where
  "method_workspace_query E =
     registerMethod E WsQueryParamsSchema (typed_handler E (sole_param as_strings) workspace_query)"

section \<open>workspace.watch\<close>

definition ws_watch_unsupported :: "string \<Rightarrow> string" where
  "ws_watch_unsupported p = ''unsupported property '' @ quoted p @ '' in workspace.watch (no '' @ p @
     ''Changed signal)''"

definition workspace_watch ::
  "ext \<Rightarrow> (string \<times> bool) list \<Rightarrow> connref \<Rightarrow> 'a ws_world_scheme \<Rightarrow>
     ((exn + jsval) \<times> 'a ws_world_scheme) option" where
  "workspace_watch E watchInfo c w =
     (case check_names ws_watch_unsupported WORKSPACE_WATCH_PROPS (map fst watchInfo) of
        Some e \<Rightarrow> Some (Inl e, w)
      | None \<Rightarrow> Some (watch_loop (ws_setWatch E c) watchInfo [] w))"

definition method_workspace_watch :: "ext \<Rightarrow> 'a ws_world_scheme handler" where
  "method_workspace_watch E =
     registerMethod E WsWatchParamsSchema (typed_handler E (sole_param as_bool_entries) (workspace_watch E))"

section \<open>Specification of the update\<close>

definition ws_valid_update :: "'a watch_world_scheme \<Rightarrow> string \<Rightarrow> jsval \<Rightarrow> bool" where
  "ws_valid_update w p v \<longleftrightarrow>
     (p = ''currentDesktop'' \<and> (\<exists>i. v = JStr i \<and> i \<in> fst ` set (desktopsById w))) \<or>
     (p = ''currentActivity'' \<and> (\<exists>i. v = JStr i \<and> i \<in> set (activitiesById w)))"

lemma validateId_invalid: "validateId w p v = Inl e \<Longrightarrow> is_invalid_params e"
  by (auto simp: validateId_def split: jsval.splits if_splits)

lemma ws_valid_update_iff:
  "p \<in> set WORKSPACE_UPDATE_PROPS \<and> (\<exists>i. validateId w p v = Inr i) \<longleftrightarrow> ws_valid_update w p v"
  by (cases v) (auto simp: validateId_def ws_valid_update_def WORKSPACE_UPDATE_PROPS_def lookupDesktop_def
      hasActivity_def map_of_eq_None_iff split: if_splits)

lemma ws_check_updates_None_iff:
  "ws_check_updates w es = None \<longleftrightarrow> (\<forall>(p, v) \<in> set es. ws_valid_update w p v)"
proof (induction es)
  case Nil
  then show ?case by simp
next
  case (Cons e es)
  obtain p v where e: "e = (p, v)" by (cases e)
  show ?case
    using ws_valid_update_iff [of p w v] Cons by (cases "validateId w p v") (auto simp: e)
qed

lemma ws_check_updates_invalid: "ws_check_updates w es = Some e \<Longrightarrow> is_invalid_params e"
  by (induction w es rule: ws_check_updates.induct)
    (auto dest: validateId_invalid split: if_splits sum.splits)

section \<open>The methods keep the invariant\<close>

lemma ws_applyUpdate_inv:
  assumes "kwin_documented E" "full_inv E w"
  shows "full_inv E (snd (ws_applyUpdate E p v w)) \<and> same_outer (snd (ws_applyUpdate E p v w)) w"
  using assms by (auto simp: ws_applyUpdate_def assign_kwin_inv split: option.splits)

lemma ws_apply_updates_inv:
  assumes "kwin_documented E"
  shows "full_inv E w \<Longrightarrow>
    full_inv E (snd (ws_apply_updates E es w)) \<and> same_outer (snd (ws_apply_updates E es w)) w"
proof (induction es arbitrary: w)
  case Nil
  then show ?case by simp
next
  case (Cons e es)
  obtain p v where e: "e = (p, v)" by (cases e)
  obtain err w1 where u: "ws_applyUpdate E p v w = (err, w1)" by fastforce
  have "full_inv E w1 \<and> same_outer w1 w"
    using ws_applyUpdate_inv [OF assms Cons.prems, of p v] by (simp add: u)
  then show ?case
    using Cons.IH [of w1] by (cases err) (auto simp: e u intro: same_outer_trans)
qed

lemma workspace_update_inv:
  assumes "kwin_documented E" "full_inv E w" "workspace_update E es c w = Some (res, w')"
  shows "full_inv E w' \<and> same_outer w' w"
proof -
  have "full_inv E w1 \<and> same_outer w1 w" if "ws_apply_updates E es w = (err, w1)" for err w1
    using ws_apply_updates_inv [OF assms(1,2), of es] that by simp
  then show ?thesis
    using assms(2,3) by (auto simp: workspace_update_def split: option.splits prod.splits if_splits)
qed

lemma workspace_query_same: "workspace_query ps c w = Some (res, w') \<Longrightarrow> w' = w"
  by (simp add: workspace_query_def)

lemma ws_setWatch_full_inv:
  assumes "full_inv E w" "c < nextConn w"
  shows "full_inv E (snd (ws_setWatch E c p b w))" "same_outer (snd (ws_setWatch E c p b w)) w"
  using ws_setWatch_same [OF full_invD(2) [OF assms(1)], of c p b] ws_inv_setWatch [OF full_invD(2) [OF assms(1)] assms(2)]
    same_registries_script_inv [OF _ full_invD(1) [OF assms(1)]] same_outer_registries
  by (auto simp: full_inv_def)

lemma workspace_watch_inv:
  assumes inv: "full_inv E w" and c: "c < nextConn w" and run: "workspace_watch E es c w = Some (res, w')"
  shows "full_inv E w' \<and> same_outer w' w"
proof -
  let ?P = "\<lambda>v. full_inv E v \<and> same_outer v w"
  have "?P (snd (watch_loop (ws_setWatch E c) es [] w))"
  proof (rule watch_loop_invariant [where P = ?P])
    show "?P (snd (ws_setWatch E c p b v))" if "?P v" for p b v
      using that c ws_setWatch_full_inv [of E v c p b] same_outer_trans [of _ v w]
      by (auto simp: same_outer_def)
  qed (simp add: inv)
  then show ?thesis
    using run inv by (auto simp: workspace_watch_def split: option.splits)
qed

section \<open>The workspace watch registry\<close>

text \<open>The workspace object lives as long as the script, so disconnecting from its signals
  does not throw.\<close>

definition workspace_lives :: "ext \<Rightarrow> bool" where
  "workspace_lives E \<longleftrightarrow> (\<forall>n s. kwinDisconnect E n (WorkspaceSignal s) = None)"

lemma ws_watched_handlers: "ws_watched w cid p \<longleftrightarrow> map_of (ws_handlers w cid) p \<noteq> None"
  by (simp add: ws_watched_def ws_handlers_def split: option.splits)

definition ws_ok :: "ext \<Rightarrow> connref \<Rightarrow> number \<Rightarrow> 'a ws_world_scheme \<Rightarrow> bool" where
  "ws_ok E c cid w \<longleftrightarrow> workspace_lives E \<and> ws_inv E w \<and> c < nextConn w \<and> conn_id w c = cid"

lemma ws_ok_disconnect: "ws_ok E c cid w \<Longrightarrow> kwinDisconnect E (native w) (workspaceSignal p) = None"
  by (simp add: ws_ok_def workspace_lives_def workspaceSignal_def)

lemma ws_set_registry:
  assumes ok: "ws_ok E c cid w" and ex: "signal_exists (workspaceSignal p)"
  shows "fst (ws_setWatch E c p b w) = Inr b"
    and "ws_watched (snd (ws_setWatch E c p b w)) cid = (ws_watched w cid)(p := b)"
proof -
  have cid: "conn_id w c = cid" using ok by (simp add: ws_ok_def)
  note dis = ws_ok_disconnect [OF ok]
  show "fst (ws_setWatch E c p b w) = Inr b"
    by (cases b; cases "map_of (ws_handlers w (conn_id w c)) p")
      (simp_all add: ws_setWatch_absent ws_setWatch_connects ws_setWatch_present ws_setWatch_disconnects ex dis)
  show "ws_watched (snd (ws_setWatch E c p b w)) cid = (ws_watched w cid)(p := b)"
    by (cases b; cases "map_of (ws_handlers w (conn_id w c)) p")
      (simp_all add: ws_setWatch_absent ws_setWatch_connects ws_setWatch_present ws_setWatch_disconnects
        ex dis fun_eq_iff ws_watched_handlers cid ws_handlers_cong [of "sendLog l m v" v for l m v]
        ws_handlers_add ws_handlers_remove)
qed

interpretation sw: watch_registry "ws_setWatch E c" "\<lambda>w. ws_watched w cid" "ws_ok E c cid"
  "\<lambda>p. signal_exists (workspaceSignal p)" for E c cid
proof unfold_locales
  fix w :: "'a ws_world_scheme" and p b
  assume ok: "ws_ok E c cid w"
  then have inv: "ws_inv E w" and c: "c < nextConn w" by (simp_all add: ws_ok_def)
  from ws_setWatch_same [OF inv, of c p b] ok ws_inv_setWatch [OF inv c]
  show "ws_ok E c cid (snd (ws_setWatch E c p b w))"
    by (simp add: ws_ok_def same_registries_def)
next
  fix w :: "'a ws_world_scheme" and p b
  assume ok: "ws_ok E c cid w" and ex: "signal_exists (workspaceSignal p)"
  from ws_set_registry [OF ok ex]
  show "fst (ws_setWatch E c p b w) = Inr b"
    "ws_watched (snd (ws_setWatch E c p b w)) cid = (ws_watched w cid)(p := b)" by blast+
qed

end
