(* ===== verification/Effects.thy ===== *)
theory Effects
  imports Window_Methods Workspace_Methods
begin

text \<open>
  What an operation of the script may do to the calls it has made, to the token registry and
  to the desktop catalog, whatever the operation is: it only adds calls that are logs or
  pushes, it pushes only to clients that are alive, it adds no token (\<open>token.request\<close> does, and is treated apart), and the catalog
  keeps every desktop under its own ID.
\<close>

definition is_send :: "promise \<Rightarrow> bool" where
  "is_send p \<longleftrightarrow> (case pr_waiter p of WaitLog \<Rightarrow> True | WaitPush _ \<Rightarrow> True | _ \<Rightarrow> False) \<and> promise_ok p"

definition sends :: "'a dbus_world_scheme \<Rightarrow> 'a dbus_world_scheme \<Rightarrow> bool" where
  "sends w' w \<longleftrightarrow> (\<exists>ps. promises w' = promises w @ ps \<and> list_all is_send ps)"

text \<open>What is pushed goes to clients that are alive.\<close>

definition tells :: "'a conn_world_scheme \<Rightarrow> 'a conn_world_scheme \<Rightarrow> bool" where
  "tells w' w \<longleftrightarrow> conns w' = conns w \<and>
     (\<exists>xs. pushes w' = pushes w @ xs \<and> (\<forall>(i, m) \<in> set xs. \<exists>c. conn_alive w c \<and> conn_id w c = i))"

definition catalog_ok :: "'a watch_world_scheme \<Rightarrow> bool" where
  "catalog_ok w \<longleftrightarrow> (\<forall>k d. map_of (desktopsById w) k = Some d \<longrightarrow> vdId d = k)"

definition effects :: "'a token_world_scheme \<Rightarrow> 'a token_world_scheme \<Rightarrow> bool" where
  "effects w' w \<longleftrightarrow> sends w' w \<and> map_of (byToken w') \<subseteq>\<^sub>m map_of (byToken w) \<and>
     nextEntry w' = nextEntry w \<and> (\<forall>r. te_conn (entries w' r) = te_conn (entries w r)) \<and>
     (catalog_ok w \<longrightarrow> catalog_ok w') \<and> tells w' w"

section \<open>Algebra\<close>

lemma sends_refl [simp]: "sends w w"
  by (simp add: sends_def)

lemma sends_trans: "sends w2 w1 \<Longrightarrow> sends w1 w \<Longrightarrow> sends w2 w"
  by (fastforce simp: sends_def)

lemma sends_promises: "promises w' = promises w \<Longrightarrow> sends w' w"
  by (simp add: sends_def)

lemma sends_log [simp]: "sends (sendLog l m w) w"
  by (simp add: sends_def dbus_defs is_send_def promise_ok_def single_shot_def)

lemma sends_push [simp]: "sends (pushToClient E c s w) w"
  by (simp add: sends_def dbus_defs is_send_def promise_ok_def single_shot_def)

lemma sends_notify [simp]: "sends (notifyClient E c m p w) w"
  by (simp add: notifyClient_def send_def)

lemma tells_refl [simp]: "tells w w"
  by (simp add: tells_def)

lemma tells_trans: "tells w2 w1 \<Longrightarrow> tells w1 w \<Longrightarrow> tells w2 w"
  unfolding tells_def by (elim conjE exE) (rule conjI, simp, rule exI [of _ "xs @ xsa" for xs xsa], auto)

lemma tells_promises: "promises w' = promises w \<Longrightarrow> conns w' = conns w \<Longrightarrow> tells w' w"
  by (simp add: tells_def pushes_def)

lemma tells_comm [simp]: "tells (sendLog l m w) w" "tells (notifyClient E c me p w) w"
  by (auto simp: tells_def notification_def)

lemma effects_refl [simp]: "effects w w"
  by (simp add: effects_def)

lemma effects_trans: "effects w2 w1 \<Longrightarrow> effects w1 w \<Longrightarrow> effects w2 w"
  by (auto simp: effects_def intro: sends_trans tells_trans map_le_trans)

lemma effects_fold:
  "(\<And>x v. x \<in> set xs \<Longrightarrow> effects (f x v) v) \<Longrightarrow> effects (fold f xs w) w"
  by (rule fold_invariant_set [where P = "\<lambda>v. effects v w"]) (auto intro: effects_trans)

text \<open>Operations that only send, connect or touch other registries.\<close>

lemma effects_same:
  assumes "sends w' w" "tells w' w" "byToken w' = byToken w" "nextEntry w' = nextEntry w" "entries w' = entries w"
    "desktopsById w' = desktopsById w"
  shows "effects w' w"
  using assms by (simp add: effects_def catalog_ok_def)

lemma effects_comm [simp]:
  "effects (sendLog l m w) w" "effects (notifyClient E c me p w) w"
  by (simp_all add: effects_same)

lemma effects_log [intro]: "effects v w \<Longrightarrow> effects (sendLog l m v) w"
  by (rule effects_trans [OF effects_comm(1)])

lemma effects_notify [intro]: "effects v w \<Longrightarrow> effects (notifyClient E c me p v) w"
  by (rule effects_trans [OF effects_comm(2)])

lemma effects_update [simp]:
  "effects (w\<lparr>native := n\<rparr>) w" "effects (w\<lparr>nextFn := i\<rparr>) w" "effects (w\<lparr>slots := s\<rparr>) w"
  "effects (w\<lparr>watchesByToken := a\<rparr>) w" "effects (w\<lparr>byWindow := b\<rparr>) w"
  by (simp_all add: effects_same sends_promises tells_promises)

lemma effects_connect [simp]:
  "effects (snd (connect E sig sl w)) w" "effects (snd (disconnect E sig sl w)) w"
  by (simp_all add: connect_def disconnect_def split: option.splits)

section \<open>Tokens and window watches\<close>

lemma effects_drop_handler: "effects (drop_handler E tok wd ph w) w"
  by (simp add: drop_handler_eq effects_log split: option.splits)

lemma effects_drop_token: "effects (drop_token E tok w) w"
proof (cases "map_of (watchesByToken w) tok")
  case None
  then show ?thesis by (simp add: drop_token_def)
next
  case (Some st)
  show ?thesis
    by (auto simp: drop_token_def Some Let_def
        intro: effects_trans [OF effects_update(4)] effects_fold effects_drop_handler)
qed

lemma effects_dropClientWatches: "effects (dropClientWatches E toks w) w"
  unfolding dropClientWatches_def by (rule effects_fold) (rule effects_drop_token)

lemma effects_unregister: "effects (unregister r w) w"
proof -
  have "map_of (byToken (unregister r w)) \<subseteq>\<^sub>m map_of (byToken w)"
    by (simp add: unregister_fields map_le_def)
  moreover have "promises (unregister r w) = promises w"
    by (simp add: unregister_def Let_def split: TokenState.splits option.splits)
  ultimately show ?thesis
    by (simp add: effects_def unregister_fields catalog_ok_def sends_promises tells_promises)
qed

lemma effects_drop_entries: "effects (drop_entries E rs w) w"
  by (rule effects_trans [OF effects_dropClientWatches]) (rule effects_fold, rule effects_unregister)

lemma effects_invalidate: "effects (invalidate E r rs w) w"
  unfolding invalidate_drop_entries Let_def
  by (intro effects_log effects_notify effects_drop_entries)

lemma effects_entries:
  "(\<And>r. te_conn (e r) = te_conn (entries w r)) \<Longrightarrow> effects (w\<lparr>entries := e\<rparr>) w"
  by (simp add: effects_def sends_promises tells_promises catalog_ok_def)

lemma effects_validate: "effects (validate E r wd w) w"
proof -
  have "effects (supersede E r wd w) w"
    by (auto simp: supersede_def effects_invalidate split: option.splits)
  moreover have "effects (bind_entry r wd v) v" for v :: "'a token_world_scheme"
    by (simp add: effects_def sends_promises tells_promises catalog_ok_def)
  ultimately have "effects (bind_entry r wd (supersede E r wd w)) w"
    by (rule effects_trans [rotated])
  then show ?thesis
    unfolding validate_bind Let_def by (intro effects_log effects_notify)
qed

lemma effects_checkCaption: "effects (checkCaption E wd w) w"
  by (simp add: checkCaption_def Let_def effects_validate effects_invalidate split: option.splits)

lemma effects_events:
  "effects (onWindowAdded E wd w) w" "effects (onWindowRemoved E wd w) w"
  "effects (deadline_fires E r w) w" "effects (dropClientTokens E cid w) w"
proof -
  show "effects (onWindowAdded E wd w) w"
    unfolding onWindowAdded_def by (rule effects_trans [OF effects_checkCaption effects_connect(1)])
  show "effects (onWindowRemoved E wd w) w"
    by (simp add: onWindowRemoved_def effects_invalidate split: option.splits)
  show "effects (deadline_fires E r w) w"
    by (simp add: deadline_fires_eq effects_invalidate effects_entries)
  show "effects (dropClientTokens E cid w) w"
    unfolding dropClientTokens_eq Let_def by (simp only: split: if_split)
      (blast intro: effects_log effects_drop_entries)
qed

lemma effects_catalogs:
  "effects (rescanDesktops w) w" "effects (rescanActivities w) w"
  "effects (activityAdded i w) w" "effects (activityRemoved i w) w"
proof -
  have "catalog_ok (rescanDesktops w)"
    by (auto simp: catalog_ok_def rescanDesktops_def map_of_fold_update find_Some_iff split: option.splits)
  then show "effects (rescanDesktops w) w"
    by (simp add: effects_def) (simp add: rescanDesktops_def sends_promises tells_promises)
qed (simp_all add: effects_same sends_promises tells_promises rescanActivities_def activityAdded_def activityRemoved_def)

lemma effects_setWatch: "effects (snd (setWatch E tok c wd p b w)) w"
proof (cases rule: setWatch_cases [of b w tok wd p])
  case disconnects
  then show ?thesis
    by (auto simp: setWatch_disconnects remove_watch_def Let_def
        intro: effects_trans [OF effects_update(4)] effects_drop_handler)
next
  case connects
  have "effects (add_watch tok c wd p w) w"
    by (rule effects_same) (simp_all add: add_watch_def ensure_state_def sends_promises tells_promises Let_def split: option.splits)
  with connects show ?thesis by (auto simp: setWatch_connects)
qed (auto simp: setWatch_present setWatch_no_signal setWatch_absent ensure_state_def split: option.splits
    intro: effects_trans [OF effects_update(2)])

section \<open>Signals and assignments\<close>

lemma effects_run_slot: "effects (run_slot E arg sl w) w"
  by (simp add: run_slot_def effects_checkCaption effects_events effects_catalogs window_changed_def
      workspace_changed_def split: slot.splits sigarg.splits)

lemma effects_emit: "effects (emit E sig arg w) w"
  unfolding emit_def by (rule effects_fold) (rule effects_run_slot)

lemma effects_kwin_signal: "effects (kwin_signal E em w) w"
  by (cases em) (auto simp: kwin_signal_def intro: effects_trans [OF effects_emit])

lemma effects_assign: "effects (snd (assign_kwin E a w)) w"
  by (auto simp: assign_kwin_def Let_def
      intro: effects_trans [OF effects_update(1)] effects_fold effects_kwin_signal)

section \<open>Methods\<close>

lemma effects_apply_updates: "effects (snd (apply_updates E wd es w)) w"
proof (induction es arbitrary: w)
  case Nil
  then show ?case by simp
next
  case (Cons e es)
  obtain p v where e: "e = (p, v)" by (cases e)
  have "effects (snd (applyUpdate E wd p v w)) w"
    by (simp add: applyUpdate_def effects_assign split: option.splits)
  then show ?case
    using Cons by (auto simp: e split: prod.splits option.splits intro: effects_trans [OF Cons])
qed

lemma effects_windows_update:
  assumes "windows_update E ps c w = Some (res, w')"
  shows "effects w' w"
proof -
  obtain tok es where ps: "ps = (tok, es)" by (cases ps)
  have "effects w1 w" if "apply_updates E wd es w = (err, w1)" for wd err w1
    using effects_apply_updates [of E wd es w] that by simp
  then show ?thesis
    using assms by (auto simp: windows_update_def ps split: sum.splits option.splits prod.splits if_splits)
qed

lemma effects_watch_loop:
  "(\<And>p b v. effects (snd (f p b v)) v) \<Longrightarrow> effects (snd (watch_loop f es result w)) w"
  by (rule watch_loop_invariant [where P = "\<lambda>v. effects v w"]) (auto intro: effects_trans)

lemma effects_window_watch:
  assumes "window_watch E ps c w = Some (res, w')"
  shows "effects w' w"
proof -
  obtain tok es where ps: "ps = (tok, es)" by (cases ps)
  have "effects v w" if "watch_loop (setWatch E tok c wd) es [] w = (r, v)" for wd r v
    using effects_watch_loop [of "setWatch E tok c wd" es "[]" w, OF effects_setWatch] that by simp
  then show ?thesis
    using assms by (auto simp: window_watch_def ps split: sum.splits option.splits)
qed

lemma effects_ws_update [simp]: "effects (w\<lparr>watchesByClient := x\<rparr>) w"
  by (simp add: effects_same sends_promises tells_promises)

lemma effects_ws_add: "effects (ws_add c p w) w"
  by (rule effects_same) (simp_all add: ws_add_def ws_ensure_def sends_promises tells_promises Let_def split: option.splits)

lemma effects_disconnect: "disconnect E sig sl w = (err, w1) \<Longrightarrow> effects w1 w"
  using effects_connect(2) [of E sig sl w] by simp

lemma effects_ws_setWatch: "effects (snd (ws_setWatch E c p b w)) w"
proof (cases b)
  case True
  have "effects (ws_ensure cid w) w" for cid
    by (simp add: ws_ensure_def split: option.splits)
  then show ?thesis
    using True effects_ws_add [of c p w]
    by (cases "map_of (ws_handlers w (conn_id w c)) p"; cases "signal_exists (workspaceSignal p)")
      (auto simp: ws_setWatch_connects ws_setWatch_no_signal ws_setWatch_present
        intro: effects_trans [OF effects_update(2)])
next
  case False
  show ?thesis
    using False
    by (auto simp: ws_setWatch_def Let_def dest: effects_disconnect split: option.splits prod.splits
        intro: effects_trans [OF effects_ws_update])
qed

lemma effects_ws_drop_handler: "effects (ws_drop_handler E cid ph w) w"
  by (simp add: ws_drop_handler_eq effects_log split: option.splits)

lemma effects_dropWs: "effects (dropClientWorkspaceWatches E cid w) w"
  by (auto simp: dropClientWorkspaceWatches_def Let_def split: option.splits
      intro: effects_trans [OF effects_ws_update] effects_fold effects_ws_drop_handler)

lemma effects_workspace_watch: "workspace_watch E es c w = Some (res, w') \<Longrightarrow> effects w' w"
  using effects_watch_loop [of "ws_setWatch E c" es "[]" w, OF effects_ws_setWatch]
  by (auto simp: workspace_watch_def split: option.splits)

lemma effects_ws_apply_updates: "effects (snd (ws_apply_updates E es w)) w"
proof (induction es arbitrary: w)
  case Nil
  then show ?case by simp
next
  case (Cons e es)
  obtain p v where e: "e = (p, v)" by (cases e)
  have "effects (snd (ws_applyUpdate E p v w)) w"
    by (simp add: ws_applyUpdate_def effects_assign split: option.splits)
  then show ?case
    using Cons by (auto simp: e split: prod.splits option.splits intro: effects_trans [OF Cons])
qed

lemma effects_workspace_update:
  assumes "workspace_update E es c w = Some (res, w')"
  shows "effects w' w"
proof -
  have "effects w1 w" if "ws_apply_updates E es w = (err, w1)" for err w1
    using effects_ws_apply_updates [of E es w] that by simp
  then show ?thesis
    using assms by (auto simp: workspace_update_def split: option.splits prod.splits if_splits)
qed

end
