(* ===== verification/Transition.thy ===== *)
theory Transition
  imports Prelude
begin

text \<open>
  Reachability in a transition system, and the interface under which a state predicate holds
  in every reachable state and a relation between states is kept along every run.
\<close>

inductive reachable :: "('s \<Rightarrow> bool) \<Rightarrow> ('s \<Rightarrow> 's \<Rightarrow> bool) \<Rightarrow> 's \<Rightarrow> bool" for init step where
  reachable_init: "init s \<Longrightarrow> reachable init step s"
| reachable_step: "reachable init step s \<Longrightarrow> step s t \<Longrightarrow> reachable init step t"

inductive_cases reachable_elim: "reachable init step s"

lemma rtranclp_reachable: "step\<^sup>*\<^sup>* s t \<Longrightarrow> reachable init step s \<Longrightarrow> reachable init step t"
  by (induction rule: rtranclp.induct) (auto intro: reachable_step)

locale transition_system =
  fixes init :: "'s \<Rightarrow> bool"
    and step :: "'s \<Rightarrow> 's \<Rightarrow> bool"
    and inv :: "'s \<Rightarrow> bool"
  assumes inv_init: "init s \<Longrightarrow> inv s"
    and inv_step: "inv s \<Longrightarrow> step s t \<Longrightarrow> inv t"
begin

lemma reachable_inv: "reachable init step s \<Longrightarrow> inv s"
  by (induction rule: reachable.induct) (auto intro: inv_init inv_step)

lemma steps_inv: "step\<^sup>*\<^sup>* s t \<Longrightarrow> inv s \<Longrightarrow> inv t"
  by (induction rule: rtranclp.induct) (auto intro: inv_step)

lemma steps_reachable: "step\<^sup>*\<^sup>* s t \<Longrightarrow> reachable init step s \<Longrightarrow> reachable init step t"
  by (rule rtranclp_reachable)

end

text \<open>A preorder that every step from an invariant state respects.\<close>

locale evolving_system = transition_system +
  fixes evolves :: "'a \<Rightarrow> 'a \<Rightarrow> bool"
  assumes evolves_refl: "evolves s s"
    and evolves_trans: "evolves s t \<Longrightarrow> evolves t u \<Longrightarrow> evolves s u"
    and evolves_step: "inv s \<Longrightarrow> step s t \<Longrightarrow> evolves s t"
begin

lemma steps_evolve: "step\<^sup>*\<^sup>* s t \<Longrightarrow> inv s \<Longrightarrow> evolves s t"
proof (induction rule: rtranclp.induct)
  case (rtrancl_refl s)
  then show ?case by (simp add: evolves_refl)
next
  case (rtrancl_into_rtrancl s t u)
  then show ?case by (blast intro: evolves_trans evolves_step steps_inv)
qed

end

text \<open>Every step is matched by steps of an abstract system, so what holds in every state the
  abstract system reaches holds of the abstraction of every reachable state.\<close>

locale simulation = transition_system +
  fixes abs :: "'a \<Rightarrow> 'b"
    and ainit :: "'b \<Rightarrow> bool"
    and astep :: "'b \<Rightarrow> 'b \<Rightarrow> bool"
  assumes abs_init: "init s \<Longrightarrow> ainit (abs s)"
    and abs_step: "inv s \<Longrightarrow> step s t \<Longrightarrow> astep\<^sup>*\<^sup>* (abs s) (abs t)"
begin

lemma steps_abs: "step\<^sup>*\<^sup>* s t \<Longrightarrow> inv s \<Longrightarrow> astep\<^sup>*\<^sup>* (abs s) (abs t)"
proof (induction rule: rtranclp.induct)
  case (rtrancl_into_rtrancl s t u)
  then show ?case by (meson abs_step rtranclp_trans steps_inv)
qed simp

lemma reachable_abs: "reachable init step s \<Longrightarrow> reachable ainit astep (abs s)"
proof (induction rule: reachable.induct)
  case (reachable_init s)
  then show ?case by (simp add: abs_init reachable.reachable_init)
next
  case (reachable_step s t)
  then show ?case
    using abs_step [OF reachable_inv] by (metis rtranclp_reachable)
qed

lemma abs_inv:
  assumes "\<And>a. ainit a \<Longrightarrow> J a" "\<And>a b. J a \<Longrightarrow> astep a b \<Longrightarrow> J b" "reachable init step s"
  shows "J (abs s)"
  using reachable_abs [OF assms(3)] by (induction rule: reachable.induct) (auto intro: assms(1,2))

end

end
