(* ===== verification/Clients.thy ===== *)
theory Clients
  imports Effects Transition
begin

text \<open>
  \<open>kwinscript/src/clients.ts\<close>, the dispatching half of \<open>jsonrpc.ts\<close> and \<open>index.ts\<close>: the
  client registry, the poll loop of each client, the control loop, the table of methods, and
  the start of the script.

  A loop is an asynchronous function. Between two of its \<open>await\<close>s it runs without
  interruption, so its state is the \<open>await\<close> it is suspended at with its live variables, and
  one step runs it to the next \<open>await\<close>.
\<close>

section \<open>State\<close>

text \<open>
  The suspension points of \<open>ClientConnection.run\<close>: the poll, the answer of the JSON-RPC
  server (with the messages of the batch still to dispatch), the end of \<open>dispatchMessage\<close>
  (with the error it threw, if any), the sleep; or the loop has ended.
\<close>

datatype client_loop =
    CPoll nat
  | CReceive "string + jsval" "jsval list"
  | CNext "string option" "jsval list"
  | CSleep nat
  | CStopped

datatype control_loop = KPoll nat | KSleep nat

record world = ws_world +
  connections :: "(number, connref) jsmap"
  loops :: "connref \<Rightarrow> client_loop"
  control :: control_loop

section \<open>Methods and the JSON-RPC server\<close>

type_synonym methods = "(string \<times> world handler) list"

text \<open>
  \<open>rpcServer.receive\<close> of json-rpc-2.0: from the registered methods, the error listener, the
  message and the connection, to the response (or the error it rejects with) and the state
  the methods leave. No value: a method did not return.
\<close>

type_synonym receiver =
  "methods \<Rightarrow> (string \<Rightarrow> exn \<Rightarrow> world \<Rightarrow> world) \<Rightarrow> jsval \<Rightarrow> connref \<Rightarrow> world \<Rightarrow>
     ((string + jsval) \<times> world) option"

definition rpc_methods :: "ext \<Rightarrow> methods" where
  "rpc_methods E =
     [(''windows.update'', method_windows_update E),
      (''windows.query'', method_windows_query E),
      (''window.watch'', method_window_watch E),
      (''token.request'', method_token_request E),
      (''workspace.update'', method_workspace_update E),
      (''workspace.query'', method_workspace_query E),
      (''workspace.watch'', method_workspace_watch E)]"

section \<open>Client loop\<close>

definition set_loop :: "connref \<Rightarrow> client_loop \<Rightarrow> world \<Rightarrow> world" where
  "set_loop c l w = w\<lparr>loops := (loops w)(c := l)\<rparr>"

text \<open>\<open>while (this.alive) { value = await pollClient(this.id)\<close>\<close>

definition run_head :: "ext \<Rightarrow> connref \<Rightarrow> world \<Rightarrow> world" where
  "run_head E c w =
     (if conn_alive w c then (let (i, w1) = pollClient E (conn_id w c) w in set_loop c (CPoll i) w1)
      else set_loop c CStopped w)"

definition client_sleep :: "number \<Rightarrow> connref \<Rightarrow> world \<Rightarrow> world" where
  "client_sleep ms c w = (let (i, w1) = sleep ms w in set_loop c (CSleep i) w1)"

text \<open>The loop over the messages of a batch, up to the next \<open>await\<close>.\<close>

definition dispatch_next :: "ext \<Rightarrow> receiver \<Rightarrow> connref \<Rightarrow> jsval list \<Rightarrow> world \<Rightarrow> world option" where
  "dispatch_next E R c messages w = (case messages of
      [] \<Rightarrow> Some (client_sleep 0 c w)
    | message # rest \<Rightarrow>
        (case R (rpc_methods E) (errorListener E) message c w of
           None \<Rightarrow> None
         | Some (response, w1) \<Rightarrow> Some (set_loop c (CReceive response rest) w1)))"

text \<open>The loop after the poll: the error branch and the three branches on the value.\<close>

definition client_polled :: "ext \<Rightarrow> receiver \<Rightarrow> connref \<Rightarrow> string + jsval \<Rightarrow> world \<Rightarrow> world option" where
  "client_polled E R c result w =
     (if \<not> conn_alive w c then Some (set_loop c CStopped w)
      else case result of
        Inl e \<Rightarrow> Some (client_sleep DBUS_RETRY_DELAY c
          (sendLog ''warn'' (''rpc: client '' @ numberToString E (conn_id w c) @ '' poll failed ('' @ e @
             ''); retrying'') w))
      | Inr (JArr messages) \<Rightarrow> dispatch_next E R c messages w
      | Inr (JStr s) \<Rightarrow> Some (client_sleep DBUS_RETRY_DELAY c
          (sendLog ''warn'' (''rpc: client '' @ numberToString E (conn_id w c) @ '' poll() error: '' @ s) w))
      | Inr _ \<Rightarrow> Some (client_sleep DBUS_RETRY_DELAY c
          (sendLog ''warn'' (''rpc: client '' @ numberToString E (conn_id w c) @
             '': unexpected poll() payload'') w)))"

text \<open>\<open>dispatchMessage\<close> after \<open>receive\<close>, and the loop after \<open>dispatchMessage\<close>.\<close>

definition dispatch_answered ::
  "ext \<Rightarrow> connref \<Rightarrow> string + jsval \<Rightarrow> jsval list \<Rightarrow> world \<Rightarrow> world" where
  "dispatch_answered E c response rest w = (case response of
      Inl e \<Rightarrow> set_loop c (CNext (Some e) rest) w
    | Inr v \<Rightarrow> set_loop c (CNext None rest) (reply_response E c v w))"

definition dispatch_done ::
  "ext \<Rightarrow> receiver \<Rightarrow> connref \<Rightarrow> string option \<Rightarrow> jsval list \<Rightarrow> world \<Rightarrow> world option" where
  "dispatch_done E R c err rest w = dispatch_next E R c rest (case err of
      None \<Rightarrow> w
    | Some e \<Rightarrow> sendLog ''warn'' (''rpc: client '' @ numberToString E (conn_id w c) @
                  '' dispatch error: '' @ e) w)"

text \<open>The awaited promise has settled.\<close>

definition settled :: "'a dbus_world_scheme \<Rightarrow> nat \<Rightarrow> bool" where
  "settled w i \<longleftrightarrow> i < length (promises w) \<and> pr_outcome (promises w ! i) \<noteq> Pending"

definition client_ready :: "world \<Rightarrow> connref \<Rightarrow> bool" where
  "client_ready w c = (case loops w c of
      CPoll i \<Rightarrow> settled w i
    | CSleep i \<Rightarrow> settled w i
    | CReceive _ _ \<Rightarrow> True
    | CNext _ _ \<Rightarrow> True
    | CStopped \<Rightarrow> False)"

text \<open>One step of a client's loop, from the \<open>await\<close> it is at to the next.\<close>

definition client_step :: "ext \<Rightarrow> receiver \<Rightarrow> connref \<Rightarrow> world \<Rightarrow> world option" where
  "client_step E R c w = (case loops w c of
      CPoll i \<Rightarrow> (case poll_value E (pr_outcome (promises w ! i)) of
          None \<Rightarrow> None
        | Some result \<Rightarrow> client_polled E R c result (mark_done i w))
    | CReceive response rest \<Rightarrow> Some (dispatch_answered E c response rest w)
    | CNext err rest \<Rightarrow> dispatch_done E R c err rest w
    | CSleep i \<Rightarrow> Some (run_head E c (mark_done i w))
    | CStopped \<Rightarrow> None)"

section \<open>Connections\<close>

definition onClientConnected :: "ext \<Rightarrow> number \<Rightarrow> world \<Rightarrow> world" where
  "onClientConnected E i w =
     (if jm_has (connections w) i then w
      else
        (let c = nextConn w;
             w1 = w\<lparr>conns := (conns w)(c := \<lparr>cc_id = i, cc_alive = True\<rparr>), nextConn := Suc c,
                    connections := AList.update i c (connections w)\<rparr>
         in run_head E c
              (sendLog ''info'' (''rpc: client '' @ numberToString E i @ '' connected'') w1)))"

definition stop_conn :: "connref \<Rightarrow> 'a conn_world_scheme \<Rightarrow> 'a conn_world_scheme" where
  "stop_conn c w = w\<lparr>conns := (conns w)(c := (conns w c)\<lparr>cc_alive := False\<rparr>)\<rparr>"

definition onClientDisconnected :: "ext \<Rightarrow> number \<Rightarrow> world \<Rightarrow> world" where
  "onClientDisconnected E i w = (case map_of (connections w) i of
      None \<Rightarrow> w
    | Some c \<Rightarrow>
        (let w1 = stop_conn c w;
             w2 = w1\<lparr>connections := AList.delete i (connections w1)\<rparr>;
             w3 = dropClientTokens E i w2;
             w4 = dropClientWorkspaceWatches E i w3
         in sendLog ''info'' (''rpc: client '' @ numberToString E i @ '' disconnected'') w4))"

section \<open>Control loop\<close>

definition control_poll :: "world \<Rightarrow> world" where
  "control_poll w = (let (i, w1) = pollDaemon w in w1\<lparr>control := KPoll i\<rparr>)"

definition control_sleep :: "number \<Rightarrow> world \<Rightarrow> world" where
  "control_sleep ms w = (let (i, w1) = sleep ms w in w1\<lparr>control := KSleep i\<rparr>)"

text \<open>One entry of a control poll. Only objects and arrays pass the first check.\<close>

definition control_event :: "ext \<Rightarrow> jsval \<Rightarrow> world \<Rightarrow> world" where
  "control_event E ev w = (case ev of
      JObj _ \<Rightarrow>
        (case (js_prop ev ''event'', js_prop ev ''id'') of
           (JStr s, JNum i) \<Rightarrow>
             (if s = ''client_connected'' then onClientConnected E i w
              else if s = ''client_disconnected'' then onClientDisconnected E i w
              else w)
         | _ \<Rightarrow> w)
    | _ \<Rightarrow> w)"

definition control_polled :: "ext \<Rightarrow> string + jsval \<Rightarrow> world \<Rightarrow> world" where
  "control_polled E result w = (case result of
      Inl e \<Rightarrow> control_sleep DBUS_RETRY_DELAY
        (sendLog ''warn'' (''rpc: daemon control poll failed ('' @ e @ ''); retrying'') w)
    | Inr (JArr events) \<Rightarrow> control_sleep 0 (fold (control_event E) events w)
    | Inr (JStr s) \<Rightarrow> control_sleep DBUS_RETRY_DELAY
        (sendLog ''warn'' (''rpc: daemon poll() error: '' @ s) w)
    | Inr _ \<Rightarrow> control_poll w)"

definition control_ready :: "world \<Rightarrow> bool" where
  "control_ready w = (case control w of KPoll i \<Rightarrow> settled w i | KSleep i \<Rightarrow> settled w i)"

definition control_step :: "ext \<Rightarrow> world \<Rightarrow> world" where
  "control_step E w = (case control w of
      KPoll i \<Rightarrow> (case poll_value E (pr_outcome (promises w ! i)) of
          None \<Rightarrow> w
        | Some result \<Rightarrow> control_polled E result (mark_done i w))
    | KSleep i \<Rightarrow> control_poll (mark_done i w))"

section \<open>Start of the script\<close>

definition startControlLoop :: "world \<Rightarrow> world" where
  "startControlLoop w = control_poll (sendLog ''info'' ''rpc: control loop started'' w)"

text \<open>The state before any module has run.\<close>

definition blank_world :: "native \<Rightarrow> world" where
  "blank_world n =
     \<lparr>native = n, slots = [], nextFn = 0, promises = [], printed = [],
      conns = (\<lambda>_. \<lparr>cc_id = 0, cc_alive = False\<rparr>), nextConn = 0,
      desktopsById = [], activitiesById = [], watchesByToken = [],
      byToken = [], byWindow = [], entries = (\<lambda>_. new_entry [] 0 0), nextEntry = 0, rng = 0,
      watchesByClient = [], connections = [], loops = (\<lambda>_. CStopped), control = KPoll 0\<rparr>"

text \<open>\<open>index.ts\<close>: the modules run in import order, then the script reports and starts the
  control loop.\<close>

definition load_script :: "ext \<Rightarrow> native \<Rightarrow> world" where
  "load_script E n = startControlLoop
     (print ''[kwinscript] loaded by kwin-api-server''
       (sendLog ''info'' ''kwinscript loaded''
         (load_tokens E (load_windows E (blank_world n)))))"

section \<open>Steps\<close>

text \<open>
  Everything that can happen next: a token deadline fires, KWin emits a signal of a live
  object, a D-Bus reply arrives, a call or sleep times out, a log or push call continues
  after it settled, the control loop or a client's loop continues.
\<close>

inductive step :: "ext \<Rightarrow> receiver \<Rightarrow> world \<Rightarrow> world \<Rightarrow> bool" for E R where
  step_deadline:
    "r < nextEntry w \<Longrightarrow> tm_active (te_timer (entries w r)) \<Longrightarrow> step E R w (deadline_fires E r w)"
| step_signal:
    "kwin_evolves E (native w) n \<Longrightarrow> \<not> dead_signal E n sig \<Longrightarrow>
       step E R w (kwin_signal E (n, sig, arg) w)"
| step_reply:
    "i < length (promises w) \<Longrightarrow> pr_call (promises w ! i) \<noteq> None \<Longrightarrow> step E R w (dbus_reply i v w)"
| step_timeout:
    "i < length (promises w) \<Longrightarrow> tm_active (pr_timer (promises w ! i)) \<Longrightarrow>
       step E R w (promise_timeout E i w)"
| step_reaction:
    "i < length (promises w) \<Longrightarrow> step E R w (promise_reaction E i w)"
| step_control:
    "control_ready w \<Longrightarrow> step E R w (control_step E w)"
| step_client:
    "c < nextConn w \<Longrightarrow> client_ready w c \<Longrightarrow> client_step E R c w = Some w' \<Longrightarrow> step E R w w'"

inductive_cases step_elim: "step E R w w'"

definition script_init :: "ext \<Rightarrow> world \<Rightarrow> bool" where
  "script_init E w \<longleftrightarrow> (\<exists>n. w = load_script E n)"

abbreviation script_reachable :: "ext \<Rightarrow> receiver \<Rightarrow> world \<Rightarrow> bool" where
  "script_reachable E R \<equiv> reachable (script_init E) (step E R)"

end
