(* ===== verification/Client_Lemmas.thy ===== *)
theory Client_Lemmas
  imports Clients
begin

text \<open>
  The invariant of the whole script and its preservation by every step: the registries
  (\<open>full_inv\<close>), the catalog, well-formed tokens of known connections, the connection table,
  and the correspondence between the loops and the promises they await.
\<close>

section \<open>What the JSON-RPC server may do\<close>

text \<open>Running a message changes the state only by calling registered methods for that
  connection, and the error listener.\<close>

inductive runs :: "methods \<Rightarrow> (string \<Rightarrow> exn \<Rightarrow> world \<Rightarrow> world) \<Rightarrow> connref \<Rightarrow> world \<Rightarrow> world \<Rightarrow> bool"
  for ms listener c w where
  runs_refl: "runs ms listener c w w"
| runs_method: "runs ms listener c w w1 \<Longrightarrow> (name, h) \<in> set ms \<Longrightarrow> h params c w1 = Some (res, w2) \<Longrightarrow>
    runs ms listener c w w2"
| runs_listener: "runs ms listener c w w1 \<Longrightarrow> runs ms listener c w (listener message e w1)"

definition receiver_documented :: "receiver \<Rightarrow> bool" where
  "receiver_documented R \<longleftrightarrow>
     (\<forall>ms listener message c w res w'. R ms listener message c w = Some (res, w') \<longrightarrow>
        runs ms listener c w w')"

section \<open>The registries below the clients\<close>

definition registry_wf :: "ext \<Rightarrow> 'a token_world_scheme \<Rightarrow> bool" where
  "registry_wf E w \<longleftrightarrow> (\<forall>t r. map_of (byToken w) t = Some r \<longrightarrow>
     te_conn (entries w r) < nextConn w \<and> (random_documented E \<longrightarrow> well_formed_token t))"

definition good :: "ext \<Rightarrow> 'a ws_world_scheme \<Rightarrow> bool" where
  "good E w \<longleftrightarrow> full_inv E w \<and> catalog_ok w \<and> registry_wf E w"

lemma goodD: "good E w \<Longrightarrow> full_inv E w" "good E w \<Longrightarrow> catalog_ok w" "good E w \<Longrightarrow> registry_wf E w"
  by (simp_all add: good_def)

lemma effects_good:
  assumes "good E w" "full_inv E w'" "effects w' w" "nextConn w \<le> nextConn w'"
  shows "good E w'"
proof -
  have "te_conn (entries w' r) < nextConn w' \<and> (random_documented E \<longrightarrow> well_formed_token t)"
    if "map_of (byToken w') t = Some r" for t r
  proof -
    have "map_of (byToken w) t = Some r"
      using assms(3) that by (auto simp: effects_def map_le_def dom_def)
    then show ?thesis
      using assms by (fastforce simp: good_def registry_wf_def effects_def)
  qed
  then show ?thesis
    using assms by (simp add: good_def registry_wf_def effects_def)
qed

lemma effects_sends: "effects w' w \<Longrightarrow> sends w' w"
  by (simp add: effects_def)

text \<open>An operation from below that keeps the registries and the state above.\<close>

definition inner_step :: "ext \<Rightarrow> 'a ws_world_scheme \<Rightarrow> 'a ws_world_scheme \<Rightarrow> bool" where
  "inner_step E w w' \<longleftrightarrow> good E w' \<and> same_outer w' w \<and> sends w' w"

lemma inner_step_effects:
  "good E w \<Longrightarrow> full_inv E w' \<Longrightarrow> same_outer w' w \<Longrightarrow> effects w' w \<Longrightarrow> inner_step E w w'"
  by (auto simp: inner_step_def effects_sends same_outer_def intro: effects_good)

lemma inner_step_refl: "good E w \<Longrightarrow> inner_step E w w"
  by (simp add: inner_step_def)

lemma inner_step_trans: "inner_step E w w1 \<Longrightarrow> inner_step E w1 w2 \<Longrightarrow> inner_step E w w2"
  by (auto simp: inner_step_def intro: same_outer_trans sends_trans)

lemma inner_step_good: "inner_step E w w' \<Longrightarrow> good E w'"
  by (simp add: inner_step_def)

lemma inner_step_log: "good E w \<Longrightarrow> inner_step E w (sendLog l m w)"
  by (rule inner_step_effects) (simp_all add: goodD)

lemma inner_step_untouched:
  "good E w \<Longrightarrow> script_inv E w' \<Longrightarrow> ws_untouched w' w \<Longrightarrow> effects w' w \<Longrightarrow> inner_step E w w'"
  by (rule inner_step_effects) (blast intro: goodD(1) full_inv_untouched same_outer_untouched)+

lemma inner_step_token_request:
  assumes "good E w" "c < nextConn w" "token_request E ms c w = Some (res, w')"
  shows "inner_step E w w'"
proof -
  note inv = goodD(1) [OF assms(1)]
  note un = ws_untouched_token_request [OF assms(3)]
  have full: "full_inv E w'"
    by (rule full_inv_untouched [OF inv script_inv_token_request [OF full_invD(1) [OF inv] assms(3)] un])
  obtain tok n where gen: "sample_loop E (byToken w) (rng w) = Some (tok, n)"
    using assms(3) by (auto simp: token_request_def generateToken_def split: option.splits)
  let ?v = "w\<lparr>rng := n, entries := (entries w)(nextEntry w := new_entry tok c ms),
    nextEntry := Suc (nextEntry w), byToken := AList.update tok (nextEntry w) (byToken w)\<rparr>"
  have w': "\<exists>m. w' = sendLog ''info'' m ?v"
    using assms(3) gen by (auto simp: token_request_def generateToken_def Let_def)
  have old: "r \<noteq> nextEntry w" if "map_of (byToken w) t = Some r" for t r
    using tok_inv_token [OF script_invD(3) [OF full_invD(1) [OF inv]] that] by simp
  have "well_formed_token tok" if "random_documented E"
    using sample_loop_Some [OF gen] sample_token_well_formed [OF that] by auto
  then have "registry_wf E w'"
    using w' goodD(3) [OF assms(1)] assms(2) old by (auto simp: registry_wf_def new_entry_def split: if_splits)
  moreover have "catalog_ok w'"
    using w' goodD(2) [OF assms(1)] by (auto simp: catalog_ok_def)
  moreover have "sends w' w"
    using w' by (auto intro: sends_trans [OF sends_log sends_promises])
  ultimately show ?thesis
    using full same_outer_untouched [OF un] by (simp add: inner_step_def good_def)
qed

section \<open>Methods\<close>

lemma registerMethod_runs:
  assumes "registerMethod E schema (typed_handler E dec h) ps c w = Some (res, w')"
  shows "w' = w \<or> (\<exists>p. h p c w = Some (res, w'))"
  using assms by (auto simp: registerMethod_def typed_handler_def split: sum.splits option.splits)

lemma inner_step_registered:
  assumes "registerMethod E schema (typed_handler E dec h) ps c w = Some (res, w')" "good E w"
    and "\<And>p r v. h p c w = Some (r, v) \<Longrightarrow> inner_step E w v"
  shows "inner_step E w w'"
  using registerMethod_runs [OF assms(1)] assms(2,3) inner_step_refl by blast

lemma inner_step_method:
  assumes E: "kwin_documented E" and g: "good E w" and c: "c < nextConn w"
    and m: "(name, h) \<in> set (rpc_methods E)" and run: "h ps c w = Some (res, w')"
  shows "inner_step E w w'"
proof -
  note inv = goodD(1) [OF g]
  have eff: "inner_step E w v" if "full_inv E v \<and> same_outer v w" "effects v w" for v :: world
    using that g by (auto intro: inner_step_effects)
  from m consider
      "h = method_windows_update E" | "h = method_windows_query E" | "h = method_window_watch E"
    | "h = method_token_request E" | "h = method_workspace_update E" | "h = method_workspace_query E"
    | "h = method_workspace_watch E"
    by (auto simp: rpc_methods_def)
  then show ?thesis
  proof cases
    case 1
    show ?thesis
      by (rule inner_step_registered [OF run [unfolded 1 method_windows_update_def] g])
        (rule eff, erule windows_update_inv [OF E inv], erule effects_windows_update)
  next
    case 2
    show ?thesis
      by (rule inner_step_registered [OF run [unfolded 2 method_windows_query_def] g])
        (auto dest!: windows_query_same intro: inner_step_refl [OF g])
  next
    case 3
    show ?thesis
      by (rule inner_step_registered [OF run [unfolded 3 method_window_watch_def] g])
        (rule eff, erule window_watch_inv [OF inv], erule effects_window_watch)
  next
    case 4
    show ?thesis
      by (rule inner_step_registered [OF run [unfolded 4 method_token_request_def] g])
        (erule inner_step_token_request [OF g c])
  next
    case 5
    show ?thesis
      by (rule inner_step_registered [OF run [unfolded 5 method_workspace_update_def] g])
        (rule eff, erule workspace_update_inv [OF E inv], erule effects_workspace_update)
  next
    case 6
    show ?thesis
      by (rule inner_step_registered [OF run [unfolded 6 method_workspace_query_def] g])
        (auto dest!: workspace_query_same intro: inner_step_refl [OF g])
  next
    case 7
    show ?thesis
      by (rule inner_step_registered [OF run [unfolded 7 method_workspace_watch_def] g])
        (rule eff, erule workspace_watch_inv [OF inv c], erule effects_workspace_watch)
  qed
qed

lemma inner_step_runs:
  assumes E: "kwin_documented E" and g: "good E w" and c: "c < nextConn w"
  shows "runs (rpc_methods E) (errorListener E) c w w' \<Longrightarrow> inner_step E w w'"
proof (induction rule: runs.induct)
  case runs_refl
  then show ?case by (rule inner_step_refl [OF g])
next
  case (runs_method w1 name h params res w2)
  have "good E w1" "c < nextConn w1"
    using runs_method.IH c by (simp_all add: inner_step_def same_outer_def)
  from inner_step_method [OF E this runs_method(2,3)] show ?case
    by (rule inner_step_trans [OF runs_method.IH])
next
  case (runs_listener w1 message e)
  show ?case
    using runs_listener.IH inner_step_log [OF inner_step_good [OF runs_listener.IH]]
    by (cases e) (auto intro: inner_step_trans)
qed

lemma inner_step_receive:
  assumes "kwin_documented E" "receiver_documented R" "good E w" "c < nextConn w"
    and "R (rpc_methods E) (errorListener E) message c w = Some (res, w')"
  shows "inner_step E w w'"
  using assms(2,5) by (intro inner_step_runs [OF assms(1,3,4)]) (simp add: receiver_documented_def)

lemma inner_step_events:
  assumes "good E w"
  shows "r < nextEntry w \<Longrightarrow> tm_active (te_timer (entries w r)) \<Longrightarrow> inner_step E w (deadline_fires E r w)"
    and "kwin_evolves E (native w) n \<Longrightarrow> inner_step E w (kwin_signal E (n, sig, arg) w)"
proof -
  note inv = full_invD(1) [OF goodD(1) [OF assms]]
  show "inner_step E w (deadline_fires E r w)"
    if "r < nextEntry w" "tm_active (te_timer (entries w r))"
    using that by (intro inner_step_untouched [OF assms] script_inv_deadline [OF inv]
        ws_untouched_events(3) [OF inv] effects_events(3))
  show "inner_step E w (kwin_signal E (n, sig, arg) w)" if "kwin_evolves E (native w) n"
    by (rule inner_step_effects [OF assms kwin_signal_inv(1,2) [OF goodD(1) [OF assms] that] effects_kwin_signal])
qed

section \<open>Calls and loops\<close>

text \<open>Calls, connections and loops are outside of what the registries' invariant reads,
  except for the ids of known connections.\<close>

lemma good_change:
  assumes g: "good E w" and d: "dbus_inv w'"
    and same: "native w' = native w" "slots w' = slots w" "nextFn w' = nextFn w"
      "desktopsById w' = desktopsById w" "watchesByToken w' = watchesByToken w"
      "byToken w' = byToken w" "byWindow w' = byWindow w" "entries w' = entries w"
      "nextEntry w' = nextEntry w" "watchesByClient w' = watchesByClient w"
    and ids: "\<And>c. c < nextConn w \<Longrightarrow> conn_id w' c = conn_id w c" and le: "nextConn w \<le> nextConn w'"
  shows "good E w'"
proof -
  note f = goodD(1) [OF g]
  have "watch_inv E w' = watch_inv E w" "tok_inv w' = tok_inv w" "owner_inv w' = owner_inv w"
    by (rule watch_inv_cong [OF same(5,2,3,1)] tok_inv_cong [OF same(6-9)]
        owner_inv_cong [OF same(6,8,5)])+
  then have "script_inv E w'"
    using d script_invD [OF full_invD(1) [OF f]] by (simp add: script_inv_def)
  moreover have "ws_inv E w'"
    by (rule ws_inv_mono [OF full_invD(2) [OF f]]) (use same ids le in \<open>simp_all add: ws_handlers_def\<close>)
  moreover have "registry_wf E w'"
    using goodD(3) [OF g] same le by (fastforce simp: registry_wf_def)
  ultimately show ?thesis
    using goodD(2) [OF g] same by (simp add: good_def full_inv_def catalog_ok_def)
qed

lemma good_calls:
  assumes "good E w" "dbus_inv (w\<lparr>promises := ps, printed := pr\<rparr>)"
  shows "good E (w\<lparr>promises := ps, printed := pr\<rparr>)"
  by (rule good_change [OF assms]) simp_all

lemma good_dbus: "good E w \<Longrightarrow> dbus_inv w"
  by (simp add: good_def full_inv_def script_inv_def)

lemma inner_step_send:
  assumes "good E w"
  shows "inner_step E w (send E c m w)"
proof -
  obtain ps where s: "send E c m w = w\<lparr>promises := ps, printed := printed w\<rparr>"
    by (simp add: send_def dbus_defs)
  have "good E (send E c m w)"
    unfolding s by (rule good_calls [OF assms]) (use dbus_inv_send [OF good_dbus [OF assms]] s in metis)
  moreover have "sends (send E c m w) w"
    by (simp add: send_def)
  moreover have "same_outer (send E c m w) w"
    by (simp add: same_outer_def s)
  ultimately show ?thesis by (simp add: inner_step_def)
qed

lemma inner_step_reply_response:
  assumes "good E w"
  shows "inner_step E w (reply_response E c v w)"
  using inner_step_send [OF assms] inner_step_refl [OF assms]
  by (auto simp: reply_response_def Let_def split: jsval.splits)

section \<open>Loops and the promises they await\<close>

datatype owner = Control | Client connref

fun awaiting :: "world \<Rightarrow> owner \<Rightarrow> nat option" where
  "awaiting w Control = (case control w of KPoll i \<Rightarrow> Some i | KSleep i \<Rightarrow> Some i)"
| "awaiting w (Client c) = (case loops w c of CPoll i \<Rightarrow> Some i | CSleep i \<Rightarrow> Some i | _ \<Rightarrow> None)"

text \<open>The kind of promise a loop awaits and, for a poll, the object it polls.\<close>

fun expected :: "ext \<Rightarrow> world \<Rightarrow> owner \<Rightarrow> (waiter \<times> string option) option" where
  "expected E w Control = (case control w of
      KPoll _ \<Rightarrow> Some (WaitPoll, Some DAEMON_DBUS_PATH) | KSleep _ \<Rightarrow> Some (WaitSleep, None))"
| "expected E w (Client c) = (case loops w c of
      CPoll _ \<Rightarrow> Some (WaitPoll, Some (client_path E (conn_id w c)))
    | CSleep _ \<Rightarrow> Some (WaitSleep, None)
    | _ \<Rightarrow> None)"

definition kind :: "promise \<Rightarrow> waiter \<times> string option" where
  "kind p = (pr_waiter p, map_option dc_path (pr_call p))"

definition waits :: "promise \<Rightarrow> bool" where
  "waits p \<longleftrightarrow> (pr_waiter p = WaitPoll \<or> pr_waiter p = WaitSleep) \<and> \<not> pr_done p"

text \<open>The loop that is running, if any, awaits nothing.\<close>

definition awaited :: "owner option \<Rightarrow> world \<Rightarrow> owner \<Rightarrow> nat option" where
  "awaited r w ow = (if r = Some ow then None else awaiting w ow)"

definition loop_inv :: "ext \<Rightarrow> owner option \<Rightarrow> world \<Rightarrow> bool" where
  "loop_inv E r w \<longleftrightarrow>
     (\<forall>ow i. awaited r w ow = Some i \<longrightarrow> i < length (promises w) \<and> \<not> pr_done (promises w ! i) \<and>
        expected E w ow = Some (kind (promises w ! i))) \<and>
     (\<forall>ow ow' i. awaited r w ow = Some i \<longrightarrow> awaited r w ow' = Some i \<longrightarrow> ow = ow') \<and>
     (\<forall>i < length (promises w). waits (promises w ! i) \<longrightarrow> (\<exists>ow. awaited r w ow = Some i))"

lemma loop_invI:
  assumes "\<And>ow i. awaited r w ow = Some i \<Longrightarrow> i < length (promises w) \<and> \<not> pr_done (promises w ! i) \<and>
        expected E w ow = Some (kind (promises w ! i))"
    and "\<And>ow ow' i. awaited r w ow = Some i \<Longrightarrow> awaited r w ow' = Some i \<Longrightarrow> ow = ow'"
    and "\<And>i. i < length (promises w) \<Longrightarrow> waits (promises w ! i) \<Longrightarrow> \<exists>ow. awaited r w ow = Some i"
  shows "loop_inv E r w"
  using assms by (auto simp: loop_inv_def)

lemma loop_invD:
  assumes "loop_inv E r w"
  shows loop_inv_awaited: "awaited r w ow = Some i \<Longrightarrow> i < length (promises w) \<and>
      \<not> pr_done (promises w ! i) \<and> expected E w ow = Some (kind (promises w ! i))"
    and loop_inv_inj: "awaited r w ow = Some i \<Longrightarrow> awaited r w ow' = Some i \<Longrightarrow> ow = ow'"
    and loop_inv_waits: "i < length (promises w) \<Longrightarrow> waits (promises w ! i) \<Longrightarrow>
      \<exists>ow. awaited r w ow = Some i"
  using assms unfolding loop_inv_def by blast+

lemma awaiting_cong:
  assumes "control w' = control w" "loops w' = loops w"
  shows "awaiting w' = awaiting w"
proof
  show "awaiting w' ow = awaiting w ow" for ow by (cases ow) (simp_all add: assms)
qed

lemma expected_cong:
  assumes "control w' = control w" "loops w' = loops w"
    and "\<And>c i. loops w c = CPoll i \<Longrightarrow> conn_id w' c = conn_id w c"
  shows "expected E w' = expected E w"
proof
  show "expected E w' ow = expected E w ow" for ow
    by (cases ow) (simp_all add: assms split: client_loop.splits)
qed

lemma loop_inv_sends:
  assumes inv: "loop_inv E r w" and ps: "promises w' = promises w @ ps" "list_all is_send ps"
    and same: "awaiting w' = awaiting w" "expected E w' = expected E w"
  shows "loop_inv E r w'"
proof (rule loop_invI)
  have aw: "awaited r w' = awaited r w"
    by (simp add: awaited_def same fun_eq_iff)
  show "i < length (promises w') \<and> \<not> pr_done (promises w' ! i) \<and>
      expected E w' ow = Some (kind (promises w' ! i))" if "awaited r w' ow = Some i" for ow i
    using loop_inv_awaited [OF inv, of ow i] that by (simp add: aw same ps nth_append)
  show "ow = ow'" if "awaited r w' ow = Some i" "awaited r w' ow' = Some i" for ow ow' i
    using that unfolding aw by (rule loop_inv_inj [OF inv])
  show "\<exists>ow. awaited r w' ow = Some i" if "i < length (promises w')" "waits (promises w' ! i)" for i
  proof (cases "i < length (promises w)")
    case True
    then show ?thesis using loop_inv_waits [OF inv True] that by (simp add: aw ps nth_append)
  next
    case False
    then have "is_send (promises w' ! i)"
      using that(1) ps by (simp add: nth_append list_all_length)
    then show ?thesis using that(2) by (auto simp: is_send_def waits_def)
  qed
qed

lemma loop_inv_update:
  assumes inv: "loop_inv E r w" and ps: "promises w' = (promises w)[i := p]"
    and p: "kind p = kind (promises w ! i)" "\<And>ow. awaited r w ow = Some i \<Longrightarrow> \<not> pr_done p"
      "waits p \<Longrightarrow> waits (promises w ! i)"
    and same: "awaiting w' = awaiting w" "expected E w' = expected E w"
  shows "loop_inv E r w'"
proof (rule loop_invI)
  have aw: "awaited r w' = awaited r w"
    by (simp add: awaited_def same fun_eq_iff)
  show "j < length (promises w') \<and> \<not> pr_done (promises w' ! j) \<and>
      expected E w' ow = Some (kind (promises w' ! j))" if "awaited r w' ow = Some j" for ow j
    using loop_inv_awaited [OF inv, of ow j] that p(1) p(2) [of ow]
    by (cases "j = i") (auto simp: aw same ps)
  show "ow = ow'" if "awaited r w' ow = Some j" "awaited r w' ow' = Some j" for ow ow' j
    using that unfolding aw by (rule loop_inv_inj [OF inv])
  show "\<exists>ow. awaited r w' ow = Some j" if "j < length (promises w')" "waits (promises w' ! j)" for j
    using loop_inv_waits [OF inv, of j] that p(3) by (cases "j = i") (auto simp: aw ps)
qed

text \<open>A loop continues: the promise it awaited is done and it awaits nothing.\<close>

lemma loop_inv_resume:
  assumes inv: "loop_inv E None w" and aw: "awaiting w ow = Some i"
  shows "loop_inv E (Some ow) (mark_done i w)"
proof -
  have i: "i < length (promises w)"
    using loop_inv_awaited [OF inv, of ow i] aw by (simp add: awaited_def)
  have same: "awaiting (mark_done i w) = awaiting w" "expected E (mark_done i w) = expected E w"
    by (rule awaiting_cong expected_cong; simp add: mark_done_def)+
  have ne: "j \<noteq> i" if "awaited (Some ow) w o' = Some j" for o' j
    using that loop_inv_inj [OF inv, of ow i o'] aw by (auto simp: awaited_def split: if_splits)
  show ?thesis
  proof (rule loop_invI)
    fix o' j
    assume "awaited (Some ow) (mark_done i w) o' = Some j"
    then have a: "awaited (Some ow) w o' = Some j" by (simp add: awaited_def same split: if_splits)
    then show "j < length (promises (mark_done i w)) \<and> \<not> pr_done (promises (mark_done i w) ! j) \<and>
        expected E (mark_done i w) o' = Some (kind (promises (mark_done i w) ! j))"
      using loop_inv_awaited [OF inv, of o' j] ne [OF a] unfolding same
      by (auto simp: mark_done_def awaited_def split: if_splits)
  next
    fix o1 o2 j
    assume "awaited (Some ow) (mark_done i w) o1 = Some j" "awaited (Some ow) (mark_done i w) o2 = Some j"
    then show "o1 = o2"
      using loop_inv_inj [OF inv, of o1 j o2] by (auto simp: awaited_def same split: if_splits)
  next
    fix j
    assume "j < length (promises (mark_done i w))" "waits (promises (mark_done i w) ! j)"
    then have j: "j < length (promises w)" "j \<noteq> i" "waits (promises w ! j)"
      using i by (auto simp: mark_done_def waits_def nth_list_update split: if_splits)
    from loop_inv_waits [OF inv j(1,3)] obtain o' where o': "awaiting w o' = Some j"
      by (auto simp: awaited_def)
    then have "o' \<noteq> ow" using aw j(2) by auto
    then show "\<exists>o'. awaited (Some ow) (mark_done i w) o' = Some j"
      using o' by (auto simp: awaited_def same)
  qed
qed

text \<open>A loop that awaits nothing suspends at a new promise, or ends its turn without one.\<close>

lemma loop_inv_suspend:
  assumes inv: "loop_inv E r w" and free: "awaited r w ow = None"
    and ps: "promises w' = promises w @ [p]" "\<not> pr_done p"
    and aw: "awaiting w' = (awaiting w)(ow := Some (length (promises w)))"
    and ex: "expected E w' ow = Some (kind p)" "\<And>o'. o' \<noteq> ow \<Longrightarrow> expected E w' o' = expected E w o'"
  shows "loop_inv E (if r = Some ow then None else r) w'"
proof -
  let ?r = "if r = Some ow then None else r"
  have new: "awaited ?r w' = (awaited r w)(ow := Some (length (promises w)))"
    by (auto simp: awaited_def aw fun_eq_iff)
  have lt: "i < length (promises w)" if "awaited r w o' = Some i" for o' i
    using loop_inv_awaited [OF inv that] by simp
  show ?thesis
  proof (rule loop_invI)
    fix o' i
    assume "awaited ?r w' o' = Some i"
    then show "i < length (promises w') \<and> \<not> pr_done (promises w' ! i) \<and>
        expected E w' o' = Some (kind (promises w' ! i))"
      using loop_inv_awaited [OF inv, of o' i] ps ex
      by (auto simp: new nth_append split: if_splits)
  next
    fix o1 o2 i
    assume "awaited ?r w' o1 = Some i" "awaited ?r w' o2 = Some i"
    then show "o1 = o2"
      using loop_inv_inj [OF inv, of o1 i o2] lt [of o1 i] lt [of o2 i] by (auto simp: new split: if_splits)
  next
    fix i
    assume i: "i < length (promises w')" "waits (promises w' ! i)"
    show "\<exists>o'. awaited ?r w' o' = Some i"
    proof (cases "i = length (promises w)")
      case True
      then show ?thesis by (auto simp: new)
    next
      case False
      then have "i < length (promises w)" "waits (promises w ! i)"
        using i ps by (auto simp: nth_append)
      from loop_inv_waits [OF inv this] obtain o' where o': "awaited r w o' = Some i" ..
      then have "o' \<noteq> ow" using free by auto
      with o' show ?thesis by (auto simp: new)
    qed
  qed
qed

lemma loop_inv_quit:
  assumes inv: "loop_inv E r w" and free: "awaited r w ow = None"
    and ps: "promises w' = promises w" and aw: "awaiting w' = (awaiting w)(ow := None)"
    and ex: "\<And>o'. o' \<noteq> ow \<Longrightarrow> expected E w' o' = expected E w o'"
  shows "loop_inv E (if r = Some ow then None else r) w'"
proof -
  have new: "awaited (if r = Some ow then None else r) w' = awaited r w"
    using free by (auto simp: awaited_def aw fun_eq_iff)
  have ne: "o' \<noteq> ow" if "awaited r w o' = Some i" for o' i
    using that free by auto
  show ?thesis
    by (rule loop_invI; unfold new ps)
      (use ne ex loop_inv_awaited [OF inv] loop_inv_inj [OF inv] loop_inv_waits [OF inv] in \<open>auto\<close>)
qed

end
