(* ===== verification/Script_Invariant.thy ===== *)
theory Script_Invariant
  imports Client_Lemmas
begin

text \<open>
  The invariant of the script holds when it has loaded and every step keeps it; the
  transition system of the script interprets \<open>evolving_system\<close>.
\<close>

section \<open>Live watch slots\<close>

text \<open>A watch slot connected to a live signal is the registered one, of the token's owner.\<close>

lemma live_window_slot:
  assumes "full_inv E w" "(sig, SlotWindowWatch n t c wd p) \<in> set (slots w)" "\<not> dead_signal E (native w) sig"
  shows "sig = propSignal wd p" "resolveTokenWindow t c w = Inr wd" "window_watched w t p"
    "registered w t wd p (SlotWindowWatch n t c wd p)"
proof -
  note s = full_invD(1) [OF assms(1)]
  have r: "sig = propSignal wd p" "registered w t wd p (SlotWindowWatch n t c wd p)"
    using watch_inv_slot [OF script_invD(2) [OF s] assms(2)] assms(3) by auto
  moreover from this obtain st where "map_of (watchesByToken w) t = Some st" "wst_window st = wd"
    "map_of (wst_handlers st) p = Some (SlotWindowWatch n t c wd p)"
    by (auto simp: registered_def split: option.splits)
  moreover from this have "resolveTokenWindow t c w = Inr wd"
    using script_invD(4) [OF s] unfolding owner_inv_def owned_watch_def resolveTokenWindow_iff by metis
  ultimately show "sig = propSignal wd p" "resolveTokenWindow t c w = Inr wd" "window_watched w t p"
    "registered w t wd p (SlotWindowWatch n t c wd p)"
    by (simp_all add: window_watched_def)
qed

lemma live_workspace_slot:
  assumes "full_inv E w" "(sig, SlotWorkspaceWatch n c p) \<in> set (slots w)" "\<not> dead_signal E (native w) sig"
  shows "sig = workspaceSignal p" "ws_watched w (conn_id w c) p"
proof -
  have "sig = workspaceSignal p" "ws_registered w c p (SlotWorkspaceWatch n c p)"
    using ws_inv_slot [OF full_invD(2) [OF assms(1)] assms(2)] assms(3) by auto
  then show "sig = workspaceSignal p" "ws_watched w (conn_id w c) p"
    by (simp_all add: ws_watched_handlers ws_registered_def)
qed

section \<open>Connections\<close>

text \<open>The connection table holds exactly the live connections, under their ids.\<close>

definition conn_inv :: "world \<Rightarrow> bool" where
  "conn_inv w \<longleftrightarrow>
     distinct (map fst (connections w)) \<and>
     (\<forall>i c. map_of (connections w) i = Some c \<longrightarrow> c < nextConn w \<and> conn_id w c = i \<and> conn_alive w c) \<and>
     (\<forall>c < nextConn w. conn_alive w c \<longrightarrow> map_of (connections w) (conn_id w c) = Some c) \<and>
     (\<forall>c \<ge> nextConn w. loops w c = CStopped \<and> \<not> conn_alive w c)"

lemma conn_invD:
  assumes "conn_inv w"
  shows "distinct (map fst (connections w))"
    and "map_of (connections w) i = Some c \<Longrightarrow> c < nextConn w \<and> conn_id w c = i \<and> conn_alive w c"
    and "c < nextConn w \<Longrightarrow> conn_alive w c \<Longrightarrow> map_of (connections w) (conn_id w c) = Some c"
    and "nextConn w \<le> c \<Longrightarrow> loops w c = CStopped"
    and "nextConn w \<le> c \<Longrightarrow> \<not> conn_alive w c"
  using assms unfolding conn_inv_def by blast+

lemma conn_inv_cong:
  assumes "conns w' = conns w" "nextConn w' = nextConn w" "connections w' = connections w"
    and "\<And>c. nextConn w \<le> c \<Longrightarrow> loops w' c = loops w c"
  shows "conn_inv w \<Longrightarrow> conn_inv w'"
  using assms(4) unfolding conn_inv_def assms(1-3) by auto

definition world_inv :: "ext \<Rightarrow> owner option \<Rightarrow> world \<Rightarrow> bool" where
  "world_inv E r w \<longleftrightarrow> good E w \<and> conn_inv w \<and> loop_inv E r w"

lemma world_invD:
  "world_inv E r w \<Longrightarrow> good E w" "world_inv E r w \<Longrightarrow> conn_inv w" "world_inv E r w \<Longrightarrow> loop_inv E r w"
  by (simp_all add: world_inv_def)

lemma world_inv_full: "world_inv E r w \<Longrightarrow> full_inv E w"
  by (simp add: world_inv_def good_def)

lemma world_inv_script: "world_inv E r w \<Longrightarrow> script_inv E w"
  by (simp add: world_inv_def good_def full_inv_def)

lemma world_inv_tok: "world_inv E r w \<Longrightarrow> tok_inv w"
  by (rule script_invD(3) [OF world_inv_script])

lemma outer_fields:
  assumes "same_outer w' w"
  shows "conns w' = conns w" "nextConn w' = nextConn w" "connections w' = connections w"
    "loops w' = loops w" "control w' = control w"
  using assms by (cases w', cases w, simp add: same_outer_def)+

lemma world_inv_inner:
  assumes "world_inv E r w" "inner_step E w w'"
  shows "world_inv E r w'"
proof -
  note out = outer_fields [of w' w]
  have o: "same_outer w' w" and s: "sends w' w" and g: "good E w'"
    using assms(2) by (simp_all add: inner_step_def)
  obtain ps where ps: "promises w' = promises w @ ps" "list_all is_send ps"
    using s by (auto simp: sends_def)
  have "awaiting w' = awaiting w" "expected E w' = expected E w"
    by (rule awaiting_cong expected_cong; simp add: out [OF o])+
  then have "loop_inv E r w'"
    by (rule loop_inv_sends [OF world_invD(3) [OF assms(1)] ps])
  moreover have "conn_inv w'"
    by (rule conn_inv_cong [OF _ _ _ _ world_invD(2) [OF assms(1)]]) (simp_all add: out [OF o])
  ultimately show ?thesis
    using g by (simp add: world_inv_def)
qed

lemma world_inv_log: "world_inv E r w \<Longrightarrow> world_inv E r (sendLog l m w)"
  by (rule world_inv_inner) (auto intro: inner_step_log world_invD)

section \<open>Calls settle and continue\<close>

lemma world_inv_update:
  assumes inv: "world_inv E r w" and d: "dbus_inv (w\<lparr>promises := (promises w)[i := p]\<rparr>)"
    and p: "kind p = kind (promises w ! i)" "\<And>ow. awaited r w ow = Some i \<Longrightarrow> \<not> pr_done p"
      "waits p \<Longrightarrow> waits (promises w ! i)"
  shows "world_inv E r (w\<lparr>promises := (promises w)[i := p]\<rparr>)" (is "world_inv E r ?w")
proof -
  have "good E ?w"
    by (rule good_change [OF world_invD(1) [OF inv] d]) simp_all
  moreover have "conn_inv ?w"
    by (rule conn_inv_cong [OF _ _ _ _ world_invD(2) [OF inv]]) simp_all
  moreover have "awaiting ?w = awaiting w" "expected E ?w = expected E w"
    by (rule awaiting_cong expected_cong; simp)+
  then have "loop_inv E r ?w"
    by (intro loop_inv_update [OF world_invD(3) [OF inv] _ p]) simp_all
  ultimately show ?thesis by (simp add: world_inv_def)
qed

lemma settle_fields [simp]:
  "pr_waiter (settle v (stop_promise_timer p)) = pr_waiter p"
  "pr_call (settle v (stop_promise_timer p)) = pr_call p"
  "pr_done (settle v (stop_promise_timer p)) = pr_done p"
  by (simp_all add: settle_def stop_promise_timer_def)

lemma world_inv_settle:
  assumes inv: "world_inv E r w" and v: "v \<noteq> Pending"
  shows "world_inv E r (w\<lparr>promises := (promises w)[i := settle v (stop_promise_timer (promises w ! i))]\<rparr>)"
  by (rule world_inv_update [OF inv])
    (use loop_inv_awaited [OF world_invD(3) [OF inv]] good_dbus [OF world_invD(1) [OF inv]] v in
      \<open>auto simp: kind_def waits_def dbus_inv_update settle_stop_ok\<close>)

lemma world_inv_reply: "world_inv E r w \<Longrightarrow> world_inv E r (dbus_reply i v w)"
  by (simp add: dbus_reply_def world_inv_settle)

lemma world_inv_timeout: "world_inv E r w \<Longrightarrow> world_inv E r (promise_timeout E i w)"
  unfolding promise_timeout_def
  by (rule world_inv_settle) (auto simp: timer_outcome_def split: option.splits)

lemma world_inv_print:
  assumes "world_inv E r w"
  shows "world_inv E r (print s w)"
proof -
  have "good E (print s w)"
    by (rule good_change [OF world_invD(1) [OF assms]])
      (use good_dbus [OF world_invD(1) [OF assms]] in \<open>auto simp: print_def dbus_inv_def\<close>)
  moreover have "conn_inv (print s w)"
    by (rule conn_inv_cong [OF _ _ _ _ world_invD(2) [OF assms]]) (simp_all add: print_def)
  moreover have "awaiting (print s w) = awaiting w" "expected E (print s w) = expected E w"
    by (rule awaiting_cong expected_cong; simp add: print_def)+
  then have "loop_inv E r (print s w)"
    by (intro loop_inv_sends [OF world_invD(3) [OF assms], of _ "[]"]) (simp_all add: print_def)
  ultimately show ?thesis by (simp add: world_inv_def)
qed

lemma world_inv_reaction:
  assumes inv: "world_inv E r w" and i: "i < length (promises w)"
  shows "world_inv E r (promise_reaction E i w)"
proof (cases "pr_waiter (promises w ! i) = WaitPoll \<or> pr_waiter (promises w ! i) = WaitSleep")
  case True
  then show ?thesis
    using inv by (auto simp: promise_reaction_def Let_def)
next
  case False
  have "awaited r w ow \<noteq> Some i" for ow
  proof
    assume "awaited r w ow = Some i"
    then have "expected E w ow = Some (kind (promises w ! i))"
      using loop_inv_awaited [OF world_invD(3) [OF inv]] by blast
    then show False
      using False by (cases ow) (auto simp: kind_def split: client_loop.splits control_loop.splits)
  qed
  then have "world_inv E r (mark_done i w)"
    unfolding mark_done_def
    by (intro world_inv_update [OF inv])
      (use dbus_inv_done [OF good_dbus [OF world_invD(1) [OF inv]] i] in
        \<open>auto simp: mark_done_def kind_def waits_def\<close>)
  then show ?thesis
    using inv False
    by (auto simp: promise_reaction_def Let_def log_settled_def push_settled_def
        intro: world_inv_log world_inv_print split: waiter.splits outcome.splits)
qed

section \<open>Loops suspend\<close>

lemma awaiting_set_loop:
  "awaiting (set_loop c l w) = (awaiting w)(Client c := (case l of CPoll i \<Rightarrow> Some i | CSleep i \<Rightarrow> Some i | _ \<Rightarrow> None))"
proof
  show "awaiting (set_loop c l w) ow = ((awaiting w)(Client c := (case l of CPoll i \<Rightarrow> Some i | CSleep i \<Rightarrow> Some i | _ \<Rightarrow> None))) ow" for ow
    by (cases ow) (auto simp: set_loop_def)
qed

lemma awaiting_control:
  "awaiting (w\<lparr>control := k\<rparr>) = (awaiting w)(Control := (case k of KPoll i \<Rightarrow> Some i | KSleep i \<Rightarrow> Some i))"
proof
  show "awaiting (w\<lparr>control := k\<rparr>) ow = ((awaiting w)(Control := (case k of KPoll i \<Rightarrow> Some i | KSleep i \<Rightarrow> Some i))) ow" for ow
    by (cases ow) auto
qed

lemma good_outer:
  assumes "good E w"
  shows "good E (set_loop c l w)" "good E (w\<lparr>control := k\<rparr>)" "good E (w\<lparr>connections := x\<rparr>)"
proof -
  have d: "dbus_inv w" by (rule good_dbus [OF assms])
  show "good E (set_loop c l w)"
    by (rule good_change [OF assms]) (use d in \<open>auto simp: set_loop_def dbus_inv_def\<close>)
  show "good E (w\<lparr>control := k\<rparr>)"
    by (rule good_change [OF assms]) (use d in \<open>auto simp: dbus_inv_def\<close>)
  show "good E (w\<lparr>connections := x\<rparr>)"
    by (rule good_change [OF assms]) (use d in \<open>auto simp: dbus_inv_def\<close>)
qed

text \<open>A new promise is appended; nothing else changes.\<close>

lemma new_promise_eq:
  "new_promise ms call wt w =
     (length (promises w), w\<lparr>promises := promises w @ [\<lparr>pr_timer = single_shot ms, pr_outcome = Pending,
        pr_call = call, pr_waiter = wt, pr_done = False\<rparr>]\<rparr>)"
  by (simp add: new_promise_def)

lemma good_new_promise: "good E w \<Longrightarrow> good E (snd (new_promise ms call wt w))"
  by (rule good_change) (auto simp: new_promise_def intro: dbus_inv_new [unfolded new_promise_def, simplified] good_dbus)

text \<open>Client \<open>c\<close> suspends at a new promise.\<close>

lemma world_inv_client_suspend:
  assumes inv: "world_inv E r w" and c: "c < nextConn w" and free: "awaited r w (Client c) = None"
    and l: "l = CPoll (length (promises w)) \<and> wt = WaitPoll \<and>
              map_option dc_path call = Some (client_path E (conn_id w c)) \<or>
            l = CSleep (length (promises w)) \<and> wt = WaitSleep \<and> call = None"
  shows "world_inv E (if r = Some (Client c) then None else r)
    (set_loop c l (snd (new_promise ms call wt w)))" (is "world_inv E ?r ?w")
proof -
  let ?v = "snd (new_promise ms call wt w)"
  have "good E ?w"
    by (intro good_outer good_new_promise world_invD(1) [OF inv])
  moreover have "conn_inv ?w"
    by (rule conn_inv_cong [OF _ _ _ _ world_invD(2) [OF inv]]) (use c in \<open>auto simp: set_loop_def new_promise_def\<close>)
  moreover have "loop_inv E ?r ?w"
  proof (rule loop_inv_suspend [OF world_invD(3) [OF inv] free])
    have "awaiting ?v = awaiting w"
      by (rule awaiting_cong) (simp_all add: new_promise_def)
    then show "awaiting ?w = (awaiting w)(Client c := Some (length (promises w)))"
      using l by (auto simp: awaiting_set_loop)
    show "expected E ?w o' = expected E w o'" if "o' \<noteq> Client c" for o'
      using that by (cases o') (auto simp: set_loop_def new_promise_def split: client_loop.splits control_loop.splits)
    show "expected E ?w (Client c) = Some (kind \<lparr>pr_timer = single_shot ms, pr_outcome = Pending,
        pr_call = call, pr_waiter = wt, pr_done = False\<rparr>)"
      using l by (auto simp: kind_def set_loop_def new_promise_def)
  qed (simp_all add: set_loop_def new_promise_def)
  ultimately show ?thesis by (simp add: world_inv_def)
qed

lemma world_inv_client_quit:
  assumes inv: "world_inv E r w" and c: "c < nextConn w" and free: "awaited r w (Client c) = None"
    and l: "l = CStopped \<or> (\<exists>a b. l = CReceive a b) \<or> (\<exists>a b. l = CNext a b)"
  shows "world_inv E (if r = Some (Client c) then None else r) (set_loop c l w)" (is "world_inv E ?r ?w")
proof -
  have "conn_inv ?w"
    by (rule conn_inv_cong [OF _ _ _ _ world_invD(2) [OF inv]]) (use c in \<open>auto simp: set_loop_def\<close>)
  moreover have "loop_inv E ?r ?w"
  proof (rule loop_inv_quit [OF world_invD(3) [OF inv] free])
    show "awaiting ?w = (awaiting w)(Client c := None)"
      using l by (auto simp: awaiting_set_loop)
    show "expected E ?w o' = expected E w o'" if "o' \<noteq> Client c" for o'
      using that by (cases o') (auto simp: set_loop_def split: client_loop.splits control_loop.splits)
  qed (simp add: set_loop_def)
  ultimately show ?thesis
    using good_outer(1) [OF world_invD(1) [OF inv]] by (simp add: world_inv_def)
qed

lemma world_inv_control_suspend:
  assumes inv: "world_inv E (Some Control) w"
    and k: "k = KPoll (length (promises w)) \<and> wt = WaitPoll \<and>
              map_option dc_path call = Some DAEMON_DBUS_PATH \<or>
            k = KSleep (length (promises w)) \<and> wt = WaitSleep \<and> call = None"
  shows "world_inv E None ((snd (new_promise ms call wt w))\<lparr>control := k\<rparr>)" (is "world_inv E None ?w")
proof -
  let ?v = "snd (new_promise ms call wt w)"
  have "good E ?w"
    by (intro good_outer good_new_promise world_invD(1) [OF inv])
  moreover have "conn_inv ?w"
    by (rule conn_inv_cong [OF _ _ _ _ world_invD(2) [OF inv]]) (auto simp: new_promise_def)
  moreover have "loop_inv E (if Some Control = Some Control then None else Some Control) ?w"
  proof (rule loop_inv_suspend [OF world_invD(3) [OF inv]])
    have "awaiting ?v = awaiting w"
      by (rule awaiting_cong) (simp_all add: new_promise_def)
    then show "awaiting ?w = (awaiting w)(Control := Some (length (promises w)))"
      using k by (auto simp: awaiting_control)
    show "expected E ?w o' = expected E w o'" if "o' \<noteq> Control" for o'
      using that by (cases o') (auto simp: new_promise_def split: client_loop.splits)
    show "expected E ?w Control = Some (kind \<lparr>pr_timer = single_shot ms, pr_outcome = Pending,
        pr_call = call, pr_waiter = wt, pr_done = False\<rparr>)"
      using k by (auto simp: kind_def)
  qed (simp_all add: new_promise_def awaited_def)
  ultimately show ?thesis by (simp add: world_inv_def)
qed

section \<open>A client's loop\<close>

lemma awaited_running [simp]: "awaited (Some ow) w ow = None"
  by (simp add: awaited_def)

lemma world_inv_run_head:
  assumes "world_inv E r w" "c < nextConn w" "awaited r w (Client c) = None"
  shows "world_inv E (if r = Some (Client c) then None else r) (run_head E c w)"
proof (cases "conn_alive w c")
  case True
  then show ?thesis
    using world_inv_client_suspend [OF assms, of "CPoll (length (promises w))" WaitPoll]
    by (simp add: run_head_def pollClient_def callDBusAsync_def new_promise_eq)
next
  case False
  then show ?thesis
    using world_inv_client_quit [OF assms, of CStopped] by (simp add: run_head_def)
qed

lemma world_inv_client_sleep:
  assumes "world_inv E (Some (Client c)) w" "c < nextConn w"
  shows "world_inv E None (client_sleep ms c w)"
  using world_inv_client_suspend [OF assms awaited_running, of "CSleep (length (promises w))" WaitSleep None ms]
  by (simp add: client_sleep_def sleep_def new_promise_eq)

lemma world_inv_set_loop:
  assumes "world_inv E (Some (Client c)) w" "c < nextConn w"
    and "l = CStopped \<or> (\<exists>a b. l = CReceive a b) \<or> (\<exists>a b. l = CNext a b)"
  shows "world_inv E None (set_loop c l w)"
  using world_inv_client_quit [OF assms(1,2) awaited_running assms(3)] by simp

lemma world_inv_dispatch_next:
  assumes E: "kwin_documented E" "receiver_documented R" and inv: "world_inv E (Some (Client c)) w"
    and c: "c < nextConn w" and run: "dispatch_next E R c messages w = Some w'"
  shows "world_inv E None w'"
proof (cases messages)
  case Nil
  then show ?thesis using run world_inv_client_sleep [OF inv c, of 0] by (auto simp: dispatch_next_def)
next
  case (Cons m rest)
  then obtain res w1 where R: "R (rpc_methods E) (errorListener E) m c w = Some (res, w1)"
    and w': "w' = set_loop c (CReceive res rest) w1"
    using run by (auto simp: dispatch_next_def split: option.splits)
  note st = inner_step_receive [OF E world_invD(1) [OF inv] c R]
  have "c < nextConn w1"
    using st c by (simp add: inner_step_def same_outer_def)
  then show ?thesis
    unfolding w' using world_inv_set_loop [OF world_inv_inner [OF inv st]] by blast
qed

lemma world_inv_polled:
  assumes E: "kwin_documented E" "receiver_documented R" and inv: "world_inv E (Some (Client c)) w"
    and c: "c < nextConn w" and run: "client_polled E R c result w = Some w'"
  shows "world_inv E None w'"
proof (cases "conn_alive w c \<and> (\<exists>ms. result = Inr (JArr ms))")
  case True
  then show ?thesis
    using run world_inv_dispatch_next [OF E inv c] by (auto simp: client_polled_def)
next
  case False
  have "world_inv E None (client_sleep DBUS_RETRY_DELAY c (sendLog ''warn'' m w))" for m
    by (rule world_inv_client_sleep [OF world_inv_log [OF inv]]) (simp add: c)
  then show ?thesis
    using run False world_inv_set_loop [OF inv c, of CStopped]
    by (auto simp: client_polled_def split: sum.splits jsval.splits if_splits)
qed

lemma world_inv_resume:
  assumes inv: "world_inv E None w" and aw: "awaiting w ow = Some i"
  shows "world_inv E (Some ow) (mark_done i w)"
proof -
  have i: "i < length (promises w)"
    using loop_inv_awaited [OF world_invD(3) [OF inv], of ow i] aw by (simp add: awaited_def)
  have "good E (mark_done i w)"
    by (rule good_change [OF world_invD(1) [OF inv] dbus_inv_done [OF good_dbus [OF world_invD(1) [OF inv]] i]])
      (simp_all add: mark_done_def)
  moreover have "conn_inv (mark_done i w)"
    by (rule conn_inv_cong [OF _ _ _ _ world_invD(2) [OF inv]]) (simp_all add: mark_done_def)
  ultimately show ?thesis
    using loop_inv_resume [OF world_invD(3) [OF inv] aw] by (simp add: world_inv_def)
qed

lemma world_inv_client_step:
  assumes E: "kwin_documented E" "receiver_documented R" and inv: "world_inv E None w"
    and c: "c < nextConn w" and run: "client_step E R c w = Some w'"
  shows "world_inv E None w'"
proof -
  have resumed: "world_inv E (Some (Client c)) (mark_done i w)"
    if "loops w c = CPoll i \<or> loops w c = CSleep i" for i
    using that by (intro world_inv_resume [OF inv]) auto
  have idle: "world_inv E (Some (Client c)) w" if "awaiting w (Client c) = None"
  proof -
    have "awaited (Some (Client c)) w = awaited None w"
      using that by (auto simp: awaited_def fun_eq_iff)
    then show ?thesis
      using inv by (simp add: world_inv_def loop_inv_def)
  qed
  have nc: "nextConn (mark_done i w) = nextConn w" for i by (simp add: mark_done_def)
  show ?thesis
  proof (cases "loops w c")
    case (CPoll i)
    then obtain result where "client_polled E R c result (mark_done i w) = Some w'"
      using run by (auto simp: client_step_def split: option.splits)
    from world_inv_polled [OF E resumed _ this] show ?thesis using CPoll c nc by simp
  next
    case (CReceive response rest)
    then have w: "world_inv E (Some (Client c)) w" using idle by simp
    have "world_inv E (Some (Client c)) (reply_response E c v w)" for v
      by (rule world_inv_inner [OF w inner_step_reply_response [OF world_invD(1) [OF w]]])
    moreover have "nextConn (reply_response E c v w) = nextConn w" for v
      using inner_step_reply_response [OF world_invD(1) [OF w], of c v] by (simp add: inner_step_def same_outer_def)
    ultimately show ?thesis
      using run CReceive w c world_inv_set_loop [of E c]
      by (auto simp: client_step_def dispatch_answered_def split: sum.splits)
  next
    case (CNext err rest)
    then have w: "world_inv E (Some (Client c)) w" using idle by simp
    from run CNext obtain v where v: "dispatch_next E R c rest v = Some w'"
      "v = w \<or> (\<exists>m. v = sendLog ''warn'' m w)"
      by (auto simp: client_step_def dispatch_done_def split: option.splits)
    then have "world_inv E (Some (Client c)) v" "c < nextConn v"
      using w c world_inv_log by auto
    from world_inv_dispatch_next [OF E this v(1)] show ?thesis .
  next
    case (CSleep i)
    then have "w' = run_head E c (mark_done i w)"
      using run by (simp add: client_step_def)
    then show ?thesis
      using world_inv_run_head [OF resumed, of i c] CSleep c nc by simp
  next
    case CStopped
    then show ?thesis using run by (simp add: client_step_def)
  qed
qed

section \<open>Connections come and go\<close>

lemma world_inv_connected:
  assumes inv: "world_inv E (Some Control) w"
  shows "world_inv E (Some Control) (onClientConnected E i w)"
proof (cases "jm_has (connections w) i")
  case True
  then show ?thesis using inv by (simp add: onClientConnected_def)
next
  case False
  let ?c = "nextConn w"
  let ?v = "w\<lparr>conns := (conns w)(?c := \<lparr>cc_id = i, cc_alive = True\<rparr>), nextConn := Suc ?c,
    connections := AList.update i ?c (connections w)\<rparr>"
  note cinv = conn_invD [OF world_invD(2) [OF inv]]
  have stopped: "loops w ?c = CStopped" by (rule cinv(4)) simp
  have "good E ?v"
    by (rule good_change [OF world_invD(1) [OF inv]])
      (use good_dbus [OF world_invD(1) [OF inv]] in \<open>auto simp: dbus_inv_def\<close>)
  moreover have "conn_inv ?v"
    using False cinv(1) cinv(2) cinv(3) cinv(4) cinv(5)
    by (auto simp: conn_inv_def jm.invar_put less_Suc_eq split: if_splits dest: cinv(2))
  moreover have "awaiting ?v = awaiting w" "expected E ?v = expected E w"
    by (rule awaiting_cong expected_cong; use stopped in auto)+
  then have "loop_inv E (Some Control) ?v"
    by (intro loop_inv_sends [OF world_invD(3) [OF inv], of _ "[]"]) simp_all
  ultimately have v: "world_inv E (Some Control) ?v"
    by (simp add: world_inv_def)
  let ?l = "sendLog ''info'' (''rpc: client '' @ numberToString E i @ '' connected'') ?v"
  have "loops ?l ?c = CStopped"
    using stopped by (simp add: dbus_defs)
  then have "awaited (Some Control) ?l (Client ?c) = None"
    by (simp add: awaited_def)
  from world_inv_run_head [OF world_inv_log [OF v] _ this] show ?thesis
    using False by (simp add: onClientConnected_def Let_def)
qed

text \<open>What tearing a client down leaves of its tokens and watches.\<close>

lemma inner_step_teardown:
  assumes "good E w"
  shows "inner_step E w (dropClientWorkspaceWatches E i (dropClientTokens E i w))"
proof -
  note s = full_invD(1) [OF goodD(1) [OF assms]]
  have 1: "inner_step E w (dropClientTokens E i w)" (is "inner_step E w ?v")
    by (rule inner_step_untouched [OF assms script_inv_dropClientTokens [OF s]
        ws_untouched_events(4) [OF s] effects_events(4)])
  note f = goodD(1) [OF inner_step_good [OF 1]]
  note same = dropWs_same [OF full_invD(2) [OF f], of i]
  have "full_inv E (dropClientWorkspaceWatches E i ?v)"
    using same_registries_script_inv [OF same full_invD(1) [OF f]] ws_inv_dropWs [OF full_invD(2) [OF f]]
    by (simp add: full_inv_def)
  from inner_step_effects [OF inner_step_good [OF 1] this same_outer_registries [OF same] effects_dropWs]
  show ?thesis by (rule inner_step_trans [OF 1])
qed

lemma world_inv_disconnected:
  assumes inv: "world_inv E r w"
  shows "world_inv E r (onClientDisconnected E i w)"
proof (cases "map_of (connections w) i")
  case None
  then show ?thesis using inv by (simp add: onClientDisconnected_def)
next
  case (Some c)
  let ?v = "(stop_conn c w)\<lparr>connections := AList.delete i (connections (stop_conn c w))\<rparr>"
  note cinv = conn_invD [OF world_invD(2) [OF inv]]
  have c: "c < nextConn w" "conn_id w c = i" "conn_alive w c"
    using cinv(2) [OF Some] by simp_all
  have "good E ?v"
    by (rule good_change [OF world_invD(1) [OF inv]])
      (use good_dbus [OF world_invD(1) [OF inv]] in \<open>auto simp: stop_conn_def dbus_inv_def\<close>)
  moreover have "conn_inv ?v"
    unfolding conn_inv_def
  proof (intro conjI allI impI)
    show "distinct (map fst (connections ?v))"
      using cinv(1) by (simp add: stop_conn_def jm.invar_del)
  next
    fix j d
    assume "map_of (connections ?v) j = Some d"
    then have j: "j \<noteq> i" "map_of (connections w) j = Some d"
      by (auto simp: stop_conn_def split: if_splits)
    from cinv(2) [OF j(2)] j(1) c(2)
    show "d < nextConn ?v" "conn_id ?v d = j" "conn_alive ?v d"
      by (auto simp: stop_conn_def)
  next
    fix d
    assume d: "d < nextConn ?v" "conn_alive ?v d"
    then have ne: "d \<noteq> c" "d < nextConn w" "conn_alive w d"
      by (auto simp: stop_conn_def split: if_splits)
    from cinv(3) [OF ne(2,3)] Some ne(1) show "map_of (connections ?v) (conn_id ?v d) = Some d"
      by (auto simp: stop_conn_def)
  next
    show "loops ?v d = CStopped" "\<not> conn_alive ?v d" if "nextConn ?v \<le> d" for d
      using that cinv(4,5) by (simp_all add: stop_conn_def)
  qed
  moreover have "awaiting ?v = awaiting w" "expected E ?v = expected E w"
    by (rule awaiting_cong expected_cong; simp add: stop_conn_def)+
  then have "loop_inv E r ?v"
    by (intro loop_inv_sends [OF world_invD(3) [OF inv], of _ "[]"]) (simp_all add: stop_conn_def)
  ultimately have v: "world_inv E r ?v"
    by (simp add: world_inv_def)
  from world_inv_log [OF world_inv_inner [OF v inner_step_teardown [OF world_invD(1) [OF v]]]]
  show ?thesis
    by (simp add: onClientDisconnected_def Some Let_def)
qed

section \<open>The control loop\<close>

lemma world_inv_control_event:
  "world_inv E (Some Control) w \<Longrightarrow> world_inv E (Some Control) (control_event E ev w)"
  by (auto simp: control_event_def split: jsval.splits intro: world_inv_connected world_inv_disconnected)

lemma world_inv_control_events:
  "world_inv E (Some Control) w \<Longrightarrow> world_inv E (Some Control) (fold (control_event E) evs w)"
  by (rule fold_invariant_set) (auto intro: world_inv_control_event)

lemma world_inv_control_poll: "world_inv E (Some Control) w \<Longrightarrow> world_inv E None (control_poll w)"
  using world_inv_control_suspend [of E w "KPoll (length (promises w))" WaitPoll]
  by (simp add: control_poll_def pollDaemon_def callDBusAsync_def new_promise_eq)

lemma world_inv_control_sleep: "world_inv E (Some Control) w \<Longrightarrow> world_inv E None (control_sleep ms w)"
  using world_inv_control_suspend [of E w "KSleep (length (promises w))" WaitSleep None ms]
  by (simp add: control_sleep_def sleep_def new_promise_eq)

lemma world_inv_control_step:
  assumes inv: "world_inv E None w"
  shows "world_inv E None (control_step E w)"
proof -
  have resumed: "world_inv E (Some Control) (mark_done i w)" if "control w = KPoll i \<or> control w = KSleep i" for i
    using that by (intro world_inv_resume [OF inv]) auto
  have "world_inv E None (control_polled E result v)" if "world_inv E (Some Control) v" for result v
    using that
    by (auto simp: control_polled_def intro!: world_inv_control_sleep world_inv_control_poll world_inv_log
        world_inv_control_events split: sum.splits jsval.splits)
  then show ?thesis
    using inv resumed
    by (auto simp: control_step_def intro!: world_inv_control_poll split: control_loop.splits option.splits)
qed

section \<open>Start\<close>

lemma good_blank: "good E (blank_world n)"
proof -
  have "dbus_inv (blank_world n)" "watch_inv E (blank_world n)" "tok_inv (blank_world n)"
    "owner_inv (blank_world n)" "ws_inv E (blank_world n)"
    by (simp_all add: blank_world_def dbus_inv_def watch_inv_def tok_inv_def owner_inv_def ws_inv_def
        ws_handlers_def)
  then show ?thesis
    by (simp add: good_def full_inv_def script_inv_def catalog_ok_def registry_wf_def)
      (simp add: blank_world_def)
qed

lemma effects_load: "effects (load_tokens E (load_windows E w)) w"
proof -
  have c: "effects (snd (connect E sig sl v)) u" if "effects v u" for sig sl and v u :: "'a ws_world_scheme"
    by (rule effects_trans [OF effects_connect(1) that])
  have "effects (load_windows E w) w"
    unfolding load_windows_def wireWorkspaceEvents_def Let_def
    by (intro effects_log c effects_trans [OF effects_catalogs(2) effects_catalogs(1)])
  moreover have "effects (load_tokens E v) v" for v :: "'a ws_world_scheme"
    unfolding load_tokens_def wireWindowEvents_def Let_def
    by (intro effects_log effects_trans [OF effects_fold] c effects_refl)
  ultimately show ?thesis by (rule effects_trans [rotated])
qed

lemma world_inv_load: "world_inv E None (load_script E n)"
proof -
  let ?b = "blank_world n" and ?w = "load_tokens E (load_windows E (blank_world n))"
  note b = goodD(1) [OF good_blank [of E n]]
  note lw = load_windows_inv [OF b]
  note lt = load_tokens_inv [OF lw(1)]
  have "conn_inv ?b"
    by (simp add: conn_inv_def blank_world_def)
  moreover have "loop_inv E (Some Control) ?b"
  proof (rule loop_invI)
    have none: "awaited (Some Control) ?b ow = None" for ow
      by (cases ow) (simp_all add: awaited_def blank_world_def)
    show "i < length (promises ?b) \<and> \<not> pr_done (promises ?b ! i) \<and>
        expected E ?b ow = Some (kind (promises ?b ! i))" if "awaited (Some Control) ?b ow = Some i" for ow i
      using that by (simp add: none)
    show "ow = ow'" if "awaited (Some Control) ?b ow = Some i" for ow ow' i
      using that by (simp add: none)
  qed (simp add: blank_world_def)
  ultimately have "world_inv E (Some Control) ?b"
    using good_blank by (simp add: world_inv_def)
  moreover have "inner_step E ?b ?w"
    by (rule inner_step_effects [OF good_blank lt(1) same_outer_trans [OF lt(2) lw(2)] effects_load])
  ultimately have "world_inv E (Some Control) ?w"
    by (rule world_inv_inner)
  then show ?thesis
    unfolding load_script_def startControlLoop_def
    by (intro world_inv_control_poll world_inv_log world_inv_print)
qed

section \<open>Steps\<close>

lemma world_inv_step:
  assumes E: "kwin_documented E" "receiver_documented R" and inv: "world_inv E None w" and st: "step E R w w'"
  shows "world_inv E None w'"
  using st
proof cases
  case (step_deadline r)
  then show ?thesis
    using world_inv_inner [OF inv inner_step_events(1) [OF world_invD(1) [OF inv]]] by simp
next
  case (step_signal n sig arg)
  then show ?thesis
    using world_inv_inner [OF inv inner_step_events(2) [OF world_invD(1) [OF inv]]] by simp
next
  case step_client
  then show ?thesis using world_inv_client_step [OF E inv] by simp
qed (simp_all add: inv world_inv_reply world_inv_timeout world_inv_reaction world_inv_control_step)

end
