(* ===== verification/Script_History.thy ===== *)
theory Script_History
  imports Script_Invariant "HOL-Library.Sublist"
begin

text \<open>
  What never changes again: a call once made keeps its kind, a promise once settled keeps its
  outcome, a connection keeps its id and never comes back to life, a slot that is no watch
  stays connected. Messages are pushed in
  order and never taken back.
\<close>

definition promise_le :: "promise \<Rightarrow> promise \<Rightarrow> bool" where
  "promise_le p q \<longleftrightarrow> pr_call q = pr_call p \<and> pr_waiter q = pr_waiter p \<and>
     (pr_outcome p \<noteq> Pending \<longrightarrow> pr_outcome q = pr_outcome p) \<and> (pr_done p \<longrightarrow> pr_done q)"

definition promises_le :: "'a dbus_world_scheme \<Rightarrow> 'a dbus_world_scheme \<Rightarrow> bool" where
  "promises_le w w' \<longleftrightarrow> length (promises w) \<le> length (promises w') \<and>
     (\<forall>i < length (promises w). promise_le (promises w ! i) (promises w' ! i))"

definition conns_le :: "'a conn_world_scheme \<Rightarrow> 'a conn_world_scheme \<Rightarrow> bool" where
  "conns_le w w' \<longleftrightarrow> nextConn w \<le> nextConn w' \<and>
     (\<forall>c < nextConn w. conn_id w' c = conn_id w c \<and> (conn_alive w' c \<longrightarrow> conn_alive w c))"

definition history :: "'a conn_world_scheme \<Rightarrow> 'a conn_world_scheme \<Rightarrow> bool" where
  "history w w' \<longleftrightarrow> promises_le w w' \<and> conns_le w w' \<and> plain_kept (slots w') (slots w)"

lemma promise_le_refl [simp]: "promise_le p p"
  by (simp add: promise_le_def)

lemma promise_le_trans: "promise_le p q \<Longrightarrow> promise_le q u \<Longrightarrow> promise_le p u"
  by (auto simp: promise_le_def)

lemma history_refl [simp]: "history w w"
  by (simp add: history_def promises_le_def conns_le_def)

lemma history_trans: "history w w1 \<Longrightarrow> history w1 w2 \<Longrightarrow> history w w2"
  unfolding history_def promises_le_def conns_le_def
  by (auto intro: promise_le_trans plain_kept_trans dest: order_less_le_trans)

lemma history_sends:
  assumes "sends w' w" "conns w' = conns w" "nextConn w' = nextConn w" "plain_kept (slots w') (slots w)"
  shows "history w w'"
  using assms by (auto simp: history_def promises_le_def conns_le_def sends_def nth_append)

lemma history_inner: "inner_step E w w' \<Longrightarrow> history w w'"
  by (simp add: inner_step_def same_outer_def history_sends)

lemma history_log: "history w (sendLog l m w)"
  by (rule history_sends) simp_all

lemma history_calls:
  assumes "\<And>i. i < length (promises w) \<Longrightarrow> i < length (promises w') \<and> promise_le (promises w ! i) (promises w' ! i)"
    "conns w' = conns w" "nextConn w' = nextConn w" "slots w' = slots w"
  shows "history w w'"
  using assms by (auto simp: history_def promises_le_def conns_le_def not_less) (meson not_less order_less_irrefl)

lemma history_update:
  "promise_le (promises w ! i) p \<Longrightarrow> history w (w\<lparr>promises := (promises w)[i := p]\<rparr>)"
  by (rule history_calls; simp) (metis nth_list_update_eq nth_list_update_neq promise_le_refl)

lemma promise_le_settle: "promise_le p (settle v (stop_promise_timer p))"
  by (auto simp: promise_le_def settle_def stop_promise_timer_def)

lemma history_settle:
  "history w (dbus_reply i v w)" "history w (promise_timeout E i w)" "history w (mark_done i w)"
  by (simp_all add: dbus_reply_def promise_timeout_def mark_done_def history_update promise_le_settle)
    (simp add: history_update promise_le_def)

lemma history_print: "history w (print s w)"
  by (rule history_calls) (simp_all add: print_def)

lemma history_reaction: "history w (promise_reaction E i w)"
  by (auto simp: promise_reaction_def Let_def log_settled_def push_settled_def
      intro: history_settle(3) history_trans [OF history_settle(3)] history_log history_print
      split: waiter.splits outcome.splits)

lemma history_new_promise: "history w (snd (new_promise ms call wt w))"
  by (rule history_calls) (simp_all add: new_promise_def nth_append)

lemma history_outer: "history w (set_loop c l w)" "history w (w\<lparr>control := k\<rparr>)" "history w (w\<lparr>connections := x\<rparr>)"
  by (rule history_calls; simp add: set_loop_def)+

lemma history_suspend:
  "history w (set_loop c l (snd (new_promise ms call wt w)))"
  "history w ((snd (new_promise ms call wt w))\<lparr>control := k\<rparr>)"
  by (rule history_trans [OF history_new_promise history_outer(1)]
      history_trans [OF history_new_promise history_outer(2)])+

lemma history_turns:
  "history w (run_head E c w)" "history w (client_sleep ms c w)"
  "history w (control_poll w)" "history w (control_sleep ms w)"
  using history_suspend history_outer
  by (simp_all add: run_head_def client_sleep_def control_poll_def control_sleep_def pollClient_def
      pollDaemon_def sleep_def callDBusAsync_def new_promise_eq)

section \<open>Clients and control\<close>

lemma history_dispatch_next:
  assumes "kwin_documented E" "receiver_documented R" "good E w" "c < nextConn w"
    "dispatch_next E R c ms w = Some w'"
  shows "history w w'"
proof (cases ms)
  case Nil
  then show ?thesis using assms(5) history_turns(2) by (auto simp: dispatch_next_def)
next
  case (Cons m rest)
  then obtain res w1 where "R (rpc_methods E) (errorListener E) m c w = Some (res, w1)"
    and w': "w' = set_loop c (CReceive res rest) w1"
    using assms(5) by (auto simp: dispatch_next_def split: option.splits)
  from history_inner [OF inner_step_receive [OF assms(1-4) this(1)]] show ?thesis
    unfolding w' by (rule history_trans [OF _ history_outer(1)])
qed

lemma history_polled:
  assumes "kwin_documented E" "receiver_documented R" "good E w" "c < nextConn w"
    "client_polled E R c result w = Some w'"
  shows "history w w'"
proof (cases "conn_alive w c \<and> (\<exists>ms. result = Inr (JArr ms))")
  case True
  then show ?thesis
    using assms(5) history_dispatch_next [OF assms(1-4)] by (auto simp: client_polled_def)
next
  case False
  have "history w (client_sleep DBUS_RETRY_DELAY c (sendLog ''warn'' m w))" for m
    by (rule history_trans [OF history_log history_turns(2)])
  then show ?thesis
    using assms(5) False history_outer(1) [of w c CStopped]
    by (auto simp: client_polled_def split: sum.splits jsval.splits if_splits)
qed

lemma history_client_step:
  assumes E: "kwin_documented E" "receiver_documented R" and inv: "world_inv E None w"
    and c: "c < nextConn w" and run: "client_step E R c w = Some w'"
  shows "history w w'"
proof (cases "loops w c")
  case (CPoll i)
  then obtain result where p: "client_polled E R c result (mark_done i w) = Some w'"
    using run by (auto simp: client_step_def split: option.splits)
  have g: "good E (mark_done i w)"
    using world_inv_resume [OF inv, of "Client c" i] CPoll by (simp add: world_inv_def)
  have "history (mark_done i w) w'"
    by (rule history_polled [OF E g _ p]) (use c in \<open>simp add: mark_done_def\<close>)
  then show ?thesis by (rule history_trans [OF history_settle(3)])
next
  case (CReceive response rest)
  have "history w (reply_response E c v w)" for v
    by (rule history_inner [OF inner_step_reply_response [OF world_invD(1) [OF inv]]])
  then show ?thesis
    using run CReceive history_outer(1) [of w] history_trans [OF _ history_outer(1)]
    by (auto simp: client_step_def dispatch_answered_def split: sum.splits)
next
  case (CNext err rest)
  then obtain v where v: "dispatch_next E R c rest v = Some w'" "v = w \<or> (\<exists>m. v = sendLog ''warn'' m w)"
    using run by (auto simp: client_step_def dispatch_done_def split: option.splits)
  then have "good E v" "c < nextConn v" "history w v"
    using world_invD(1) [OF inv] inner_step_good [OF inner_step_log] c history_log by auto
  then show ?thesis
    using history_dispatch_next [OF E _ _ v(1)] by (blast intro: history_trans)
next
  case (CSleep i)
  then show ?thesis
    using run history_trans [OF history_settle(3) history_turns(1)] by (auto simp: client_step_def)
next
  case CStopped
  then show ?thesis using run by (simp add: client_step_def)
qed

lemma history_connected: "history w (onClientConnected E i w)"
proof (cases "jm_has (connections w) i")
  case True
  then show ?thesis by (simp add: onClientConnected_def)
next
  case False
  have "history w (w\<lparr>conns := (conns w)(nextConn w := x), nextConn := Suc (nextConn w), connections := y\<rparr>)" for x y
    by (simp add: history_def promises_le_def conns_le_def)
  from history_trans [OF history_trans [OF this history_log] history_turns(1)] show ?thesis
    using False by (simp add: onClientConnected_def Let_def)
qed

lemma history_disconnected:
  assumes "good E w"
  shows "history w (onClientDisconnected E i w)"
proof (cases "map_of (connections w) i")
  case None
  then show ?thesis by (simp add: onClientDisconnected_def)
next
  case (Some c)
  let ?v = "(stop_conn c w)\<lparr>connections := AList.delete i (connections (stop_conn c w))\<rparr>"
  have "good E ?v"
    by (rule good_change [OF assms]) (use good_dbus [OF assms] in \<open>auto simp: stop_conn_def dbus_inv_def\<close>)
  note td = history_inner [OF inner_step_teardown [OF this, of i]]
  have "history w ?v"
    by (simp add: history_def promises_le_def conns_le_def stop_conn_def)
  from history_trans [OF history_trans [OF this td] history_log] show ?thesis
    by (simp add: onClientDisconnected_def Some Let_def)
qed

lemma history_control_events:
  "world_inv E (Some Control) w \<Longrightarrow> history w (fold (control_event E) evs w)"
proof (induction evs arbitrary: w)
  case Nil
  then show ?case by simp
next
  case (Cons ev evs)
  have "history w (control_event E ev w)"
    using history_connected history_disconnected [OF world_invD(1) [OF Cons.prems]]
    by (auto simp: control_event_def split: jsval.splits)
  then show ?case
    using Cons.IH [OF world_inv_control_event [OF Cons.prems]] by (auto intro: history_trans)
qed

lemma history_control_step:
  assumes inv: "world_inv E None w"
  shows "history w (control_step E w)"
proof -
  have "history v (control_polled E result v)" if "world_inv E (Some Control) v" for result v
    using history_trans [OF history_control_events [OF that] history_turns(4)] history_turns(3)
      history_trans [OF history_log history_turns(4)]
    by (auto simp: control_polled_def split: sum.splits jsval.splits)
  then have "history w (control_polled E result (mark_done i w))" if "control w = KPoll i" for i result
    using world_inv_resume [OF inv, of Control i] that by (auto intro: history_trans [OF history_settle(3)])
  then show ?thesis
    using history_trans [OF history_settle(3) history_turns(3)]
    by (auto simp: control_step_def split: control_loop.splits option.splits)
qed

lemma history_step:
  assumes E: "kwin_documented E" "receiver_documented R" and inv: "world_inv E None w" and st: "step E R w w'"
  shows "history w w'"
  using st
proof cases
  case (step_deadline r)
  then show ?thesis using history_inner [OF inner_step_events(1) [OF world_invD(1) [OF inv]]] by simp
next
  case (step_signal n sig arg)
  then show ?thesis using history_inner [OF inner_step_events(2) [OF world_invD(1) [OF inv]]] by simp
next
  case step_client
  then show ?thesis using history_client_step [OF E inv] by simp
qed (simp_all add: history_settle history_reaction history_control_step [OF inv])

section \<open>The script as a transition system\<close>

text \<open>The facts below hold for any KWin and any JSON-RPC server that behave as documented;
  the pair of them is the environment of the script.\<close>

definition environment :: "ext \<Rightarrow> receiver \<Rightarrow> bool" where
  "environment E R \<longleftrightarrow> kwin_documented E \<and> receiver_documented R"

text \<open>The steps of the script in its environment.\<close>

definition env_step :: "ext \<Rightarrow> receiver \<Rightarrow> world \<Rightarrow> world \<Rightarrow> bool" where
  "env_step E R w w' \<longleftrightarrow> environment E R \<and> step E R w w'"

interpretation script: evolving_system "script_init E" "env_step E R" "world_inv E None" history for E R
  by unfold_locales
    (auto simp: script_init_def env_step_def environment_def world_inv_load
      intro: world_inv_step history_step history_trans)

lemma env_step_eq: "environment E R \<Longrightarrow> env_step E R = step E R"
  by (simp add: env_step_def fun_eq_iff)

lemma reachable_world_inv: "environment E R \<Longrightarrow> script_reachable E R w \<Longrightarrow> world_inv E None w"
  using script.reachable_inv [of E R w] by (simp add: env_step_eq)

lemma steps_history:
  "environment E R \<Longrightarrow> script_reachable E R w \<Longrightarrow> (step E R)\<^sup>*\<^sup>* w w' \<Longrightarrow> history w w'"
  using script.steps_evolve [of E R w w'] reachable_world_inv by (simp add: env_step_eq)

lemma script_steps_reachable:
  "environment E R \<Longrightarrow> script_reachable E R w \<Longrightarrow> (step E R)\<^sup>*\<^sup>* w w' \<Longrightarrow> script_reachable E R w'"
  using script.steps_reachable [of E R w w'] by (simp add: env_step_eq)

section \<open>Messages are not taken back\<close>

lemma push_of_le: "promise_le p q \<Longrightarrow> push_of q = push_of p"
  by (simp add: promise_le_def push_of_def)

lemma pushes_prefix:
  assumes "history w w'"
  shows "prefix (pushes w) (pushes w')"
proof -
  have le: "length (promises w) \<le> length (promises w')"
    and each: "\<And>i. i < length (promises w) \<Longrightarrow> promise_le (promises w ! i) (promises w' ! i)"
    using assms by (auto simp: history_def promises_le_def)
  let ?n = "length (promises w)"
  have "map push_of (take ?n (promises w')) = map push_of (promises w)"
    by (rule nth_equalityI) (use le in \<open>auto simp: push_of_le [OF each]\<close>)
  moreover have "pushes w' = concat (map push_of (take ?n (promises w'))) @ concat (map push_of (drop ?n (promises w')))"
    by (simp add: pushes_def flip: concat_append map_append)
  ultimately show ?thesis
    by (simp add: pushes_def prefix_def)
qed

end
