(* ===== verification/Script_Progress.thy ===== *)
theory Script_Progress
  imports Script_History
begin

text \<open>
  The loop of a live client never ends: it stays at one of its \<open>await\<close>s, and what it awaits
  settles.
\<close>

definition loops_live :: "world \<Rightarrow> bool" where
  "loops_live w \<longleftrightarrow> (\<forall>c < nextConn w. conn_alive w c \<longrightarrow> loops w c \<noteq> CStopped)"

lemma loops_live_cong:
  "conns w' = conns w \<Longrightarrow> nextConn w' = nextConn w \<Longrightarrow> loops w' = loops w \<Longrightarrow> loops_live w' = loops_live w"
  by (simp add: loops_live_def)

lemma loops_live_inner: "loops_live w \<Longrightarrow> inner_step E w w' \<Longrightarrow> loops_live w'"
  using outer_fields [of w' w] by (simp add: inner_step_def loops_live_def)

lemma world_log_frame [simp]:
  "loops (sendLog l m w) = loops w" "control (sendLog l m w) = control w"
  "connections (sendLog l m w) = connections w"
  by (simp_all add: dbus_defs)

lemma loops_live_log [simp]: "loops_live (sendLog l m w) = loops_live w"
  by (simp add: loops_live_def)

lemma loops_live_calls [simp]:
  "loops_live (dbus_reply i v w) = loops_live w" "loops_live (promise_timeout E i w) = loops_live w"
  "loops_live (mark_done i w) = loops_live w" "loops_live (print s w) = loops_live w"
  "loops_live (w\<lparr>control := k\<rparr>) = loops_live w" "loops_live (snd (new_promise ms call wt w)) = loops_live w"
  by (simp_all add: loops_live_def dbus_reply_def promise_timeout_def mark_done_def print_def new_promise_def)

lemma loops_live_reaction: "loops_live w \<Longrightarrow> loops_live (promise_reaction E i w)"
  by (auto simp: promise_reaction_def Let_def log_settled_def push_settled_def
      split: waiter.splits outcome.splits)

text \<open>A client's turn ends at an \<open>await\<close>, or the client is dead.\<close>

lemma loops_live_set:
  "loops_live w \<Longrightarrow> l \<noteq> CStopped \<or> \<not> conn_alive w c \<Longrightarrow> loops_live (set_loop c l w)"
  by (auto simp: loops_live_def set_loop_def)

lemma loops_live_run_head: "loops_live w \<Longrightarrow> loops_live (run_head E c w)"
  by (auto simp: run_head_def pollClient_def callDBusAsync_def new_promise_def loops_live_def set_loop_def)

lemma loops_live_turns:
  "loops_live w \<Longrightarrow> loops_live (client_sleep ms c w)"
  "loops_live w \<Longrightarrow> loops_live (control_poll w)" "loops_live w \<Longrightarrow> loops_live (control_sleep ms w)"
  by (auto simp: client_sleep_def control_poll_def control_sleep_def sleep_def pollDaemon_def
      callDBusAsync_def new_promise_def loops_live_def set_loop_def)

lemma loops_live_dispatch_next:
  assumes "kwin_documented E" "receiver_documented R" "good E w" "c < nextConn w" "loops_live w"
    "dispatch_next E R c ms w = Some w'"
  shows "loops_live w'"
  using assms(5,6) loops_live_inner [OF assms(5) inner_step_receive [OF assms(1-4)]]
  by (auto simp: dispatch_next_def intro: loops_live_turns loops_live_set split: list.splits option.splits)

lemma loops_live_polled:
  assumes "kwin_documented E" "receiver_documented R" "good E w" "c < nextConn w" "loops_live w"
    "client_polled E R c result w = Some w'"
  shows "loops_live w'"
proof (cases "conn_alive w c \<and> (\<exists>ms. result = Inr (JArr ms))")
  case True
  then show ?thesis
    using assms(6) loops_live_dispatch_next [OF assms(1-5)] by (auto simp: client_polled_def)
next
  case False
  have "loops_live (client_sleep DBUS_RETRY_DELAY c (sendLog ''warn'' m w))" for m
    by (rule loops_live_turns) (simp add: assms(5))
  then show ?thesis
    using assms(5,6) False loops_live_set [OF assms(5), of CStopped c]
    by (auto simp: client_polled_def split: sum.splits jsval.splits if_splits)
qed

lemma loops_live_client_step:
  assumes E: "kwin_documented E" "receiver_documented R" and inv: "world_inv E None w" and l: "loops_live w"
    and c: "c < nextConn w" and run: "client_step E R c w = Some w'"
  shows "loops_live w'"
proof (cases "loops w c")
  case (CPoll i)
  then obtain result where p: "client_polled E R c result (mark_done i w) = Some w'"
    using run by (auto simp: client_step_def split: option.splits)
  have g: "good E (mark_done i w)"
    using world_inv_resume [OF inv, of "Client c" i] CPoll by (simp add: world_inv_def)
  show ?thesis
    by (rule loops_live_polled [OF E g _ _ p]) (use c in \<open>simp add: mark_done_def\<close>, use l in simp)
next
  case (CReceive response rest)
  have "loops_live (reply_response E c v w)" for v
    by (rule loops_live_inner [OF l inner_step_reply_response [OF world_invD(1) [OF inv]]])
  then show ?thesis
    using run CReceive l by (auto simp: client_step_def dispatch_answered_def intro: loops_live_set split: sum.splits)
next
  case (CNext err rest)
  then obtain v where v: "dispatch_next E R c rest v = Some w'" "v = w \<or> (\<exists>m. v = sendLog ''warn'' m w)"
    using run by (auto simp: client_step_def dispatch_done_def split: option.splits)
  then have "good E v" "c < nextConn v" "loops_live v"
    using world_invD(1) [OF inv] inner_step_good [OF inner_step_log] c l by auto
  then show ?thesis using loops_live_dispatch_next [OF E _ _ _ v(1)] by blast
next
  case (CSleep i)
  then show ?thesis using run l by (auto simp: client_step_def intro: loops_live_run_head)
next
  case CStopped
  then show ?thesis using run by (simp add: client_step_def)
qed

lemma loops_live_connected:
  assumes "loops_live w"
  shows "loops_live (onClientConnected E i w)"
proof (cases "jm_has (connections w) i")
  case True
  then show ?thesis using assms by (simp add: onClientConnected_def)
next
  case False
  let ?v = "sendLog ''info'' (''rpc: client '' @ numberToString E i @ '' connected'')
    (w\<lparr>conns := (conns w)(nextConn w := \<lparr>cc_id = i, cc_alive = True\<rparr>), nextConn := Suc (nextConn w),
       connections := AList.update i (nextConn w) (connections w)\<rparr>)"
  have "loops_live (run_head E (nextConn w) ?v)"
    using assms by (auto simp: run_head_def pollClient_def callDBusAsync_def new_promise_def loops_live_def
        set_loop_def less_Suc_eq)
  then show ?thesis using False by (simp add: onClientConnected_def Let_def)
qed

lemma loops_live_disconnected:
  assumes "good E w" "loops_live w"
  shows "loops_live (onClientDisconnected E i w)"
proof (cases "map_of (connections w) i")
  case None
  then show ?thesis using assms by (simp add: onClientDisconnected_def)
next
  case (Some c)
  let ?v = "(stop_conn c w)\<lparr>connections := AList.delete i (connections (stop_conn c w))\<rparr>"
  have "good E ?v"
    by (rule good_change [OF assms(1)]) (use good_dbus [OF assms(1)] in \<open>auto simp: stop_conn_def dbus_inv_def\<close>)
  moreover have "loops_live ?v"
    using assms(2) by (auto simp: loops_live_def stop_conn_def)
  ultimately show ?thesis
    using loops_live_inner [OF _ inner_step_teardown, of ?v E i]
    by (simp add: onClientDisconnected_def Some Let_def)
qed

lemma loops_live_control_events:
  "world_inv E (Some Control) w \<Longrightarrow> loops_live w \<Longrightarrow> loops_live (fold (control_event E) evs w)"
proof (induction evs arbitrary: w)
  case Nil
  then show ?case by simp
next
  case (Cons ev evs)
  have "loops_live (control_event E ev w)"
    using loops_live_connected [OF Cons.prems(2)] loops_live_disconnected [OF world_invD(1) [OF Cons.prems(1)] Cons.prems(2)]
      Cons.prems(2)
    by (auto simp: control_event_def split: jsval.splits)
  then show ?case
    using Cons.IH [OF world_inv_control_event [OF Cons.prems(1)]] by simp
qed

lemma loops_live_control_step:
  assumes inv: "world_inv E None w" and l: "loops_live w"
  shows "loops_live (control_step E w)"
proof -
  have "loops_live (control_polled E result v)" if "world_inv E (Some Control) v" "loops_live v" for result v
    using loops_live_control_events [OF that] that(2)
    by (auto simp: control_polled_def intro!: loops_live_turns split: sum.splits jsval.splits)
  then have "loops_live (control_polled E result (mark_done i w))" if "control w = KPoll i" for i result
    using world_inv_resume [OF inv, of Control i] that l by auto
  then show ?thesis
    using l by (auto simp: control_step_def intro!: loops_live_turns split: control_loop.splits option.splits)
qed

lemma loops_live_step:
  assumes E: "kwin_documented E" "receiver_documented R" and inv: "world_inv E None w" and l: "loops_live w"
    and st: "step E R w w'"
  shows "loops_live w'"
  using st
proof cases
  case (step_deadline r)
  then show ?thesis using loops_live_inner [OF l inner_step_events(1) [OF world_invD(1) [OF inv]]] by simp
next
  case (step_signal n sig arg)
  then show ?thesis using loops_live_inner [OF l inner_step_events(2) [OF world_invD(1) [OF inv]]] by simp
next
  case step_client
  then show ?thesis using loops_live_client_step [OF E inv l] by simp
qed (simp_all add: l loops_live_reaction loops_live_control_step [OF inv l])

interpretation live: transition_system "script_init E" "env_step E R" "\<lambda>w. world_inv E None w \<and> loops_live w" for E R
proof unfold_locales
  fix w :: world
  assume "script_init E w"
  then obtain n where w: "w = load_script E n" by (auto simp: script_init_def)
  have "nextConn (load_tokens E (load_windows E (blank_world n))) = 0"
    using load_tokens_inv(2) [OF load_windows_inv(1)] load_windows_inv(2) goodD(1) [OF good_blank]
    by (metis (no_types, lifting) blank_world_def same_outer_def conn_world.select_convs(2))
  then have "loops_live w"
    by (simp add: w load_script_def startControlLoop_def loops_live_def control_poll_def pollDaemon_def
        callDBusAsync_def new_promise_def print_def)
  then show "world_inv E None w \<and> loops_live w" by (simp add: w world_inv_load)
next
  fix w w' :: world
  assume "world_inv E None w \<and> loops_live w" "env_step E R w w'"
  then show "world_inv E None w' \<and> loops_live w'"
    by (auto simp: env_step_def environment_def intro: world_inv_step loops_live_step)
qed

lemma reachable_loops_live: "environment E R \<Longrightarrow> script_reachable E R w \<Longrightarrow> loops_live w"
  using live.reachable_inv [of E R w] by (simp add: env_step_eq)

text \<open>What a loop awaits has settled or its timer runs.\<close>

lemma awaited_settles:
  assumes "world_inv E None w" "awaiting w ow = Some i"
  shows "settled w i \<or> i < length (promises w) \<and> tm_active (pr_timer (promises w ! i))"
proof -
  have i: "i < length (promises w)"
    using loop_inv_awaited [OF world_invD(3) [OF assms(1)], of ow i] assms(2) by (simp add: awaited_def)
  moreover have "promise_ok (promises w ! i)"
    using good_dbus [OF world_invD(1) [OF assms(1)]] i by (simp add: dbus_inv_def)
  ultimately show ?thesis by (auto simp: settled_def promise_ok_def)
qed

lemma timeout_settles:
  assumes "i < length (promises w)"
  shows "settled (promise_timeout E i w) i"
  using assms by (auto simp: settled_def promise_timeout_def settle_def stop_promise_timer_def
      timer_outcome_def split: option.splits)

end
