(* ===== verification/Token_Spec.thy ===== *)
theory Token_Spec
  imports Token_Lemmas
begin

text \<open>
  The specification of the window claiming protocol: a finite map from tokens to claims
  (who owns the token, the window it is bound to, whether its validate deadline is still
  ahead). The token registry of \<open>tokens.ts\<close>, with its index \<open>byWindow\<close>, its entry states and
  its timers, refines it.
\<close>

record claim =
  cl_conn :: connref
  cl_window :: "Window option"
  cl_open :: bool

type_synonym claims = "string \<Rightarrow> claim option"

section \<open>Specification\<close>

text \<open>Every claim on a window is given up.\<close>

definition a_release :: "string \<Rightarrow> claims \<Rightarrow> claims" where
  "a_release key A t = (case A t of
      None \<Rightarrow> None
    | Some cl \<Rightarrow> if map_option windowKey (cl_window cl) = Some key then None else Some cl)"

definition a_request :: "string \<Rightarrow> connref \<Rightarrow> claims \<Rightarrow> claims" where
  "a_request t c A = A(t \<mapsto> \<lparr>cl_conn = c, cl_window = None, cl_open = True\<rparr>)"

text \<open>A window shows a caption: an open, unbound token at its front claims the window from
  whoever has it; an open token bound to another window is ambiguous and withdrawn.\<close>

definition a_caption :: "string \<Rightarrow> Window \<Rightarrow> claims \<Rightarrow> claims" where
  "a_caption caption wd A =
     (if length caption < TOKEN_LENGTH then A
      else let t = take TOKEN_LENGTH caption
      in case A t of
        None \<Rightarrow> A
      | Some cl \<Rightarrow>
          if \<not> cl_open cl then A
          else (case cl_window cl of
              None \<Rightarrow> (a_release (windowKey wd) A)(t \<mapsto> cl\<lparr>cl_window := Some wd\<rparr>)
            | Some wd' \<Rightarrow> if wd' \<noteq> wd then A(t := None) else A))"

definition a_deadline :: "string \<Rightarrow> claims \<Rightarrow> claims" where
  "a_deadline t A = (case A t of
      None \<Rightarrow> A
    | Some cl \<Rightarrow> if cl_window cl = None then A(t := None) else A(t \<mapsto> cl\<lparr>cl_open := False\<rparr>))"

definition a_drop :: "(connref \<Rightarrow> bool) \<Rightarrow> claims \<Rightarrow> claims" where
  "a_drop P A t = (case A t of
      None \<Rightarrow> None | Some cl \<Rightarrow> if P (cl_conn cl) then None else Some cl)"

section \<open>Abstraction\<close>

definition claim_of :: "TokenEntry \<Rightarrow> claim" where
  "claim_of e = \<lparr>cl_conn = te_conn e, cl_window = te_window e, cl_open = tm_active (te_timer e)\<rparr>"

definition abs_claims :: "'a token_world_scheme \<Rightarrow> claims" where
  "abs_claims w t = map_option (\<lambda>r. claim_of (entries w r)) (map_of (byToken w) t)"

lemma claim_of_sel [simp]:
  "cl_conn (claim_of e) = te_conn e" "cl_window (claim_of e) = te_window e"
  "cl_open (claim_of e) = tm_active (te_timer e)"
  by (simp_all add: claim_of_def)

lemma abs_claims_cong:
  "byToken w' = byToken w \<Longrightarrow> entries w' = entries w \<Longrightarrow> abs_claims w' = abs_claims w"
  by (simp add: abs_claims_def fun_eq_iff)

lemma abs_claims_comm [simp]:
  "abs_claims (sendLog l m w) = abs_claims w" "abs_claims (notifyClient E c me p w) = abs_claims w"
  by (rule abs_claims_cong; simp)+

section \<open>Removal\<close>

text \<open>Unregistering a set of registered entries removes exactly their claims.\<close>

lemma abs_drop_entries:
  assumes "tok_inv w" "all_registered w rs"
  shows "abs_claims (drop_entries E rs w) =
    (\<lambda>t. case map_of (byToken w) t of
        None \<Rightarrow> None | Some r \<Rightarrow> if r \<in> set rs then None else Some (claim_of (entries w r)))"
proof
  fix t
  let ?v = "fold unregister rs w"
  note f = fold_unregister [OF assms]
  have "abs_claims (drop_entries E rs w) t = abs_claims ?v t"
    by (simp add: abs_claims_def)
  also have "\<dots> = (case map_of (byToken w) t of
        None \<Rightarrow> None | Some r \<Rightarrow> if r \<in> set rs then None else Some (claim_of (entries w r)))"
  proof (cases "map_of (byToken ?v) t")
    case None
    then show ?thesis
      using f(2) [of t] by (auto simp: abs_claims_def split: option.splits)
  next
    case (Some r)
    then have "map_of (byToken w) t = Some r" "r \<notin> set rs"
      using f(2) [of t r] by auto
    then show ?thesis using Some f(4) [of r] by (simp add: abs_claims_def)
  qed
  finally show "abs_claims (drop_entries E rs w) t = \<dots>" .
qed

lemma registered_single:
  "tok_inv w \<Longrightarrow> map_of (byToken w) t = Some r \<Longrightarrow> all_registered w [r]"
  using tok_inv_token [of w t r] by (simp add: all_registered_def)

lemma abs_invalidate:
  assumes "tok_inv w" "map_of (byToken w) t = Some r"
  shows "abs_claims (invalidate E r rs w) = (abs_claims w)(t := None)"
proof -
  have "abs_claims (invalidate E r rs w) = abs_claims (drop_entries E [r] w)"
    by (simp add: invalidate_drop_entries Let_def)
  also have "\<dots> = (abs_claims w)(t := None)"
    unfolding abs_drop_entries [OF assms(1) registered_single [OF assms]]
    using assms(2) registered_entry_unique [OF assms(1)]
    by (auto simp: abs_claims_def fun_eq_iff split: option.splits)
  finally show ?thesis .
qed

text \<open>The index \<open>byWindow\<close> finds the one claim on a window.\<close>

lemma claim_on_window:
  assumes "tok_inv w"
  shows "map_of (byWindow w) k = Some r \<longleftrightarrow>
    (\<exists>t. map_of (byToken w) t = Some r \<and> map_option windowKey (te_window (entries w r)) = Some k)"
proof
  assume "map_of (byWindow w) k = Some r"
  from tok_inv_window [OF assms this]
  show "\<exists>t. map_of (byToken w) t = Some r \<and> map_option windowKey (te_window (entries w r)) = Some k"
    by (auto simp: binding_ok_def)
next
  assume "\<exists>t. map_of (byToken w) t = Some r \<and> map_option windowKey (te_window (entries w r)) = Some k"
  then obtain t where t: "map_of (byToken w) t = Some r" "map_option windowKey (te_window (entries w r)) = Some k"
    by blast
  from tok_inv_token [OF assms t(1)] t(2) show "map_of (byWindow w) k = Some r"
    by (auto simp: entry_ok_def split: TokenState.splits option.splits)
qed

lemma abs_release_free:
  assumes "tok_inv w" "map_of (byWindow w) k = None"
  shows "a_release k (abs_claims w) = abs_claims w"
proof
  fix t
  show "a_release k (abs_claims w) t = abs_claims w t"
  proof (cases "map_of (byToken w) t")
    case None
    then show ?thesis by (simp add: a_release_def abs_claims_def)
  next
    case (Some r)
    then have "map_option windowKey (te_window (entries w r)) \<noteq> Some k"
      using claim_on_window [OF assms(1), of k r] assms(2) by auto
    then show ?thesis by (simp add: a_release_def abs_claims_def Some)
  qed
qed

lemma abs_release_bound:
  assumes inv: "tok_inv w" and r: "map_of (byWindow w) k = Some r" "map_of (byToken w) t = Some r"
  shows "a_release k (abs_claims w) = (abs_claims w)(t := None)"
proof
  fix t'
  show "a_release k (abs_claims w) t' = ((abs_claims w)(t := None)) t'"
  proof (cases "map_of (byToken w) t'")
    case None
    then show ?thesis by (simp add: a_release_def abs_claims_def)
  next
    case (Some r')
    have "map_option windowKey (te_window (entries w r')) = Some k \<longleftrightarrow> t' = t"
      using claim_on_window [OF inv, of k r'] r Some registered_entry_unique [OF inv r(2), of t']
      by auto
    then show ?thesis by (auto simp: a_release_def abs_claims_def Some)
  qed
qed

section \<open>Binding\<close>

lemma abs_supersede:
  assumes inv: "tok_inv w" and pend: "te_window (entries w r) = None"
  shows "abs_claims (supersede E r wd w) = a_release (windowKey wd) (abs_claims w)"
proof (cases "map_of (byWindow w) (windowKey wd)")
  case None
  then show ?thesis by (simp add: supersede_def abs_release_free [OF inv None])
next
  case (Some existing)
  from claim_on_window [OF inv, of "windowKey wd" existing] Some
  obtain t where t: "map_of (byToken w) t = Some existing"
    "map_option windowKey (te_window (entries w existing)) = Some (windowKey wd)" by auto
  then have "existing \<noteq> r" using pend by auto
  then show ?thesis
    by (simp add: supersede_def Some abs_invalidate [OF inv t(1)] abs_release_bound [OF inv Some t(1)])
qed

lemma abs_validate:
  assumes inv: "script_inv E w" and reg: "map_of (byToken w) t = Some r"
    and pend: "te_window (entries w r) = None"
  shows "abs_claims (validate E r wd w) =
    (a_release (windowKey wd) (abs_claims w))(t \<mapsto> (claim_of (entries w r))\<lparr>cl_window := Some wd\<rparr>)"
proof -
  let ?v = "supersede E r wd w"
  note free = supersede_free [OF inv reg pend, of wd]
  have "abs_claims (validate E r wd w) = abs_claims (bind_entry r wd ?v)"
    by (simp add: validate_bind Let_def)
  also have "\<dots> = (abs_claims ?v)(t \<mapsto> (claim_of (entries w r))\<lparr>cl_window := Some wd\<rparr>)"
  proof
    fix t'
    have "r' \<noteq> r" if "map_of (byToken ?v) t' = Some r'" "t' \<noteq> t" for r'
      using registered_entry_unique [OF script_invD(3) [OF free(1)] free(2), of t'] that by auto
    then show "abs_claims (bind_entry r wd ?v) t' =
        ((abs_claims ?v)(t \<mapsto> (claim_of (entries w r))\<lparr>cl_window := Some wd\<rparr>)) t'"
      using free(2,3)
      by (cases "t' = t"; cases "map_of (byToken ?v) t'") (auto simp: abs_claims_def claim_of_def)
  qed
  finally show ?thesis
    by (simp add: abs_supersede [OF script_invD(3) [OF inv] pend])
qed

section \<open>Window events\<close>

lemma abs_checkCaption:
  assumes "script_inv E w"
  shows "abs_claims (checkCaption E wd w) = a_caption (caption_of w wd) wd (abs_claims w)"
proof (cases "length (caption_of w wd) < TOKEN_LENGTH")
  case True
  then show ?thesis by (simp add: checkCaption_def a_caption_def Let_def)
next
  case False
  let ?t = "take TOKEN_LENGTH (caption_of w wd)"
  note inv = script_invD(3) [OF assms]
  show ?thesis
  proof (cases "map_of (byToken w) ?t")
    case None
    with False show ?thesis
      by (simp add: checkCaption_def a_caption_def Let_def abs_claims_def [of w ?t])
  next
    case (Some r)
    then have cl: "abs_claims w ?t = Some (claim_of (entries w r))"
      by (simp add: abs_claims_def)
    show ?thesis
      using False Some cl abs_validate [OF assms Some, of wd] abs_invalidate [OF inv Some, of E Ambiguous]
      by (simp add: checkCaption_def a_caption_def Let_def split: option.splits)
  qed
qed

lemma abs_onWindowRemoved:
  assumes "script_inv E w"
  shows "abs_claims (onWindowRemoved E wd w) = a_release (windowKey wd) (abs_claims w)"
proof (cases "map_of (byWindow w) (windowKey wd)")
  case None
  then show ?thesis
    by (simp add: onWindowRemoved_def abs_release_free [OF script_invD(3) [OF assms] None])
next
  case (Some r)
  note inv = script_invD(3) [OF assms]
  obtain t where t: "map_of (byToken w) t = Some r"
    using claim_on_window [OF inv, of "windowKey wd" r] Some by auto
  show ?thesis
    by (simp add: onWindowRemoved_def Some abs_invalidate [OF inv t] abs_release_bound [OF inv Some t])
qed

lemma abs_claims_native: "abs_claims (w\<lparr>native := n\<rparr>) = abs_claims w"
  by (rule abs_claims_cong) simp_all

lemma abs_onWindowAdded:
  assumes "script_inv E w"
  shows "abs_claims (onWindowAdded E wd w) = a_caption (caption_of w wd) wd (abs_claims w)"
proof -
  let ?v = "snd (connect E (WindowSignal wd ''captionNormalChanged'') (SlotCheckCaption wd) w)"
  have "script_inv E ?v" using assms by (rule script_inv_connect) simp
  moreover have "abs_claims ?v = abs_claims w" by (rule abs_claims_cong) simp_all
  ultimately show ?thesis
    using abs_checkCaption [of E ?v wd] by (simp add: onWindowAdded_def)
qed

lemma abs_deadline_fires:
  assumes "script_inv E w" "r < nextEntry w" "tm_active (te_timer (entries w r))"
  shows "abs_claims (deadline_fires E r w) = a_deadline (te_token (entries w r)) (abs_claims w)"
proof -
  note inv = script_invD(3) [OF assms(1)]
  let ?t = "te_token (entries w r)"
  have reg: "map_of (byToken w) ?t = Some r"
    by (rule tok_inv_timer [OF inv assms(2,3)])
  then have cl: "abs_claims w ?t = Some (claim_of (entries w r))"
    by (simp add: abs_claims_def)
  have st: "te_state (entries w r) = TPending \<longleftrightarrow> te_window (entries w r) = None"
    using tok_inv_token [OF inv reg] by (auto simp: entry_ok_def split: TokenState.splits option.splits)
  show ?thesis
  proof (cases "te_window (entries w r)")
    case None
    then show ?thesis
      using st cl abs_invalidate [OF inv reg, of E Timeout] by (simp add: deadline_fires_eq a_deadline_def)
  next
    case (Some wd)
    have "abs_claims (stop_deadline r w) = (abs_claims w)(?t \<mapsto> (claim_of (entries w r))\<lparr>cl_open := False\<rparr>)"
    proof
      fix t
      have "r' \<noteq> r" if "map_of (byToken w) t = Some r'" "t \<noteq> ?t" for r'
        using registered_entry_unique [OF inv reg, of t] that by auto
      then show "abs_claims (stop_deadline r w) t =
          ((abs_claims w)(?t \<mapsto> (claim_of (entries w r))\<lparr>cl_open := False\<rparr>)) t"
        using reg by (cases "t = ?t"; cases "map_of (byToken w) t") (auto simp: abs_claims_def claim_of_def)
    qed
    then show ?thesis
      using Some st cl by (simp add: deadline_fires_eq a_deadline_def)
  qed
qed

text \<open>A granted request registers one fresh entry.\<close>

definition new_claim :: "string \<Rightarrow> nat \<Rightarrow> connref \<Rightarrow> number \<Rightarrow> 'a token_world_scheme \<Rightarrow> 'a token_world_scheme" where
  "new_claim tok n c ms w = w\<lparr>rng := n, entries := (entries w)(nextEntry w := new_entry tok c ms),
     nextEntry := Suc (nextEntry w), byToken := AList.update tok (nextEntry w) (byToken w)\<rparr>"

lemma token_request_new:
  "sample_loop E (byToken w) (rng w) = Some (tok, n) \<Longrightarrow>
     \<exists>m. token_request E ms c w = Some (Inr (JObj [(''token'', JStr tok)]), sendLog ''info'' m (new_claim tok n c ms w))"
  by (simp add: token_request_def generateToken_def Let_def new_claim_def) blast

lemma abs_new_claim:
  assumes "tok_inv w"
  shows "abs_claims (new_claim tok n c ms w) = a_request tok c (abs_claims w)"
proof
  show "abs_claims (new_claim tok n c ms w) t = a_request tok c (abs_claims w) t" for t
    using tok_inv_token [OF assms, of t]
    by (cases "map_of (byToken w) t") (auto simp: a_request_def abs_claims_def claim_of_def new_entry_def new_claim_def)
qed

lemma abs_token_request:
  assumes "script_inv E w" "token_request E ms c w = Some (res, w')"
  obtains tok where "abs_claims w tok = None" "abs_claims w' = a_request tok c (abs_claims w)"
proof -
  obtain tok n where gen: "sample_loop E (byToken w) (rng w) = Some (tok, n)"
    using assms(2) by (auto simp: token_request_def generateToken_def split: option.splits)
  show ?thesis
  proof (rule that [of tok])
    show "abs_claims w tok = None"
      using sample_loop_Some [OF gen] by (simp add: abs_claims_def)
    show "abs_claims w' = a_request tok c (abs_claims w)"
      using token_request_new [OF gen, of ms c] assms(2) abs_new_claim [OF script_invD(3) [OF assms(1)]] by auto
  qed
qed

section \<open>A client's tokens\<close>

lemma client_entries_mem:
  assumes "tok_inv w" "map_of (byToken w) t = Some r"
  shows "r \<in> set (client_entries w cid) \<longleftrightarrow> conn_id w (te_conn (entries w r)) = cid"
  using map_of_SomeD [OF assms(2)] by (force simp: client_entries_def)

lemma abs_dropClientTokens:
  assumes "script_inv E w"
  shows "abs_claims (dropClientTokens E cid w) = a_drop (\<lambda>c. conn_id w c = cid) (abs_claims w) \<and>
    pushes (dropClientTokens E cid w) = pushes w"
proof
  note inv = script_invD(3) [OF assms]
  have "abs_claims (dropClientTokens E cid w) = abs_claims (drop_entries E (client_entries w cid) w)"
    by (simp add: dropClientTokens_eq Let_def)
  also have "\<dots> = a_drop (\<lambda>c. conn_id w c = cid) (abs_claims w)"
    unfolding abs_drop_entries [OF inv client_entries_registered [OF inv]]
    by (auto simp: a_drop_def abs_claims_def fun_eq_iff client_entries_mem [OF inv] split: option.splits)
  finally show "abs_claims (dropClientTokens E cid w) = a_drop (\<lambda>c. conn_id w c = cid) (abs_claims w)" .
  show "pushes (dropClientTokens E cid w) = pushes w"
    by (simp add: dropClientTokens_eq Let_def dropClientWatches_frame)
qed

text \<open>The claims are exclusive.\<close>

definition exclusive :: "claims \<Rightarrow> bool" where
  "exclusive A \<longleftrightarrow> (\<forall>t t' cl cl' wd wd'. A t = Some cl \<longrightarrow> A t' = Some cl' \<longrightarrow>
     cl_window cl = Some wd \<longrightarrow> cl_window cl' = Some wd' \<longrightarrow> windowKey wd = windowKey wd' \<longrightarrow> t = t')"

lemma exclusive_claims:
  assumes "tok_inv w"
  shows "exclusive (abs_claims w)"
  unfolding exclusive_def
proof (intro allI impI)
  fix t t' cl cl' wd wd'
  assume a: "abs_claims w t = Some cl" "abs_claims w t' = Some cl'" "cl_window cl = Some wd"
    "cl_window cl' = Some wd'" "windowKey wd = windowKey wd'"
  then obtain r r' where r: "map_of (byToken w) t = Some r" "map_of (byToken w) t' = Some r'"
    "te_window (entries w r) = Some wd" "te_window (entries w r') = Some wd'"
    by (auto simp: abs_claims_def)
  have "map_of (byWindow w) (windowKey wd) = Some r" "map_of (byWindow w) (windowKey wd) = Some r'"
    using claim_on_window [OF assms, of "windowKey wd" r] claim_on_window [OF assms, of "windowKey wd" r'] r a(5)
    by auto
  then show "t = t'"
    using registered_entry_unique [OF assms r(1)] r(2) by simp
qed

end
