(* ===== verification/Token_Simulation.thy ===== *)
theory Token_Simulation
  imports Script_Progress Token_Spec
begin

text \<open>
  The claiming protocol as a transition system of its own, and that the script simulates it:
  whatever the script does in a step, in whatever order, happens to the claims as a sequence of
  protocol events.
\<close>

section \<open>The protocol\<close>

datatype claim_event =
    Requested string connref
  | Shown string Window
  | Closed Window
  | Expired string
  | Dropped "connref set"

text \<open>The claims after an event, or nothing if the event cannot happen: a token is granted only
  if it is not in use, and only a deadline that is still ahead expires.\<close>

fun claim_next :: "claim_event \<Rightarrow> claims \<Rightarrow> claims option" where
  "claim_next (Requested t c) A = (if A t = None then Some (a_request t c A) else None)"
| "claim_next (Shown caption wd) A = Some (a_caption caption wd A)"
| "claim_next (Closed wd) A = Some (a_release (windowKey wd) A)"
| "claim_next (Expired t) A = (case A t of
      None \<Rightarrow> None | Some cl \<Rightarrow> if cl_open cl then Some (a_deadline t A) else None)"
| "claim_next (Dropped C) A = Some (a_drop (\<lambda>c. c \<in> C) A)"

fun claim_run :: "claim_event list \<Rightarrow> claims \<Rightarrow> claims option" where
  "claim_run [] A = Some A"
| "claim_run (ev # evs) A = (case claim_next ev A of None \<Rightarrow> None | Some B \<Rightarrow> claim_run evs B)"

definition claim_step :: "claims \<Rightarrow> claims \<Rightarrow> bool" where
  "claim_step A B \<longleftrightarrow> (\<exists>ev. claim_next ev A = Some B)"

definition no_claims :: "claims \<Rightarrow> bool" where
  "no_claims A \<longleftrightarrow> A = (\<lambda>_. None)"

lemma claim_run_append:
  "claim_run (xs @ ys) A = (case claim_run xs A of None \<Rightarrow> None | Some B \<Rightarrow> claim_run ys B)"
  by (induction xs arbitrary: A) (auto split: option.splits)

lemma claim_run_steps: "claim_run evs A = Some B \<Longrightarrow> claim_step\<^sup>*\<^sup>* A B"
proof (induction evs arbitrary: A)
  case (Cons ev evs)
  then obtain A1 where "claim_next ev A = Some A1" "claim_run evs A1 = Some B"
    by (auto split: option.splits)
  then show ?case
    using Cons.IH by (metis claim_step_def converse_rtranclp_into_rtranclp)
qed simp

subsection \<open>What the protocol keeps\<close>

text \<open>No two tokens have the same window, and the deadline of an unbound token is ahead.\<close>

definition claims_ok :: "claims \<Rightarrow> bool" where
  "claims_ok A \<longleftrightarrow> exclusive A \<and> (\<forall>t cl. A t = Some cl \<longrightarrow> cl_window cl = None \<longrightarrow> cl_open cl)"

lemma claims_ok_subset:
  assumes "claims_ok A" "\<And>t cl. B t = Some cl \<Longrightarrow> A t = Some cl"
  shows "claims_ok B"
  using assms unfolding claims_ok_def exclusive_def by metis

lemma claims_ok_release: "claims_ok A \<Longrightarrow> claims_ok (a_release k A)"
  by (erule claims_ok_subset) (auto simp: a_release_def split: option.splits if_splits)

lemma claims_ok_drop: "claims_ok A \<Longrightarrow> claims_ok (a_drop P A)"
  by (erule claims_ok_subset) (auto simp: a_drop_def split: option.splits if_splits)

lemma claims_ok_withdraw: "claims_ok A \<Longrightarrow> claims_ok (A(t := None))"
  by (erule claims_ok_subset) (auto split: if_splits)

lemma claims_ok_bind:
  assumes "claims_ok A"
  shows "claims_ok ((a_release (windowKey wd) A)(t \<mapsto> cl\<lparr>cl_window := Some wd\<rparr>))"
proof -
  let ?B = "a_release (windowKey wd) A"
  have "windowKey wd' \<noteq> windowKey wd" if "?B t' = Some cl'" "cl_window cl' = Some wd'" for t' cl' wd'
    using that by (auto simp: a_release_def split: option.splits if_splits)
  then show ?thesis
    using claims_ok_release [OF assms, of "windowKey wd"] unfolding claims_ok_def exclusive_def
    by (auto split: if_splits) metis+
qed

lemma claims_ok_caption: "claims_ok A \<Longrightarrow> claims_ok (a_caption caption wd A)"
  by (simp add: a_caption_def Let_def claims_ok_bind claims_ok_withdraw split: option.splits)

lemma claims_ok_request: "claims_ok A \<Longrightarrow> claims_ok (a_request t c A)"
  unfolding claims_ok_def exclusive_def a_request_def by (auto split: if_splits)

lemma claims_ok_deadline:
  assumes "claims_ok A"
  shows "claims_ok (a_deadline t A)"
proof (cases "A t")
  case (Some cl)
  have "claims_ok (A(t \<mapsto> cl\<lparr>cl_open := False\<rparr>))" if "cl_window cl = Some wd" for wd
    using assms that Some unfolding claims_ok_def exclusive_def by (auto split: if_splits)
  then show ?thesis
    using Some assms by (auto simp: a_deadline_def claims_ok_withdraw)
qed (simp add: a_deadline_def assms)

lemma claims_ok_step: "claims_ok A \<Longrightarrow> claim_step A B \<Longrightarrow> claims_ok B"
proof -
  have "claims_ok B" if "claims_ok A" "claim_next ev A = Some B" for ev
    using that by (cases ev)
      (auto simp: claims_ok_request claims_ok_caption claims_ok_release claims_ok_deadline claims_ok_drop
        split: if_splits option.splits)
  then show "claims_ok A \<Longrightarrow> claim_step A B \<Longrightarrow> claims_ok B"
    by (auto simp: claim_step_def)
qed

interpretation protocol: transition_system no_claims claim_step claims_ok
proof unfold_locales
  show "no_claims A \<Longrightarrow> claims_ok A" for A
    by (simp add: no_claims_def claims_ok_def exclusive_def)
qed (rule claims_ok_step)

subsection \<open>Only captions bind\<close>

definition bound_to :: "claims \<Rightarrow> string \<Rightarrow> Window \<Rightarrow> bool" where
  "bound_to A t wd \<longleftrightarrow> (\<exists>cl. A t = Some cl \<and> cl_window cl = Some wd)"

lemma claim_next_binds:
  assumes "claim_next ev A = Some B" "bound_to B t wd" "\<not> bound_to A t wd"
  shows "\<exists>caption. ev = Shown caption wd \<and> TOKEN_LENGTH \<le> length caption \<and> t = take TOKEN_LENGTH caption"
proof (cases ev)
  case (Shown caption wd')
  then have "bound_to (a_caption caption wd' A) t wd" using assms by simp
  moreover have "\<not> bound_to (a_release k A) t wd" for k
    using assms(3) by (auto simp: bound_to_def a_release_def split: option.splits if_splits)
  ultimately show ?thesis
    using assms(3) Shown
    by (auto simp: a_caption_def Let_def bound_to_def split: if_splits option.splits)
qed (use assms in \<open>auto simp: bound_to_def a_request_def a_release_def a_deadline_def a_drop_def
    split: if_splits option.splits\<close>)

lemma claim_run_binds:
  assumes "claim_run evs A = Some B" "bound_to B t wd" "\<not> bound_to A t wd"
  shows "\<exists>caption. Shown caption wd \<in> set evs \<and> TOKEN_LENGTH \<le> length caption \<and> t = take TOKEN_LENGTH caption"
  using assms
proof (induction evs arbitrary: A)
  case (Cons ev evs)
  then obtain A1 where A1: "claim_next ev A = Some A1" "claim_run evs A1 = Some B"
    by (auto split: option.splits)
  show ?case
    using claim_next_binds [OF A1(1) _ Cons.prems(3)] Cons.IH [OF A1(2) Cons.prems(2)] by (cases "bound_to A1 t wd") auto
qed simp

section \<open>Claims change by events\<close>

definition claims_by :: "(claim_event \<Rightarrow> bool) \<Rightarrow> 'a token_world_scheme \<Rightarrow> 'a token_world_scheme \<Rightarrow> bool" where
  "claims_by P w w' \<longleftrightarrow> (\<exists>evs. list_all P evs \<and> claim_run evs (abs_claims w) = Some (abs_claims w'))"

lemma claims_by_same: "abs_claims w' = abs_claims w \<Longrightarrow> claims_by P w w'"
  unfolding claims_by_def by (rule exI [of _ "[]"]) simp

lemma claims_by_event:
  "P ev \<Longrightarrow> claim_next ev (abs_claims w) = Some (abs_claims w') \<Longrightarrow> claims_by P w w'"
  unfolding claims_by_def by (rule exI [of _ "[ev]"]) simp

lemma claims_by_trans: "claims_by P w w1 \<Longrightarrow> claims_by P w1 w2 \<Longrightarrow> claims_by P w w2"
  unfolding claims_by_def by (metis (no_types, lifting) claim_run_append list_all_append option.simps(5))

lemma claims_by_mono: "claims_by P w w' \<Longrightarrow> (\<And>ev. P ev \<Longrightarrow> Q ev) \<Longrightarrow> claims_by Q w w'"
  unfolding claims_by_def by (metis list.pred_mono_strong)

lemma claims_by_cong: "abs_claims w = abs_claims v \<Longrightarrow> abs_claims w' = abs_claims v' \<Longrightarrow> claims_by P w w' = claims_by P v v'"
  by (simp add: claims_by_def)

section \<open>Signals and methods\<close>

text \<open>A window shows the caption it has in a state of KWin, or closes.\<close>

fun window_event :: "(native \<Rightarrow> bool) \<Rightarrow> claim_event \<Rightarrow> bool" where
  "window_event N (Shown caption wd) = (\<exists>n. N n \<and> caption = captionNormal (win_state n wd))"
| "window_event N (Closed _) = True"
| "window_event N _ = False"

lemma window_event_mono: "window_event N ev \<Longrightarrow> (\<And>n. N n \<Longrightarrow> M n) \<Longrightarrow> window_event M ev"
  by (cases ev) auto

text \<open>The states KWin signals while it reacts to an assignment.\<close>

definition reported :: "ext \<Rightarrow> native \<Rightarrow> bool" where
  "reported E n \<longleftrightarrow> (\<exists>a m. n \<in> fst ` set (rc_emissions (kwinAssign E a m)))"

text \<open>What a client brings about: its requests, and what its updates make KWin signal.\<close>

definition client_event :: "ext \<Rightarrow> connref \<Rightarrow> claim_event \<Rightarrow> bool" where
  "client_event E c ev \<longleftrightarrow> window_event (reported E) ev \<or> (\<exists>t. ev = Requested t c)"

lemma claims_by_run_slot:
  assumes "full_inv E w"
  shows "claims_by (window_event ((=) (native w))) w (run_slot E arg sl w)"
proof -
  note s = full_invD(1) [OF assms]
  have shown: "claims_by (window_event ((=) (native w))) w v"
    if "abs_claims v = a_caption (caption_of w wd) wd (abs_claims w)" for wd v
    by (rule claims_by_event [of _ "Shown (caption_of w wd) wd"]) (simp_all add: that)
  have closed: "claims_by (window_event ((=) (native w))) w v"
    if "abs_claims v = a_release (windowKey wd) (abs_claims w)" for wd v
    by (rule claims_by_event [of _ "Closed wd"]) (simp_all add: that)
  have catalogs: "abs_claims (rescanDesktops w) = abs_claims w" "abs_claims (activityAdded i w) = abs_claims w"
    "abs_claims (activityRemoved i w) = abs_claims w" for i
    by (rule abs_claims_cong; simp add: rescanDesktops_def activityAdded_def activityRemoved_def)+
  show ?thesis
    by (cases sl; cases arg)
      (simp_all add: run_slot_def window_changed_def workspace_changed_def claims_by_same catalogs
        shown [OF abs_checkCaption [OF s]] shown [OF abs_onWindowAdded [OF s]] closed [OF abs_onWindowRemoved [OF s]])
qed

lemma claims_by_signal:
  assumes "full_inv E w" "kwin_evolves E (native w) n"
  shows "claims_by (window_event ((=) n)) w (kwin_signal E (n, sig, arg) w)"
proof -
  let ?w = "w\<lparr>native := n\<rparr>"
  let ?P = "\<lambda>v. full_inv E v \<and> native v = n \<and> claims_by (window_event ((=) n)) ?w v"
  have "?P (emit E sig arg ?w)"
    unfolding emit_def
  proof (rule fold_invariant_set [where P = ?P])
    show "?P (run_slot E arg sl v)" if "?P v" for sl v
      using that ws_untouched_run_slot [of E v arg sl] full_inv_run_slot [of E v arg sl]
        claims_by_trans [of _ ?w v, OF _ claims_by_run_slot [of E v arg sl, simplified]]
      by (auto simp: ws_untouched_def)
  qed (simp add: full_inv_native [OF assms] claims_by_same)
  then show ?thesis
    by (simp add: kwin_signal_def claims_by_def abs_claims_native)
qed

lemma claims_by_signals:
  assumes "full_inv E w" "evolves_through E (native w) (map fst ems) n'"
  shows "claims_by (window_event (\<lambda>n. n \<in> fst ` set ems)) w (fold (kwin_signal E) ems w)"
  using assms
proof (induction ems arbitrary: w)
  case Nil
  then show ?case by (simp add: claims_by_same)
next
  case (Cons em ems)
  obtain n sig arg where em: "em = (n, sig, arg)" by (cases em)
  have ev: "kwin_evolves E (native w) n" using Cons.prems(2) by (simp add: em)
  note v = kwin_signal_inv [OF Cons.prems(1) ev, of sig arg, folded em]
  have "evolves_through E (native (kwin_signal E em w)) (map fst ems) n'"
    using Cons.prems(2) by (simp add: em v(3) [unfolded em])
  note rest = Cons.IH [OF v(1) this]
  have "claims_by (window_event (\<lambda>n. n \<in> fst ` set (em # ems))) w (kwin_signal E em w)"
    "claims_by (window_event (\<lambda>n. n \<in> fst ` set (em # ems))) (kwin_signal E em w) (fold (kwin_signal E) ems (kwin_signal E em w))"
    by (rule claims_by_mono [OF claims_by_signal [OF Cons.prems(1) ev, of sig arg, folded em]],
        erule window_event_mono, simp add: em)
      (rule claims_by_mono [OF rest], erule window_event_mono, simp)
  from claims_by_trans [OF this] show ?case by simp
qed

lemma claims_by_assign:
  assumes "kwin_documented E" "full_inv E w"
  shows "claims_by (window_event (reported E)) w (snd (assign_kwin E a w))"
proof -
  let ?rc = "kwinAssign E a (native w)"
  have "evolves_through E (native w) (map fst (rc_emissions ?rc)) (rc_native ?rc)"
    using assms(1) by (simp add: kwin_documented_def)
  note ems = claims_by_signals [OF assms(2) this]
  have "claims_by (window_event (reported E)) w (fold (kwin_signal E) (rc_emissions ?rc) w)"
    by (rule claims_by_mono [OF ems], erule window_event_mono) (auto simp: reported_def)
  then show ?thesis
    by (simp add: assign_kwin_def Let_def claims_by_def abs_claims_native)
qed

lemma claims_by_apply_updates:
  assumes "kwin_documented E"
  shows "full_inv E w \<Longrightarrow> claims_by (window_event (reported E)) w (snd (apply_updates E wd es w))"
proof (induction es arbitrary: w)
  case Nil
  then show ?case by (simp add: claims_by_same)
next
  case (Cons e es)
  obtain p v where e: "e = (p, v)" by (cases e)
  obtain err w1 where u: "applyUpdate E wd p v w = (err, w1)" by fastforce
  have "claims_by (window_event (reported E)) w (snd (applyUpdate E wd p v w))"
    by (auto simp: applyUpdate_def claims_by_assign [OF assms Cons.prems] claims_by_same split: option.splits)
  then have "claims_by (window_event (reported E)) w w1" "full_inv E w1"
    using applyUpdate_inv [OF assms Cons.prems, of wd p v] by (simp_all add: u)
  then show ?case
    using Cons.IH [of w1] by (cases err) (auto simp: e u intro: claims_by_trans)
qed

lemma claims_by_ws_apply_updates:
  assumes "kwin_documented E"
  shows "full_inv E w \<Longrightarrow> claims_by (window_event (reported E)) w (snd (ws_apply_updates E es w))"
proof (induction es arbitrary: w)
  case Nil
  then show ?case by (simp add: claims_by_same)
next
  case (Cons e es)
  obtain p v where e: "e = (p, v)" by (cases e)
  obtain err w1 where u: "ws_applyUpdate E p v w = (err, w1)" by fastforce
  have "claims_by (window_event (reported E)) w (snd (ws_applyUpdate E p v w))"
    by (auto simp: ws_applyUpdate_def claims_by_assign [OF assms Cons.prems] claims_by_same split: option.splits)
  then have "claims_by (window_event (reported E)) w w1" "full_inv E w1"
    using ws_applyUpdate_inv [OF assms Cons.prems, of p v] by (simp_all add: u)
  then show ?case
    using Cons.IH [of w1] by (cases err) (auto simp: e u intro: claims_by_trans)
qed

lemma claims_by_updates:
  assumes "kwin_documented E" "full_inv E w"
  shows "windows_update E ps c w = Some (res, w') \<Longrightarrow> claims_by (window_event (reported E)) w w'"
    and "workspace_update E es c w = Some (res, w') \<Longrightarrow> claims_by (window_event (reported E)) w w'"
proof -
  have log: "claims_by (window_event (reported E)) w (sendLog l m v) = claims_by (window_event (reported E)) w v" for l m v
    by (rule claims_by_cong) simp_all
  have "claims_by (window_event (reported E)) w w1" if "apply_updates E wd es w = (err, w1)" for wd es err w1
    using claims_by_apply_updates [OF assms, of wd es] that by simp
  then show "windows_update E ps c w = Some (res, w') \<Longrightarrow> claims_by (window_event (reported E)) w w'"
    by (cases ps) (auto simp: windows_update_def claims_by_same log
        split: sum.splits option.splits prod.splits if_splits)
  have "claims_by (window_event (reported E)) w w1" if "ws_apply_updates E es w = (err, w1)" for es err w1
    using claims_by_ws_apply_updates [OF assms, of es] that by simp
  then show "workspace_update E es c w = Some (res, w') \<Longrightarrow> claims_by (window_event (reported E)) w w'"
    by (auto simp: workspace_update_def claims_by_same log split: option.splits prod.splits if_splits)
qed

lemma abs_claims_watch:
  "window_watch E ps c w = Some (res, w') \<Longrightarrow> abs_claims w' = abs_claims w"
  "full_inv E w \<Longrightarrow> workspace_watch E es c w = Some (res, w') \<Longrightarrow> c < nextConn w \<Longrightarrow> abs_claims w' = abs_claims w"
proof -
  have "abs_claims (snd (watch_loop (setWatch E tok c wd) es [] w)) = abs_claims w" for tok wd es
    by (rule watch_loop_invariant [where P = "\<lambda>v. abs_claims v = abs_claims w"])
      (auto simp: abs_claims_cong [OF setWatch_tokens(1,3)])
  then have "abs_claims v = abs_claims w" if "watch_loop (setWatch E tok c wd) es [] w = (r, v)" for tok wd es r v
    using that by (metis snd_conv)
  then show "abs_claims w' = abs_claims w" if "window_watch E ps c w = Some (res, w')"
    using that by (cases ps) (auto simp: window_watch_def split: sum.splits option.splits)
next
  assume inv: "full_inv E w" and c: "c < nextConn w" and run: "workspace_watch E es c w = Some (res, w')"
  let ?P = "\<lambda>v. full_inv E v \<and> nextConn v = nextConn w \<and> abs_claims v = abs_claims w"
  have "?P (snd (watch_loop (ws_setWatch E c) es [] w))"
  proof (rule watch_loop_invariant [where P = ?P])
    show "?P (snd (ws_setWatch E c p b v))" if "?P v" for p b v
    proof -
      have "same_registries (snd (ws_setWatch E c p b v)) v"
        using that by (intro ws_setWatch_same full_invD(2)) simp
      then show ?thesis
        using that c ws_setWatch_full_inv(1) [of E v c p b] abs_claims_cong [of "snd (ws_setWatch E c p b v)" v]
        by (simp add: same_registries_def)
    qed
  qed (simp add: inv)
  then show "abs_claims w' = abs_claims w"
    using run by (auto simp: workspace_watch_def split: option.splits)
qed

lemma claims_by_registered:
  assumes "registerMethod E schema (typed_handler E dec h) ps c w = Some (res, w')"
    and "\<And>p r v. h p c w = Some (r, v) \<Longrightarrow> claims_by P w v"
  shows "claims_by P w w'"
  using registerMethod_runs [OF assms(1)] assms(2) claims_by_same by blast

lemma client_eventI [simp]: "window_event (reported E) ev \<Longrightarrow> client_event E c ev" "client_event E c (Requested t c)"
  by (simp_all add: client_event_def)

lemma claims_by_method:
  assumes E: "kwin_documented E" and g: "good E w" and c: "c < nextConn w"
    and m: "(name, h) \<in> set (rpc_methods E)" and run: "h ps c w = Some (res, w')"
  shows "claims_by (client_event E c) w w'"
proof -
  note inv = goodD(1) [OF g]
  note upd = claims_by_mono [OF claims_by_updates(1) [OF E inv]] claims_by_mono [OF claims_by_updates(2) [OF E inv]]
  note same = claims_by_same [OF abs_claims_watch(1)] claims_by_same [OF abs_claims_watch(2) [OF inv _ c]]
  have req: "claims_by (client_event E c) w v" if run: "token_request E ms c w = Some (r, v)" for ms r v
  proof -
    obtain tok where "abs_claims w tok = None" "abs_claims v = a_request tok c (abs_claims w)"
      by (rule abs_token_request [OF full_invD(1) [OF inv] run])
    then show ?thesis by (intro claims_by_event [of _ "Requested tok c"]) simp_all
  qed
  from m consider
      "h = method_windows_update E" | "h = method_windows_query E" | "h = method_window_watch E"
    | "h = method_token_request E" | "h = method_workspace_update E" | "h = method_workspace_query E"
    | "h = method_workspace_watch E"
    by (auto simp: rpc_methods_def)
  then show ?thesis
  proof cases
    case 1
    then show ?thesis
      using run claims_by_registered upd(1) client_eventI(1) unfolding method_windows_update_def by blast
  next
    case 2
    then show ?thesis
      using run claims_by_registered windows_query_same claims_by_same unfolding method_windows_query_def by blast
  next
    case 3
    then show ?thesis
      using run claims_by_registered same(1) unfolding method_window_watch_def by blast
  next
    case 4
    then show ?thesis
      using run claims_by_registered req unfolding method_token_request_def by blast
  next
    case 5
    then show ?thesis
      using run claims_by_registered upd(2) client_eventI(1) unfolding method_workspace_update_def by blast
  next
    case 6
    then show ?thesis
      using run claims_by_registered workspace_query_same claims_by_same unfolding method_workspace_query_def by blast
  next
    case 7
    then show ?thesis
      using run claims_by_registered same(2) unfolding method_workspace_watch_def by blast
  qed
qed

lemma claims_by_runs:
  assumes E: "kwin_documented E" and g: "good E w" and c: "c < nextConn w"
  shows "runs (rpc_methods E) (errorListener E) c w w' \<Longrightarrow> claims_by (client_event E c) w w'"
proof (induction rule: runs.induct)
  case runs_refl
  then show ?case by (simp add: claims_by_same)
next
  case (runs_method w1 name h params res w2)
  have "good E w1" "c < nextConn w1"
    using inner_step_runs [OF E g c runs_method(1)] c by (simp_all add: inner_step_def same_outer_def)
  from claims_by_method [OF E this runs_method(2,3)] show ?case
    by (rule claims_by_trans [OF runs_method.IH])
next
  case (runs_listener w1 message e)
  have "abs_claims (errorListener E message e w1) = abs_claims w1"
    by (cases e) simp_all
  from claims_by_trans [OF runs_listener.IH claims_by_same [OF this]] show ?case .
qed

lemma claims_by_receive:
  assumes "kwin_documented E" "receiver_documented R" "good E w" "c < nextConn w"
    and "R (rpc_methods E) (errorListener E) message c w = Some (res, w')"
  shows "claims_by (client_event E c) w w'"
  using assms(2,5) by (intro claims_by_runs [OF assms(1,3,4)]) (simp add: receiver_documented_def)

section \<open>Loops\<close>

lemma abs_claims_calls [simp]:
  "abs_claims (dbus_reply i v w) = abs_claims w" "abs_claims (promise_timeout E i w) = abs_claims w"
  "abs_claims (mark_done i w) = abs_claims w" "abs_claims (print s w) = abs_claims w"
  "abs_claims (send E c m w) = abs_claims w"
  by (rule abs_claims_cong; simp add: dbus_reply_def promise_timeout_def mark_done_def print_def send_def dbus_defs)+

lemma abs_claims_outer [simp]:
  "abs_claims (set_loop c l w) = abs_claims w" "abs_claims (w\<lparr>control := k\<rparr>) = abs_claims w"
  by (rule abs_claims_cong; simp add: set_loop_def)+

lemma abs_claims_turns [simp]:
  "abs_claims (run_head E c w) = abs_claims w" "abs_claims (client_sleep ms c w) = abs_claims w"
  "abs_claims (control_poll w) = abs_claims w" "abs_claims (control_sleep ms w) = abs_claims w"
  by (rule abs_claims_cong; simp add: run_head_def client_sleep_def control_poll_def control_sleep_def pollClient_def
      pollDaemon_def sleep_def callDBusAsync_def new_promise_def set_loop_def)+

lemma abs_claims_reaction [simp]: "abs_claims (promise_reaction E i w) = abs_claims w"
  by (simp add: promise_reaction_def Let_def log_settled_def push_settled_def split: waiter.splits outcome.splits)

lemma abs_claims_reply [simp]: "abs_claims (reply_response E c v w) = abs_claims w"
  by (simp add: reply_response_def Let_def split: jsval.splits)

lemma claims_by_dispatch_next:
  assumes "kwin_documented E" "receiver_documented R" "good E w" "c < nextConn w"
    "dispatch_next E R c ms w = Some w'"
  shows "claims_by (client_event E c) w w'"
proof (cases ms)
  case Nil
  then show ?thesis using assms(5) by (auto simp: dispatch_next_def intro: claims_by_same)
next
  case (Cons m rest)
  then obtain res w1 where "R (rpc_methods E) (errorListener E) m c w = Some (res, w1)"
    and w': "w' = set_loop c (CReceive res rest) w1"
    using assms(5) by (auto simp: dispatch_next_def split: option.splits)
  from claims_by_receive [OF assms(1-4) this(1)] show ?thesis
    by (simp add: w' claims_by_def)
qed

lemma claims_by_client_step:
  assumes E: "kwin_documented E" "receiver_documented R" and inv: "world_inv E None w"
    and c: "c < nextConn w" and run: "client_step E R c w = Some w'"
  shows "claims_by (client_event E c) w w'"
proof -
  have next_messages: "claims_by (client_event E c) w w'"
    if "dispatch_next E R c ms v = Some w'" "good E v" "nextConn v = nextConn w" "abs_claims v = abs_claims w" for ms v
    using claims_by_dispatch_next [OF E that(2) _ that(1)] c that(3,4) by (simp add: claims_by_def)
  have done_good: "good E (mark_done i w)" "nextConn (mark_done i w) = nextConn w" if "loops w c = CPoll i" for i
    using world_inv_resume [OF inv, of "Client c" i] that by (simp_all add: world_inv_def mark_done_def)
  show ?thesis
  proof (cases "loops w c")
    case (CPoll i)
    then show ?thesis
      using run next_messages [OF _ done_good] claims_by_same [of w' w]
      by (auto simp: client_step_def client_polled_def split: option.splits sum.splits jsval.splits if_splits)
  next
    case (CNext err rest)
    then obtain v where "dispatch_next E R c rest v = Some w'" "v = w \<or> (\<exists>m. v = sendLog ''warn'' m w)"
      using run by (auto simp: client_step_def dispatch_done_def split: option.splits)
    then show ?thesis
      using next_messages [of rest v] world_invD(1) [OF inv]
        inner_step_good [OF inner_step_log [OF world_invD(1) [OF inv]]] by auto
  qed (use run in \<open>auto simp: client_step_def dispatch_answered_def intro!: claims_by_same split: sum.splits\<close>)
qed

section \<open>Connections come and go\<close>

text \<open>The claims of connections that are dead in \<open>w\<close> are dropped.\<close>

definition drop_event :: "world \<Rightarrow> claim_event \<Rightarrow> bool" where
  "drop_event w ev \<longleftrightarrow> (\<exists>C. ev = Dropped C \<and> (\<forall>c \<in> C. c < nextConn w \<and> \<not> conn_alive w c))"

lemma drop_event_later: "history w w' \<Longrightarrow> drop_event w ev \<Longrightarrow> drop_event w' ev"
  unfolding history_def conns_le_def drop_event_def by (fastforce dest: order_less_le_trans)

lemma abs_claims_connected: "abs_claims (onClientConnected E i w) = abs_claims w"
proof -
  have "abs_claims (w\<lparr>conns := x, nextConn := n, connections := y\<rparr>) = abs_claims w" for x n y
    by (rule abs_claims_cong) simp_all
  then show ?thesis by (simp add: onClientConnected_def Let_def)
qed

lemma claims_of_known: "registry_wf E w \<Longrightarrow> abs_claims w t = Some cl \<Longrightarrow> cl_conn cl < nextConn w"
  by (auto simp: registry_wf_def abs_claims_def)

lemma claims_by_disconnected:
  assumes inv: "world_inv E (Some Control) w"
  shows "claims_by (drop_event (onClientDisconnected E i w)) w (onClientDisconnected E i w)"
proof (cases "map_of (connections w) i")
  case None
  then show ?thesis by (simp add: onClientDisconnected_def claims_by_same)
next
  case (Some c)
  let ?v = "(stop_conn c w)\<lparr>connections := AList.delete i (connections (stop_conn c w))\<rparr>"
  let ?d = "dropClientTokens E i ?v" and ?w' = "onClientDisconnected E i w"
  let ?C = "{d. d < nextConn w \<and> conn_id w d = i}"
  note g = world_invD(1) [OF inv] and cinv = conn_invD [OF world_invD(2) [OF inv]]
  have v: "good E ?v"
    by (rule good_change [OF g]) (use good_dbus [OF g] in \<open>auto simp: stop_conn_def dbus_inv_def\<close>)
  have id: "conn_id (stop_conn c w) d = conn_id w d" for d by (simp add: stop_conn_def)
  have vw: "abs_claims ?v = abs_claims w" by (rule abs_claims_cong) (simp_all add: stop_conn_def)
  have w': "abs_claims ?w' = abs_claims ?d" "conns ?w' = conns (stop_conn c w)" "nextConn ?w' = nextConn w"
  proof -
    note s = full_invD(1) [OF goodD(1) [OF v]]
    have d: "full_inv E ?d"
      by (rule full_inv_untouched [OF goodD(1) [OF v] script_inv_dropClientTokens [OF s] ws_untouched_events(4) [OF s]])
    from dropWs_same [OF full_invD(2) [OF this], of i] ws_untouched_events(4) [OF s, of i]
    show "abs_claims ?w' = abs_claims ?d" "conns ?w' = conns (stop_conn c w)" "nextConn ?w' = nextConn w"
      using abs_claims_cong [of "dropClientWorkspaceWatches E i ?d" ?d]
      by (simp_all add: onClientDisconnected_def Some Let_def same_registries_def ws_untouched_def stop_conn_def)
  qed
  have "a_drop (\<lambda>d. conn_id ?v d = i) (abs_claims w) = a_drop (\<lambda>d. d \<in> ?C) (abs_claims w)"
    using claims_of_known [OF goodD(3) [OF g]] by (auto simp: a_drop_def id fun_eq_iff split: option.splits)
  then have "claim_next (Dropped ?C) (abs_claims w) = Some (abs_claims ?w')"
    using abs_dropClientTokens [OF full_invD(1) [OF goodD(1) [OF v]], of i] by (simp add: w'(1) vw)
  moreover have "drop_event ?w' (Dropped ?C)"
    using cinv(3) Some by (auto simp: drop_event_def w' stop_conn_def)
  ultimately show ?thesis by (rule claims_by_event [rotated])
qed

lemma claims_by_control_events:
  "world_inv E (Some Control) w \<Longrightarrow>
     claims_by (drop_event (fold (control_event E) evs w)) w (fold (control_event E) evs w)"
proof (induction evs arbitrary: w)
  case Nil
  then show ?case by (simp add: claims_by_same)
next
  case (Cons ev evs)
  let ?v = "control_event E ev w" and ?w' = "fold (control_event E) (ev # evs) w"
  note v = world_inv_control_event [OF Cons.prems, of ev]
  have "claims_by (drop_event ?v) w ?v"
    using claims_by_disconnected [OF Cons.prems] claims_by_same [OF abs_claims_connected] claims_by_same [of w w]
    by (auto simp: control_event_def split: jsval.splits)
  then have "claims_by (drop_event ?w') w ?v"
    by (rule claims_by_mono) (use drop_event_later [OF history_control_events [OF v]] in simp)
  from claims_by_trans [OF this] Cons.IH [OF v] show ?case by simp
qed

lemma claims_by_control_step:
  assumes inv: "world_inv E None w"
  shows "claims_by (drop_event (control_step E w)) w (control_step E w)"
proof -
  have "claims_by (drop_event (control_polled E result v)) v (control_polled E result v)"
    if "world_inv E (Some Control) v" for result v
  proof (cases "\<exists>evs. result = Inr (JArr evs)")
    case True
    then obtain evs where r: "control_polled E result v = control_sleep 0 (fold (control_event E) evs v)"
      by (auto simp: control_polled_def)
    from claims_by_mono [OF claims_by_control_events [OF that] drop_event_later [OF history_turns(4)]]
    show ?thesis by (simp add: r claims_by_def)
  next
    case False
    then show ?thesis
      by (intro claims_by_same) (auto simp: control_polled_def split: sum.splits jsval.splits)
  qed
  then have "claims_by (drop_event (control_polled E result (mark_done i w))) w (control_polled E result (mark_done i w))"
    if "control w = KPoll i" for i result
    using world_inv_resume [OF inv, of Control i] that by (fastforce simp: claims_by_def)
  then show ?thesis
    using claims_by_same [of "control_step E w" w]
    by (auto simp: control_step_def split: control_loop.splits option.splits)
qed

section \<open>Steps\<close>

text \<open>The events a step may bring about: a client that runs makes requests, dead connections
  lose their claims, a caption shown is one that KWin has given the window; deadlines and the
  closing of windows are outside of the script's control.\<close>

definition step_event :: "ext \<Rightarrow> world \<Rightarrow> world \<Rightarrow> claim_event \<Rightarrow> bool" where
  "step_event E w w' ev = (case ev of
      Requested t c \<Rightarrow> c < nextConn w \<and> client_ready w c
    | Shown caption wd \<Rightarrow> \<exists>n. (n = native w' \<or> reported E n) \<and> caption = captionNormal (win_state n wd)
    | Dropped C \<Rightarrow> \<forall>c \<in> C. c < nextConn w' \<and> \<not> conn_alive w' c
    | _ \<Rightarrow> True)"

lemma step_event_simps [simp]:
  "step_event E w w' (Expired t)" "step_event E w w' (Closed wd)"
  "step_event E w w' (Shown caption wd) =
     (\<exists>n. (n = native w' \<or> reported E n) \<and> caption = captionNormal (win_state n wd))"
  "step_event E w w' (Dropped C) = (\<forall>c \<in> C. c < nextConn w' \<and> \<not> conn_alive w' c)"
  "step_event E w w' (Requested t c) = (c < nextConn w \<and> client_ready w c)"
  by (simp_all add: step_event_def)

lemma step_event_window: "window_event (\<lambda>n. n = native w' \<or> reported E n) ev \<Longrightarrow> step_event E w w' ev"
  by (cases ev) simp_all

lemma step_event_drop: "drop_event w' ev \<Longrightarrow> step_event E w w' ev"
  by (auto simp: drop_event_def)

lemma step_event_client: "c < nextConn w \<Longrightarrow> client_ready w c \<Longrightarrow> client_event E c ev \<Longrightarrow> step_event E w w' ev"
  by (auto simp: client_event_def intro: step_event_window elim: window_event_mono)

lemma claims_by_step:
  assumes E: "kwin_documented E" "receiver_documented R" and inv: "world_inv E None w" and st: "step E R w w'"
  shows "claims_by (step_event E w w') w w'"
  using st
proof cases
  case (step_deadline r)
  note s = world_inv_script [OF inv]
  have "map_of (byToken w) (te_token (entries w r)) = Some r"
    by (rule tok_inv_timer [OF script_invD(3) [OF s] step_deadline(2,3)])
  then show ?thesis
    using step_deadline abs_deadline_fires [OF s step_deadline(2,3)]
    by (intro claims_by_event [of _ "Expired (te_token (entries w r))"]) (simp_all add: abs_claims_def [of w])
next
  case (step_signal n sig arg)
  then have n: "native w' = n" using kwin_signal_inv(3) [OF world_inv_full [OF inv]] by simp
  have "step_event E w w' ev" if "window_event ((=) n) ev" for ev
    by (rule step_event_window [OF window_event_mono [OF that]]) (simp add: n)
  from claims_by_mono [OF claims_by_signal [OF world_inv_full [OF inv] step_signal(2)] this] show ?thesis
    by (simp add: step_signal(1))
next
  case (step_client c)
  show ?thesis
    by (rule claims_by_mono [OF claims_by_client_step [OF E inv step_client(1,3)] step_event_client [OF step_client(1,2)]])
next
  case step_control
  then show ?thesis
    using claims_by_mono [OF claims_by_control_step [OF inv] step_event_drop] by simp
qed (simp_all add: claims_by_same)

lemma abs_claims_load: "no_claims (abs_claims (load_script E n))"
proof -
  have cat: "abs_claims (rescanDesktops w) = abs_claims w" "abs_claims (rescanActivities w) = abs_claims w"
    "abs_claims (snd (connect E sig sl w)) = abs_claims w" for w :: world and sig sl
    by (rule abs_claims_cong; simp add: rescanDesktops_def rescanActivities_def)+
  have "abs_claims (load_windows E w) = abs_claims w" for w :: world
    by (simp add: load_windows_def wireWorkspaceEvents_def Let_def cat)
  moreover have "abs_claims (fold (\<lambda>wd v. snd (connect E (WindowSignal wd ''captionNormalChanged'') (SlotCheckCaption wd) v))
      wds w) = abs_claims w" for wds and w :: world
    by (induction wds arbitrary: w) (simp_all add: cat)
  ultimately have "abs_claims (load_script E n) = abs_claims (blank_world n)"
    by (simp add: load_script_def startControlLoop_def load_tokens_def wireWindowEvents_def Let_def cat)
  then show ?thesis by (simp add: no_claims_def abs_claims_def blank_world_def fun_eq_iff)
qed

interpretation claiming: simulation "script_init E" "env_step E R" "world_inv E None" abs_claims no_claims claim_step for E R
proof unfold_locales
  show "no_claims (abs_claims w)" if "script_init E w" for w
    using that abs_claims_load by (auto simp: script_init_def)
  show "claim_step\<^sup>*\<^sup>* (abs_claims w) (abs_claims w')" if "world_inv E None w" "env_step E R w w'" for w w'
    using that claims_by_step [of E R w w'] claim_run_steps
    by (auto simp: env_step_def environment_def claims_by_def)
qed

text \<open>What the protocol keeps, the script keeps.\<close>

lemma reachable_protocol:
  assumes "environment E R" "script_reachable E R w"
  shows "reachable no_claims claim_step (abs_claims w)" "claims_ok (abs_claims w)"
proof -
  show r: "reachable no_claims claim_step (abs_claims w)"
    using claiming.reachable_abs [of E R w] assms by (simp add: env_step_eq)
  from protocol.reachable_inv [OF r] show "claims_ok (abs_claims w)" .
qed

end
