(* ===== verification/Confinement.thy ===== *)
theory Confinement
  imports Clients
begin

text \<open>
  What a method call may assign. The script reaches into KWin by assignments only, so a method
  that assigns nothing outside of a set of targets behaves the same whatever KWin would do on
  other assignments: the state it leaves does not depend on them.
\<close>

section \<open>Another KWin\<close>

text \<open>The same environment, but for the way KWin reacts to assignments.\<close>

definition with_assign :: "(assignment \<Rightarrow> native \<Rightarrow> reaction) \<Rightarrow> ext \<Rightarrow> ext" where
  "with_assign k E = E\<lparr>kwinAssign := k\<rparr>"

named_theorems blind
  \<open>operations that do not depend on what KWin does on an assignment\<close>

lemma with_assign_sel [simp, blind]:
  "kwinAssign (with_assign k E) = k" "zodSafeParse (with_assign k E) = zodSafeParse E"
  "createJSONRPCNotification (with_assign k E) = createJSONRPCNotification E"
  "jsonStringify (with_assign k E) = jsonStringify E" "jsonParse (with_assign k E) = jsonParse E"
  "numberToString (with_assign k E) = numberToString E" "mathRandom (with_assign k E) = mathRandom E"
  "undefinedCallText (with_assign k E) = undefinedCallText E"
  "kwinDisconnect (with_assign k E) = kwinDisconnect E"
  by (simp_all add: with_assign_def)

lemma with_assign_again [simp]: "with_assign k (with_assign j E) = with_assign k E"
  "with_assign (kwinAssign E) E = E"
  by (simp_all add: with_assign_def)

section \<open>Only assignments depend on it\<close>

lemma blind_client_path [blind]:
  "client_path (with_assign k E) = client_path E"
  "pushToClient (with_assign k E) = pushToClient E"
  unfolding client_path_def pushToClient_def blind by (rule refl)+

lemma blind_send [blind]:
  "send (with_assign k E) = send E"
  "notifyClient (with_assign k E) = notifyClient E"
  "registerMethod (with_assign k E) = registerMethod E"
  "typed_handler (with_assign k E) = typed_handler E"
  unfolding send_def notifyClient_def registerMethod_def typed_handler_def blind by (rule refl)+

lemma blind_connect [blind]:
  "connect (with_assign k E) = connect E"
  "disconnect (with_assign k E) = disconnect E"
  unfolding connect_def disconnect_def blind by (rule refl)+

lemma blind_drop_handler [blind]:
  "drop_handler (with_assign k E) = drop_handler E"
  "ws_drop_handler (with_assign k E) = ws_drop_handler E"
  "window_changed (with_assign k E) = window_changed E"
  "workspace_changed (with_assign k E) = workspace_changed E"
  "setWatch (with_assign k E) = setWatch E"
  "ws_setWatch (with_assign k E) = ws_setWatch E"
  unfolding drop_handler_def ws_drop_handler_def window_changed_def workspace_changed_def setWatch_def ws_setWatch_def blind by (rule refl)+

lemma blind_drop_token [blind]: "drop_token (with_assign k E) = drop_token E"
  unfolding drop_token_def blind ..

lemma blind_dropClientWatches [blind]: "dropClientWatches (with_assign k E) = dropClientWatches E"
  unfolding dropClientWatches_def blind ..

lemma blind_invalidate [blind]: "invalidate (with_assign k E) = invalidate E"
  unfolding invalidate_def blind ..

lemma blind_validate [blind]: "validate (with_assign k E) = validate E"
  unfolding validate_def blind ..

lemma blind_checkCaption [blind]:
  "checkCaption (with_assign k E) = checkCaption E"
  "onWindowRemoved (with_assign k E) = onWindowRemoved E"
  unfolding checkCaption_def onWindowRemoved_def blind by (rule refl)+

lemma blind_onWindowAdded [blind]: "onWindowAdded (with_assign k E) = onWindowAdded E"
  unfolding onWindowAdded_def blind ..

lemma blind_run_slot [blind]: "run_slot (with_assign k E) = run_slot E"
  unfolding run_slot_def blind ..

lemma blind_emit [blind]: "emit (with_assign k E) = emit E"
  unfolding emit_def blind ..

lemma blind_kwin_signal [blind]: "kwin_signal (with_assign k E) = kwin_signal E"
  unfolding kwin_signal_def blind ..

lemma blind_sample_token [blind]: "sample_token (with_assign k E) = sample_token E"
  unfolding sample_token_def blind ..

lemma blind_sample_loop [blind]: "sample_loop (with_assign k E) used n = sample_loop E used n"
proof -
  have along: "sample_loop (with_assign k E) used n = Some tm" if "sample_loop E used n = Some tm" for k E n tm
  proof (rule sample_loop.raw_induct [where P = "\<lambda>E used n tm. sample_loop (with_assign k E) used n = Some tm", OF _ that])
    fix loop E used n tm
    assume "\<And>E used n tm. loop E used n = Some tm \<Longrightarrow> sample_loop (with_assign k E) used n = Some tm"
      and "(let tok = sample_token E n in if \<not> jm_has used tok then Some (tok, n + TOKEN_LENGTH)
          else loop E used (n + TOKEN_LENGTH)) = Some tm"
    then show "sample_loop (with_assign k E) used n = Some tm"
      unfolding sample_loop.simps [of "with_assign k E" used n] blind by (auto simp: Let_def split: if_splits)
  qed
  show ?thesis
  proof (cases "sample_loop E used n")
    case (Some tm)
    then show ?thesis using along by simp
  next
    case None
    have "sample_loop (with_assign k E) used n \<noteq> Some tm" for tm
      using along [of "with_assign k E" n tm "kwinAssign E"] None by auto
    then show ?thesis using None by (metis option.exhaust)
  qed
qed

lemma blind_token_request [blind]: "token_request (with_assign k E) = token_request E"
  unfolding token_request_def generateToken_def blind ..

section \<open>Assignments\<close>

text \<open>The window an assignment is made to; none for the workspace.\<close>

fun assigned :: "assignment \<Rightarrow> Window option" where
  "assigned (AssignProp wd p v) = Some wd"
| "assigned (AssignDesktops wd ds) = Some wd"
| "assigned (AssignActivities wd ids) = Some wd"
| "assigned (AssignCurrentDesktop d) = None"
| "assigned (AssignCurrentActivity i) = None"

definition agree_on :: "(Window option \<Rightarrow> bool) \<Rightarrow> (assignment \<Rightarrow> native \<Rightarrow> reaction) \<Rightarrow> ext \<Rightarrow> bool" where
  "agree_on T k E \<longleftrightarrow> (\<forall>a n. T (assigned a) \<longrightarrow> k a n = kwinAssign E a n)"

lemma assign_agree:
  "agree_on T k E \<Longrightarrow> T (assigned a) \<Longrightarrow> assign_kwin (with_assign k E) a w = assign_kwin E a w"
  by (simp add: assign_kwin_def agree_on_def blind)

lemma applyUpdate_agree:
  assumes "agree_on T k E" "T (Some wd)"
  shows "applyUpdate (with_assign k E) wd p v w = applyUpdate E wd p v w"
  by (simp add: applyUpdate_def assign_agree [OF assms(1)] assms(2) split: option.splits)

lemma apply_updates_agree:
  assumes "agree_on T k E" "T (Some wd)"
  shows "apply_updates (with_assign k E) wd es w = apply_updates E wd es w"
proof (induction es arbitrary: w)
  case (Cons e es)
  then show ?case
    by (cases e) (simp add: applyUpdate_agree [OF assms] split: prod.splits option.splits)
qed simp

lemma ws_apply_updates_agree:
  assumes "agree_on T k E" "T None"
  shows "ws_apply_updates (with_assign k E) es w = ws_apply_updates E es w"
proof (induction es arbitrary: w)
  case (Cons e es)
  have "ws_applyUpdate (with_assign k E) p v w = ws_applyUpdate E p v w" for p v
    by (simp add: ws_applyUpdate_def assign_agree [OF assms(1)] assms(2) split: option.splits)
  then show ?case
    using Cons by (cases e) (simp split: prod.splits option.splits)
qed simp

section \<open>Methods\<close>

text \<open>What a connection may assign to: the workspace, and the windows of its own tokens.\<close>

definition may_assign :: "connref \<Rightarrow> 'a token_world_scheme \<Rightarrow> Window option \<Rightarrow> bool" where
  "may_assign c w target = (case target of
      None \<Rightarrow> True | Some wd \<Rightarrow> \<exists>t. resolveTokenWindow t c w = Inr wd)"

lemma windows_update_agree:
  assumes "agree_on (may_assign c w) k E"
  shows "windows_update (with_assign k E) ps c w = windows_update E ps c w"
proof -
  obtain tok es where ps: "ps = (tok, es)" by (cases ps)
  have "apply_updates (with_assign k E) wd es w = apply_updates E wd es w" if "resolveTokenWindow tok c w = Inr wd" for wd
    by (rule apply_updates_agree [OF assms]) (use that in \<open>auto simp: may_assign_def\<close>)
  then show ?thesis
    by (simp add: windows_update_def ps split: sum.splits option.splits prod.splits)
qed

lemma workspace_update_agree:
  assumes "agree_on (may_assign c w) k E"
  shows "workspace_update (with_assign k E) es c w = workspace_update E es c w"
  unfolding workspace_update_def blind
  by (subst ws_apply_updates_agree [OF assms]) (simp_all add: may_assign_def)

lemma typed_handler_agree:
  "(\<And>p. h' p c w = h p c w) \<Longrightarrow>
     registerMethod E schema (typed_handler E dec h') ps c w = registerMethod E schema (typed_handler E dec h) ps c w"
  by (simp add: registerMethod_def typed_handler_def split: sum.splits option.splits)

lemma method_agree:
  assumes "agree_on (may_assign c w) k E" "map_of (rpc_methods E) name = Some h"
    "map_of (rpc_methods (with_assign k E)) name = Some h'"
  shows "h' ps c w = h ps c w"
proof -
  have upd: "method_windows_update (with_assign k E) ps c w = method_windows_update E ps c w"
    unfolding method_windows_update_def blind by (rule typed_handler_agree) (rule windows_update_agree [OF assms(1)])
  have ws: "method_workspace_update (with_assign k E) ps c w = method_workspace_update E ps c w"
    unfolding method_workspace_update_def blind by (rule typed_handler_agree) (rule workspace_update_agree [OF assms(1)])
  have blind_methods: "method_windows_query (with_assign k E) = method_windows_query E"
    "method_window_watch (with_assign k E) = method_window_watch E"
    "method_token_request (with_assign k E) = method_token_request E"
    "method_workspace_query (with_assign k E) = method_workspace_query E"
    "method_workspace_watch (with_assign k E) = method_workspace_watch E"
    unfolding method_windows_query_def method_window_watch_def method_token_request_def method_workspace_query_def
      method_workspace_watch_def window_watch_def workspace_watch_def blind by (rule refl)+
  show ?thesis
    using assms(2,3) by (auto simp: rpc_methods_def blind_methods upd ws split: if_splits)
qed

end
