(* ===== verification/Reference_Env.thy ===== *)
theory Reference_Env
  imports Script_History Token_Spec
begin

text \<open>
  A concrete environment that satisfies the documented behaviour the theorems assume, and a
  short run of the script in it: a client connects, requests a token and claims a window.
  The witnesses of the properties evaluate the model on the states of this run.
\<close>

section \<open>KWin and the libraries\<close>

text \<open>KWin stores what it is told and emits the property's signal.\<close>

definition store_window :: "Window \<Rightarrow> (native_window \<Rightarrow> native_window) \<Rightarrow> native \<Rightarrow> native" where
  "store_window wd f n = n\<lparr>win_state := (win_state n)(wd := f (win_state n wd))\<rparr>"

fun ref_assign :: "assignment \<Rightarrow> native \<Rightarrow> reaction" where
  "ref_assign (AssignProp wd p v) n =
     (let n' = store_window wd (\<lambda>s. s\<lparr>win_prop := (win_prop s)(p := v)\<rparr>) n
      in \<lparr>rc_emissions = [(n', propSignal wd p, NoArg)], rc_native = n', rc_raised = None\<rparr>)"
| "ref_assign (AssignDesktops wd ds) n =
     (let n' = store_window wd (\<lambda>s. s\<lparr>win_desktops := List.map_filter id ds\<rparr>) n
      in \<lparr>rc_emissions = [(n', propSignal wd ''desktops'', NoArg)], rc_native = n', rc_raised = None\<rparr>)"
| "ref_assign (AssignActivities wd ids) n =
     (let n' = store_window wd (\<lambda>s. s\<lparr>win_activities := ids\<rparr>) n
      in \<lparr>rc_emissions = [(n', propSignal wd ''activities'', NoArg)], rc_native = n', rc_raised = None\<rparr>)"
| "ref_assign (AssignCurrentDesktop (Some d)) n =
     (let n' = n\<lparr>ws_currentDesktop := d\<rparr>
      in \<lparr>rc_emissions = [(n', workspaceSignal ''currentDesktop'', NoArg)], rc_native = n', rc_raised = None\<rparr>)"
| "ref_assign (AssignCurrentDesktop None) n =
     \<lparr>rc_emissions = [], rc_native = n, rc_raised = Some ''TypeError''\<rparr>"
| "ref_assign (AssignCurrentActivity i) n =
     (let n' = n\<lparr>ws_currentActivity := i\<rparr>
      in \<lparr>rc_emissions = [(n', workspaceSignal ''currentActivity'', NoArg)], rc_native = n', rc_raised = None\<rparr>)"

definition ref_ext :: ext where
  "ref_ext =
     \<lparr>zodSafeParse = zod_reference,
      createJSONRPCNotification = (\<lambda>m p. JObj [(''method'', JStr m), (''params'', p)]),
      jsonStringify = (\<lambda>v. case js_prop v ''method'' of JStr m \<Rightarrow> m | _ \<Rightarrow> ''response''),
      jsonParse = Inr,
      numberToString = (\<lambda>q. replicate (nat \<lfloor>q\<rfloor>) (CHR ''1'')),
      mathRandom = (\<lambda>n. if n < 20 then 0 else 1 / 64),
      undefinedCallText = ''TypeError'',
      kwinAssign = ref_assign,
      kwinDisconnect = (\<lambda>_ _. None)\<rparr>"

lemma ref_ext_kwin: "kwin_documented ref_ext"
proof -
  have ev: "kwin_evolves ref_ext n n'" for n n'
    by (simp add: kwin_evolves_def dead_signal_def ref_ext_def)
  have "evolves_through ref_ext n ns n'" for n ns n'
    by (induction ns arbitrary: n) (simp_all add: ev)
  then show ?thesis by (simp add: kwin_documented_def)
qed

lemma ref_ext_random: "random_documented ref_ext"
  by (simp add: random_documented_def ref_ext_def)

lemma ref_ext_zod: "zod_documented (zodSafeParse ref_ext)"
  by (simp add: ref_ext_def zod_reference_documented)

lemma ref_ext_workspace: "workspace_lives ref_ext"
  by (simp add: workspace_lives_def ref_ext_def)

section \<open>A JSON-RPC server\<close>

fun rpc_result :: "jsval \<Rightarrow> exn + jsval \<Rightarrow> jsval" where
  "rpc_result i (Inr v) = JObj [(''id'', i), (''result'', v)]"
| "rpc_result i (Inl e) = JObj [(''id'', i), (''error'', JStr (exn_text e))]"

fun rpc_failure :: "(string \<Rightarrow> exn \<Rightarrow> world \<Rightarrow> world) \<Rightarrow> exn + jsval \<Rightarrow> world \<Rightarrow> world" where
  "rpc_failure listener (Inr v) w = w"
| "rpc_failure listener (Inl e) w = listener ''An unexpected error occurred'' e w"

definition ref_single :: receiver where
  "ref_single ms listener message c w =
     (case js_prop message ''method'' of
        JStr m \<Rightarrow>
          (case map_of ms m of
             None \<Rightarrow> Some (Inr (JObj [(''id'', js_prop message ''id''), (''error'', JStr ''Method not found'')]), w)
           | Some h \<Rightarrow>
               (case h (js_prop message ''params'') c w of
                  None \<Rightarrow> None
                | Some (res, w1) \<Rightarrow>
                    Some (Inr (if js_prop message ''id'' = Undefined then JNull
                               else rpc_result (js_prop message ''id'') res),
                          rpc_failure listener res w1)))
      | _ \<Rightarrow> Some (Inr (JObj [(''id'', JNull), (''error'', JStr ''Invalid Request'')]), w))"

lemma ref_single_documented: "receiver_documented ref_single"
  unfolding receiver_documented_def
proof (intro allI impI)
  fix ms :: methods and listener message c w res w'
  assume run: "ref_single ms listener message c w = Some (res, w')"
  have listened: "runs ms listener c w (rpc_failure listener r w1)" if "runs ms listener c w w1" for r w1
    using that by (cases r) (auto intro: runs_listener)
  show "runs ms listener c w w'"
    using run
    by (auto simp: ref_single_def split: jsval.splits option.splits
        intro!: runs_refl listened dest!: map_of_SomeD intro: runs_method [OF runs_refl])
qed

lemma ref_environment: "environment ref_ext ref_single"
  by (simp add: environment_def ref_ext_kwin ref_single_documented)

section \<open>A run\<close>

definition demo_window :: Window where
  "demo_window = \<lparr>winObj = 1, internalId = ''{w1}''\<rparr>"

definition demo_other :: Window where
  "demo_other = \<lparr>winObj = 2, internalId = ''{w2}''\<rparr>"

definition demo_desktop :: VirtualDesktop where
  "demo_desktop = \<lparr>vdObj = 1, vdId = ''d1''\<rparr>"

definition demo_native :: native where
  "demo_native =
     \<lparr>win_state = (\<lambda>_. \<lparr>captionNormal = ''x'', win_desktops = [], win_activities = [],
        win_prop = (\<lambda>_. JBool False)\<rparr>),
      windowList = [demo_window], ws_desktops = [demo_desktop], ws_activities = [''a1''],
      ws_currentDesktop = demo_desktop, ws_currentActivity = ''a1''\<rparr>"

definition demo_token :: string where
  "demo_token = replicate 20 (CHR ''A'')"

definition demo_claimed :: "Window \<Rightarrow> native" where
  "demo_claimed wd = store_window wd (\<lambda>s. s\<lparr>captionNormal := demo_token @ '' x''\<rparr>) demo_native"

definition rpc_request :: "string \<Rightarrow> jsval \<Rightarrow> jsval" where
  "rpc_request m params = JObj [(''method'', JStr m), (''params'', params), (''id'', JNum 1)]"

definition control_message :: "string \<Rightarrow> number \<Rightarrow> jsval" where
  "control_message ev i = JArr [JObj [(''event'', JStr ev), (''id'', JNum i)]]"

definition demo_messages :: jsval where
  "demo_messages = JArr
     [rpc_request ''token.request'' (JObj [(''timeout'', JNum 1000)]),
      rpc_request ''window.watch'' (JArr [JStr demo_token, JObj [(''keepAbove'', JBool True)]]),
      rpc_request ''token.request'' (JObj [(''timeout'', JNum 1000)])]"

text \<open>Events of the environment, performed where the step relation allows them.\<close>

datatype event =
    Reply nat jsval
  | Timer nat
  | ControlTurn
  | ClientTurn connref
  | Signal native sigref sigarg

fun perform :: "event \<Rightarrow> world \<Rightarrow> world option" where
  "perform (Reply i v) w =
     (if i < length (promises w) \<and> pr_call (promises w ! i) \<noteq> None then Some (dbus_reply i v w) else None)"
| "perform (Timer i) w =
     (if i < length (promises w) \<and> tm_active (pr_timer (promises w ! i))
      then Some (promise_timeout ref_ext i w) else None)"
| "perform ControlTurn w = (if control_ready w then Some (control_step ref_ext w) else None)"
| "perform (ClientTurn c) w =
     (if c < nextConn w \<and> client_ready w c then client_step ref_ext ref_single c w else None)"
| "perform (Signal n sig arg) w = Some (kwin_signal ref_ext (n, sig, arg) w)"

fun run_events :: "event list \<Rightarrow> world \<Rightarrow> world option" where
  "run_events [] w = Some w"
| "run_events (ev # evs) w = (case perform ev w of None \<Rightarrow> None | Some w' \<Rightarrow> run_events evs w')"

text \<open>
  The daemon reports client 1; the client's first poll returns three messages, of which the
  first, a \<open>token.request\<close>, is dispatched; the window shows the token; the answer is sent and
  the second message, a \<open>window.watch\<close>, is dispatched. Then the daemon reports that the
  client is gone, while its third message has not been dispatched yet; the client's loop
  goes on with it.
\<close>

definition demo_events :: "event list" where
  "demo_events =
     [Reply 4 (control_message ''client_connected'' 1), ControlTurn,
      Reply 6 demo_messages, ClientTurn 0,
      Signal (demo_claimed demo_window) (WindowSignal demo_window ''captionNormalChanged'') NoArg,
      ClientTurn 0, ClientTurn 0,
      Timer 7, ControlTurn, Reply 13 (control_message ''client_disconnected'' 1), ControlTurn,
      ClientTurn 0, ClientTurn 0]"

definition demo_at :: "nat \<Rightarrow> world" where
  "demo_at k = the (run_events (take k demo_events) (load_script ref_ext demo_native))"

definition demo_connected :: world where
  "demo_connected = demo_at 2"

definition demo_requested :: world where
  "demo_requested = demo_at 4"

definition demo_bound :: world where
  "demo_bound = demo_at 5"

definition demo_watched :: world where
  "demo_watched = demo_at 7"

definition demo_stale :: world where
  "demo_stale = demo_at 13"

section \<open>The run is one\<close>

abbreviation demo_reachable :: "world \<Rightarrow> bool" where
  "demo_reachable \<equiv> script_reachable ref_ext ref_single"

lemma perform_step: "perform ev w = Some w' \<Longrightarrow> step ref_ext ref_single w w'"
proof (cases ev)
  case (Signal n sig arg)
  moreover assume "perform ev w = Some w'"
  moreover have "step ref_ext ref_single w (kwin_signal ref_ext (n, sig, arg) w)"
    by (rule step_signal) (simp_all add: kwin_evolves_def dead_signal_def ref_ext_def)
  ultimately show ?thesis by simp
qed (auto intro: step.intros split: if_splits)

lemma run_reachable: "demo_reachable w \<Longrightarrow> run_events evs w = Some w' \<Longrightarrow> demo_reachable w'"
  by (induction evs arbitrary: w) (auto dest: perform_step intro: reachable_step split: option.splits)

lemma run_append:
  "run_events (xs @ ys) w = (case run_events xs w of None \<Rightarrow> None | Some w' \<Rightarrow> run_events ys w')"
  by (induction xs arbitrary: w) (auto split: option.splits)

text \<open>The whole run is evaluated once, down to what its last state shows.\<close>

lemma demo_evaluated:
  "case run_events demo_events (load_script ref_ext demo_native) of None \<Rightarrow> False
   | Some w \<Rightarrow> map_of (byToken w) (replicate 20 (CHR ''B'')) = Some 1 \<and>
       \<not> conn_alive w (te_conn (entries w 1)) \<and> connections w = []"
  by code_simp

lemma demo_runs: "run_events demo_events (load_script ref_ext demo_native) \<noteq> None"
  using demo_evaluated by (auto split: option.splits)

lemma demo_atI:
  "(case run_events (take k demo_events) (load_script ref_ext demo_native) of
      None \<Rightarrow> False | Some w \<Rightarrow> P w) \<Longrightarrow> P (demo_at k)"
  by (simp add: demo_at_def split: option.splits)

lemma demo_at_reachable: "demo_reachable (demo_at k)"
proof -
  have "run_events (take k demo_events) (load_script ref_ext demo_native) \<noteq> None"
    using demo_runs run_append [of "take k demo_events" "drop k demo_events" "load_script ref_ext demo_native"]
    by (auto split: option.splits)
  moreover have "demo_reachable (load_script ref_ext demo_native)"
    by (rule reachable_init) (auto simp: script_init_def)
  ultimately show ?thesis
    unfolding demo_at_def using run_reachable by fastforce
qed

lemma run_steps: "run_events evs w = Some w' \<Longrightarrow> (step ref_ext ref_single)\<^sup>*\<^sup>* w w'"
  by (induction evs arbitrary: w)
    (auto dest: perform_step intro: converse_rtranclp_into_rtranclp split: option.splits)

lemma demo_steps:
  assumes "j \<le> k"
  shows "(step ref_ext ref_single)\<^sup>*\<^sup>* (demo_at j) (demo_at k)"
proof -
  let ?run = "\<lambda>es. run_events es (load_script ref_ext demo_native)"
  obtain w where w: "?run (take k demo_events) = Some w"
    using demo_runs run_append [of "take k demo_events" "drop k demo_events"]
    by (fastforce split: option.splits)
  have "take k demo_events = take j demo_events @ drop j (take k demo_events)"
    using assms by (metis append_take_drop_id min.absorb1 take_take)
  then obtain v where "?run (take j demo_events) = Some v" "run_events (drop j (take k demo_events)) v = Some w"
    using w run_append [of "take j demo_events" "drop j (take k demo_events)"]
    by (auto split: option.splits)
  then show ?thesis
    using run_steps [of _ v w] w by (simp add: demo_at_def)
qed

lemma demo_step:
  assumes "k < length demo_events"
  shows "step ref_ext ref_single (demo_at k) (demo_at (Suc k))"
proof -
  let ?run = "\<lambda>es. run_events es (load_script ref_ext demo_native)"
  have "take (Suc k) demo_events = take k demo_events @ [demo_events ! k]"
    using assms by (rule take_Suc_conv_app_nth)
  moreover have "?run (take (Suc k) demo_events) \<noteq> None"
    using demo_runs run_append [of "take (Suc k) demo_events" "drop (Suc k) demo_events" "load_script ref_ext demo_native"]
    by (auto split: option.splits)
  ultimately obtain v w where v: "?run (take k demo_events) = Some v" "?run (take (Suc k) demo_events) = Some w"
    "perform (demo_events ! k) v = Some w"
    using run_append [of "take k demo_events" "[demo_events ! k]" "load_script ref_ext demo_native"]
    by (auto split: option.splits)
  then show ?thesis using perform_step by (simp add: demo_at_def)
qed

lemmas demo_states = demo_connected_def demo_requested_def demo_bound_def demo_watched_def demo_stale_def

lemma demo_reachable_states:
  "demo_reachable demo_connected" "demo_reachable demo_requested" "demo_reachable demo_bound"
  "demo_reachable demo_watched" "demo_reachable demo_stale"
  by (simp_all only: demo_states demo_at_reachable)

lemma demo_world_inv: "world_inv ref_ext None (demo_at k)"
  by (rule reachable_world_inv [OF ref_environment demo_at_reachable])

lemma demo_script_inv:
  "script_inv ref_ext demo_connected" "script_inv ref_ext demo_requested" "script_inv ref_ext demo_bound"
  by (simp_all only: demo_states world_inv_script [OF demo_world_inv])

text \<open>What the run leaves.\<close>

lemma demo_connected_facts:
  "byToken demo_connected = [] \<and> rng demo_connected = 0 \<and> map_of (connections demo_connected) 1 = Some 0"
  unfolding demo_connected_def by (rule demo_atI) code_simp

lemma demo_requested_facts:
  "map_of (byToken demo_requested) demo_token = Some 0 \<and> te_window (entries demo_requested 0) = None \<and>
   tm_active (te_timer (entries demo_requested 0)) \<and> nextEntry demo_requested = 1 \<and>
   te_state (entries demo_requested 0) = TPending"
  unfolding demo_requested_def by (rule demo_atI) code_simp

lemma demo_bound_facts:
  "map_of (byToken demo_bound) demo_token = Some 0 \<and>
   resolveTokenWindow demo_token 0 demo_bound = Inr demo_window \<and> 0 < nextConn demo_bound \<and>
   desktopsById demo_bound = [(''d1'', demo_desktop)]"
  unfolding demo_bound_def by (rule demo_atI) code_simp

lemma demo_watched_facts:
  "(propSignal demo_window ''keepAbove'', SlotWindowWatch 0 demo_token 0 demo_window ''keepAbove'')
     \<in> set (slots demo_watched) \<and> map_of (connections demo_watched) 1 = Some 0 \<and> conn_alive demo_watched 0 \<and>
   0 < nextConn demo_watched"
  unfolding demo_watched_def by (rule demo_atI) code_simp

lemma demo_stale_facts:
  "map_of (byToken demo_stale) (replicate 20 (CHR ''B'')) = Some 1 \<and>
   \<not> conn_alive demo_stale (te_conn (entries demo_stale 1)) \<and> connections demo_stale = []"
proof -
  have all: "take 13 demo_events = demo_events" by (simp add: demo_events_def)
  show ?thesis
    unfolding demo_stale_def by (rule demo_atI) (simp only: all demo_evaluated)
qed

lemmas demo_resolves = demo_bound_facts [THEN conjunct2, THEN conjunct1]

end
