(* ===== verification/Token_Properties.thy ===== *)
theory Token_Properties
  imports Reference_Env
begin

text \<open>
  Properties of the window claiming protocol (\<open>tokens.ts\<close>): its operations refine the
  specification in \<open>Token_Spec\<close>, tell the right client exactly once, and hand windows out
  exclusively.
\<close>

section \<open>Refinement\<close>



section \<open>Notifications\<close>

text \<open>C14. Withdrawing a registered token tells its owner once, and nobody else anything; the
  claim is gone, the token's watches are gone and the others kept; no slot of a watch of the
  token stays connected to a live signal.\<close>

theorem invalidate_spec:
  assumes "script_inv E w" "map_of (byToken w) t = Some r"
  shows "pushes (invalidate E r reason w) = pushes w @
      notification E w (te_conn (entries w r)) ''token.invalidated'' (invalidated_params w r reason) \<and>
    abs_claims (invalidate E r reason w) = (abs_claims w)(t := None) \<and>
    map_of (watchesByToken (invalidate E r reason w)) = (map_of (watchesByToken w))(t := None) \<and>
    (\<forall>sig n c wd p. (sig, SlotWindowWatch n t c wd p) \<in> set (slots (invalidate E r reason w)) \<longrightarrow>
       dead_signal E (native w) sig)"
proof (intro conjI allI impI)
  let ?w = "invalidate E r reason w"
  have t: "te_token (entries w r) = t"
    using tok_inv_token [OF script_invD(3) [OF assms(1)] assms(2)] by simp
  show "map_of (watchesByToken ?w) = (map_of (watchesByToken w))(t := None)"
    by (simp add: invalidate_fields(4) t)
  then have none: "map_of (watchesByToken ?w) t = None" by simp
  show "dead_signal E (native w) sig" if "(sig, SlotWindowWatch n t c wd p) \<in> set (slots ?w)" for sig n c wd p
    using watch_inv_slot [OF script_invD(2) [OF script_inv_invalidate [OF assms]] that] none
    by (auto simp: registered_def)
qed (use pushes_invalidate abs_invalidate [OF script_invD(3) [OF assms(1)] assms(2)] in \<open>simp_all\<close>)

theorem invalidate_spec_witness:
  "pushes (invalidate ref_ext 0 WindowClosed demo_bound) =
     pushes demo_bound @ notification ref_ext demo_bound (te_conn (entries demo_bound 0)) ''token.invalidated''
       (invalidated_params demo_bound 0 WindowClosed) \<and>
   abs_claims (invalidate ref_ext 0 WindowClosed demo_bound) demo_token = None"
  using invalidate_spec [of ref_ext demo_bound demo_token 0 WindowClosed] demo_bound_facts
    demo_script_inv(3)
  by (auto simp del: pushes_notifyClient)

text \<open>C36. Binding a token tells its owner with \<open>token.validated\<close>; the owner of the token that
  loses the window, if there is one, is told first with the reason \<open>superseded\<close>.\<close>

theorem validate_notifies:
  assumes "script_inv E w" "map_of (byToken w) t = Some r" "te_window (entries w r) = None"
  shows "pushes (validate E r wd w) = pushes w @
    (case map_of (byWindow w) (windowKey wd) of
       Some r' \<Rightarrow> notification E w (te_conn (entries w r')) ''token.invalidated''
                    (invalidated_params w r' Superseded)
     | None \<Rightarrow> []) @
    notification E w (te_conn (entries w r)) ''token.validated''
      (JObj [(''token'', JStr t), (''window'', windowInfo w wd)])"
proof -
  let ?v = "supersede E r wd w"
  have t: "te_token (entries w r) = t"
    using tok_inv_token [OF script_invD(3) [OF assms(1)] assms(2)] by simp
  have ne: "r' \<noteq> r" if "map_of (byWindow w) (windowKey wd) = Some r'" for r'
    using claim_on_window [OF script_invD(3) [OF assms(1)], of "windowKey wd" r'] that assms(3) by auto
  have ent: "entries ?v r = entries w r"
    by (rule supersede_free(3) [OF assms])
  have same: "native ?v = native w" "conns ?v = conns w"
    by (simp_all add: supersede_def split: option.splits)
  have push: "pushes ?v = pushes w @ (case map_of (byWindow w) (windowKey wd) of
       Some r' \<Rightarrow> notification E w (te_conn (entries w r')) ''token.invalidated''
                    (invalidated_params w r' Superseded) | None \<Rightarrow> [])"
    using ne by (auto simp: supersede_def pushes_invalidate split: option.splits)
  show ?thesis
    by (simp add: validate_bind Let_def push ent same t validated_params_def windowInfo_def notification_def)
qed

theorem validate_notifies_witness:
  "pushes (validate ref_ext 0 demo_other demo_requested) = pushes demo_requested @
    (case map_of (byWindow demo_requested) (windowKey demo_other) of
       Some r' \<Rightarrow> notification ref_ext demo_requested (te_conn (entries demo_requested r')) ''token.invalidated''
                    (invalidated_params demo_requested r' Superseded)
     | None \<Rightarrow> []) @
    notification ref_ext demo_requested (te_conn (entries demo_requested 0)) ''token.validated''
      (JObj [(''token'', JStr demo_token), (''window'', windowInfo demo_requested demo_other)])"
  by (rule validate_notifies)
    (use demo_requested_facts demo_script_inv(2) in \<open>simp_all\<close>)

section \<open>Use of a token\<close>

text \<open>C12. A token resolves to a window exactly for the connection that claimed it and exactly
  while it is bound to that window; every other use is answered with Invalid params.\<close>

theorem resolveTokenWindow_spec:
  assumes "script_inv E w"
  shows "(resolveTokenWindow tok c w = Inr wd \<longleftrightarrow>
      (\<exists>cl. abs_claims w tok = Some cl \<and> cl_conn cl = c \<and> cl_window cl = Some wd)) \<and>
    ((\<exists>e. resolveTokenWindow tok c w = Inl e \<and> is_invalid_params e) \<longleftrightarrow>
      \<not> (\<exists>cl wd. abs_claims w tok = Some cl \<and> cl_conn cl = c \<and> cl_window cl = Some wd))"
proof -
  note inv = script_invD(3) [OF assms]
  have active: "te_state (entries w r) = TActive \<longleftrightarrow> te_window (entries w r) \<noteq> None"
    if "map_of (byToken w) tok = Some r" for r
    using tok_inv_token [OF inv that] by (auto simp: entry_ok_def split: TokenState.splits option.splits)
  have iff: "resolveTokenWindow tok c w = Inr wd \<longleftrightarrow>
      (\<exists>cl. abs_claims w tok = Some cl \<and> cl_conn cl = c \<and> cl_window cl = Some wd)" for wd
    using active by (cases "map_of (byToken w) tok") (auto simp: resolveTokenWindow_iff abs_claims_def)
  have err: "(\<exists>e. resolveTokenWindow tok c w = Inl e \<and> is_invalid_params e) \<longleftrightarrow>
      \<not> (\<exists>wd. resolveTokenWindow tok c w = Inr wd)"
    by (cases "resolveTokenWindow tok c w") (auto dest: resolveTokenWindow_invalid)
  show ?thesis unfolding err iff by blast
qed

theorem resolveTokenWindow_spec_witness:
  "\<exists>cl. abs_claims demo_bound demo_token = Some cl \<and> cl_conn cl = 0 \<and> cl_window cl = Some demo_window"
  using resolveTokenWindow_spec [OF demo_script_inv(3), of demo_token 0 demo_window]
    demo_resolves by blast

end
