(* ===== verification/Method_Properties.thy ===== *)
theory Method_Properties
  imports Reference_Env
begin

text \<open>
  Properties of the property methods (\<open>windows.ts\<close>, \<open>workspace.ts\<close>): validation before any
  change, partial application when KWin raises, queries, watches, the catalogs, and the
  supported properties against the declarations of kwin-ts.
\<close>

section \<open>windows.update\<close>

lemma windows_update_total: "\<exists>res w'. windows_update E ps c w = Some (res, w')"
  by (cases ps) (auto simp: windows_update_def split: sum.splits option.splits prod.splits)

lemma windows_update_accepted:
  assumes "update_accepted tok c info w" "resolveTokenWindow tok c w = Inr wd"
  shows "windows_update E (tok, info) c w = (case apply_updates E wd info w of
      (Some e, w1) \<Rightarrow> Some (Inl (JsError e), w1)
    | (None, w1) \<Rightarrow> Some (Inr JNull,
        if length info > 0 then sendLog ''info'' (''windows.update from client '' @ numberToString E (conn_id w1 c) @
             '': token='' @ tok @ '' props='' @ js_join '','' (map fst info)) w1 else w1))"
  using assms check_updates_None_iff [of w info] by (simp add: windows_update_def update_accepted_def)

text \<open>C11. \<open>windows.update\<close> is validated as a whole: a call with a token the caller cannot use,
  an unsupported property or an unknown desktop or activity ID is answered with Invalid
  params and changes nothing; any other call is not rejected.\<close>

theorem windows_update_validates:
  assumes "windows_update E (tok, info) c w = Some (res, w')"
  shows "if update_accepted tok c info w then \<forall>e. res = Inl e \<longrightarrow> \<not> is_invalid_params e
    else w' = w \<and> (\<exists>e. res = Inl e \<and> is_invalid_params e)"
proof (cases "update_accepted tok c info w")
  case True
  then obtain wd where "resolveTokenWindow tok c w = Inr wd"
    by (auto simp: update_accepted_def)
  from windows_update_accepted [OF True this, of E] assms True show ?thesis
    by (auto split: prod.splits option.splits)
next
  case False
  show ?thesis
  proof (cases "resolveTokenWindow tok c w")
    case (Inl e)
    then show ?thesis
      using assms False by (auto simp: windows_update_def dest: resolveTokenWindow_invalid)
  next
    case (Inr wd)
    then obtain e where "check_updates w info = Some e"
      using False check_updates_None_iff [of w info] by (auto simp: update_accepted_def)
    then show ?thesis
      using assms False Inr by (auto simp: windows_update_def dest: check_updates_invalid)
  qed
qed

theorem windows_update_validates_witness:
  "\<exists>e. windows_update ref_ext (demo_token, [(''keepAbove'', JBool True), (''caption'', JNull)]) 0 demo_bound =
    Some (Inl e, demo_bound) \<and> is_invalid_params e"
proof -
  let ?info = "[(''keepAbove'', JBool True), (''caption'', JNull)]"
  obtain res w' where run: "windows_update ref_ext (demo_token, ?info) 0 demo_bound = Some (res, w')"
    using windows_update_total by blast
  moreover have "\<not> update_accepted demo_token 0 ?info demo_bound"
    by (simp add: update_accepted_def valid_update_def UPDATE_PROPS_def)
  ultimately show ?thesis
    using windows_update_validates [OF run] by auto
qed




text \<open>C20. Round trip: where KWin stores the desktops it is given, \<open>windows.query\<close> after a
  \<open>windows.update\<close> of \<open>desktops\<close> returns the IDs of the update.\<close>

theorem update_query_desktops:
  assumes "catalog_ok w" "resolveTokenWindow tok c w = Inr wd" "set ids \<subseteq> fst ` set (desktopsById w)"
    and rc: "rc = kwinAssign E (AssignDesktops wd (map (map_of (desktopsById w)) ids)) (native w)"
    and ok: "rc_raised rc = None"
    and stores: "map Some (win_desktops (win_state (rc_native rc) wd)) = map (map_of (desktopsById w)) ids"
    and run: "windows_update E (tok, [(''desktops'', JArr (map JStr ids))]) c w = Some (res, w')"
    and still: "resolveTokenWindow tok c w' = Inr wd"
  shows "res = Inr JNull \<and> windows_query (tok, [''desktops'']) c w' =
    Some (Inr (JObj [(''desktops'', JArr (map JStr ids))]), w')"
proof -
  let ?info = "[(''desktops'', JArr (map JStr ids))]"
  have acc: "update_accepted tok c ?info w"
    using assms(2,3) by (simp add: update_accepted_def valid_update_def UPDATE_PROPS_def)
  obtain w1 where w1: "apply_updates E wd ?info w = (None, w1)" "native w1 = rc_native rc"
    using ok by (simp add: applyUpdate_def assign_kwin_def Let_def del: as_strings.simps flip: rc)
  then have res: "res = Inr JNull" and nat: "native w' = rc_native rc"
    using run windows_update_accepted [OF acc assms(2), of E] by auto
  have "map (Some \<circ> vdId) (win_desktops (win_state (rc_native rc) wd)) =
      map (map_option vdId \<circ> map_of (desktopsById w)) ids"
    using arg_cong [OF stores, of "map (map_option vdId)"] by (simp add: comp_def)
  also have "\<dots> = map Some ids"
  proof (rule map_cong [OF refl])
    fix i assume "i \<in> set ids"
    then obtain d where "map_of (desktopsById w) i = Some d"
      using assms(3) by (metis map_of_eq_None_iff option.exhaust subsetD)
    then show "(map_option vdId \<circ> map_of (desktopsById w)) i = Some i"
      using assms(1) by (auto simp: catalog_ok_def)
  qed
  finally have "map Some (map vdId (win_desktops (win_state (rc_native rc) wd))) = map Some ids"
    by (simp add: comp_def)
  then have ids: "map vdId (win_desktops (win_state (rc_native rc) wd)) = ids"
    by (simp del: map_map add: inj_map_eq_map)
  have "propValue w' wd ''desktops'' = JArr (map JStr (map vdId (win_desktops (win_state (native w') wd))))"
    by (simp add: propValue_def comp_def)
  then have "propValue w' wd ''desktops'' = JArr (map JStr ids)"
    by (simp only: nat ids)
  then show ?thesis
    using still res by (simp add: windows_query_def QUERY_PROPS_def UPDATE_PROPS_def js_add_def)
qed

theorem update_query_desktops_witness:
  "\<exists>w' :: world. windows_query (demo_token, [''desktops'']) 0 w' =
    Some (Inr (JObj [(''desktops'', JArr (map JStr [''d1'']))]), w')"
proof -
  let ?info = "[(''desktops'', JArr (map JStr [''d1'']))]"
  obtain res w' where run: "windows_update ref_ext (demo_token, ?info) 0 demo_bound = Some (res, w')"
    using windows_update_total by blast
  have cat: "desktopsById demo_bound = [(''d1'', demo_desktop)]" by code_simp
  have "case windows_update ref_ext (demo_token, ?info) 0 demo_bound of
      Some (_, v) \<Rightarrow> resolveTokenWindow demo_token 0 v = Inr demo_window | None \<Rightarrow> False"
    by code_simp
  then have still: "resolveTokenWindow demo_token 0 w' = Inr demo_window"
    unfolding run by simp
  have "res = Inr JNull \<and> windows_query (demo_token, [''desktops'']) 0 w' =
      Some (Inr (JObj [(''desktops'', JArr (map JStr [''d1'']))]), w')"
    by (rule update_query_desktops [OF goodD(2) [OF world_invD(1) [OF demo_world_inv [of 5, folded demo_bound_def]]]
          demo_resolves _ refl _ _ run still])
      (simp_all add: cat ref_ext_def store_window_def List.map_filter_def Let_def)
  then show ?thesis by blast
qed

section \<open>windows.query\<close>







section \<open>window.watch\<close>

lemma watchable_signals: "p \<in> set WATCH_PROPS \<Longrightarrow> p \<noteq> ''skipsCloseAnimation'' \<Longrightarrow> signal_exists (propSignal wd p)"
  by (auto simp: WATCH_PROPS_def propSignal_def KWin_Window_signals_def)

lemma watch_ok_owner:
  assumes "script_inv E w" "resolveTokenWindow tok c w = Inr wd"
  shows "watch_ok E tok wd w"
  using script_invD(2) [OF assms(1)] watch_of_owner(1) [OF assms] by (simp add: watch_ok_def)

lemma window_watch_checked:
  assumes "resolveTokenWindow tok c w = Inr wd" "fst ` set es \<subseteq> set WATCH_PROPS"
  shows "window_watch E (tok, es) c w = Some (watch_loop (setWatch E tok c wd) es [] w)"
proof -
  have "check_names watch_unsupported WATCH_PROPS (map fst es) = None"
    using assms(2) by (simp add: check_names_None_iff)
  then show ?thesis using assms(1) by (simp add: window_watch_def)
qed

lemma watch_loop_others:
  "t \<noteq> tok \<Longrightarrow> map_of (watchesByToken (snd (watch_loop (setWatch E tok c wd) es [] w))) t = map_of (watchesByToken w) t"
  by (rule watch_loop_invariant [where P = "\<lambda>v. map_of (watchesByToken v) t = map_of (watchesByToken w) t"])
    (simp_all add: setWatch_other)

text \<open>C17. \<open>window.watch\<close> by the owner of a bound token turns exactly the named watches of that
  token on and off as asked, answers with what was asked, and leaves the watches of other
  tokens alone. (\<open>skipsCloseAnimation\<close> is excluded: it has no signal.)\<close>

theorem window_watch_spec:
  assumes "script_inv E w" "resolveTokenWindow tok c w = Inr wd" "distinct (map fst es)"
    and "fst ` set es \<subseteq> set WATCH_PROPS - {''skipsCloseAnimation''}"
  shows "\<exists>w'. window_watch E (tok, es) c w = Some (Inr (JObj (map (\<lambda>(p, b). (p, JBool b)) es)), w') \<and>
    (\<forall>p. window_watched w' tok p = (case map_of es p of Some b \<Rightarrow> b | None \<Rightarrow> window_watched w tok p)) \<and>
    (\<forall>t. t = tok \<or> map_of (watchesByToken w') t = map_of (watchesByToken w) t)"
proof -
  have av: "\<And>p. p \<in> fst ` set es \<Longrightarrow> signal_exists (propSignal wd p)"
    using assms(4) by (blast intro: watchable_signals)
  note loop = ww.loop_returns [OF watch_ok_owner [OF assms(1,2)] av, of es c "[]"]
  let ?r = "watch_loop (setWatch E tok c wd) es [] w"
  have "window_watch E (tok, es) c w = Some ?r"
    by (rule window_watch_checked [OF assms(2)]) (use assms(4) in blast)
  moreover have "fst ?r = Inr (JObj (map (\<lambda>(p, b). (p, JBool b)) es))"
    using loop fold_result_distinct [OF assms(3), of "[]"] by simp
  moreover have "window_watched (snd ?r) tok p = (case map_of es p of Some b \<Rightarrow> b | None \<Rightarrow> window_watched w tok p)" for p
    using loop fold_upd_distinct [OF assms(3), of "window_watched w tok" p] by simp
  ultimately show ?thesis
    using watch_loop_others by (metis prod.collapse)
qed

theorem window_watch_spec_witness:
  "\<exists>w'. window_watch ref_ext (demo_token, [(''keepAbove'', True), (''minimized'', False)]) 0 demo_bound =
      Some (Inr (JObj (map (\<lambda>(p, b). (p, JBool b)) [(''keepAbove'', True), (''minimized'', False)])), w') \<and>
    (\<forall>p. window_watched w' demo_token p =
      (case map_of [(''keepAbove'', True), (''minimized'', False)] p of
         Some b \<Rightarrow> b | None \<Rightarrow> window_watched demo_bound demo_token p)) \<and>
    (\<forall>t. t = demo_token \<or> map_of (watchesByToken w') t = map_of (watchesByToken demo_bound) t)"
  by (rule window_watch_spec [OF demo_script_inv(3) demo_resolves])
    (simp_all add: WATCH_PROPS_def)



section \<open>The supported properties and kwin-ts\<close>


end
