(* ===== verification/Workspace_Properties.thy ===== *)
theory Workspace_Properties
  imports Reference_Env
begin

text \<open>
  Properties of the workspace methods (\<open>workspace.ts\<close>) and of the JSON-RPC layer
  (\<open>jsonrpc.ts\<close>): validation, queries, per-client watches, params, replies.
\<close>

section \<open>workspace.update\<close>

lemma workspace_update_total: "\<exists>res w'. workspace_update E info c w = Some (res, w')"
  by (auto simp: workspace_update_def split: option.splits prod.splits)

text \<open>C21. \<open>workspace.update\<close> is validated as a whole: it accepts \<open>currentDesktop\<close> and
  \<open>currentActivity\<close> with an ID of the respective catalog; a call with any other entry is
  answered with Invalid params and changes nothing; any other call is not rejected.\<close>

theorem workspace_update_validates:
  assumes "workspace_update E info c w = Some (res, w')"
  shows "if \<forall>(p, v) \<in> set info. ws_valid_update w p v then \<forall>e. res = Inl e \<longrightarrow> \<not> is_invalid_params e
    else w' = w \<and> (\<exists>e. res = Inl e \<and> is_invalid_params e)"
proof (cases "ws_check_updates w info")
  case None
  then have valid: "\<forall>(p, v) \<in> set info. ws_valid_update w p v"
    by (simp only: ws_check_updates_None_iff)
  have "\<forall>e. res = Inl e \<longrightarrow> \<not> is_invalid_params e"
    using assms None by (auto simp: workspace_update_def split: prod.splits option.splits)
  then show ?thesis unfolding if_P [OF valid] .
next
  case (Some e)
  then have invalid: "\<not> (\<forall>(p, v) \<in> set info. ws_valid_update w p v)"
    using ws_check_updates_None_iff [of w info] by simp
  have "w' = w \<and> (\<exists>e. res = Inl e \<and> is_invalid_params e)"
    using assms Some ws_check_updates_invalid [OF Some] by (auto simp: workspace_update_def)
  then show ?thesis unfolding if_not_P [OF invalid] .
qed

theorem workspace_update_validates_witness:
  "\<exists>e. workspace_update ref_ext [(''desktops'', JArr [])] 0 demo_bound = Some (Inl e, demo_bound) \<and>
    is_invalid_params e"
proof -
  obtain res w' where run: "workspace_update ref_ext [(''desktops'', JArr [])] 0 demo_bound = Some (res, w')"
    using workspace_update_total by blast
  have "\<not> ws_valid_update demo_bound ''desktops'' (JArr [])"
    by (simp add: ws_valid_update_def)
  then show ?thesis
    using workspace_update_validates [OF run] run by auto
qed

text \<open>C23. Round trip: where KWin switches to the desktop it is given, \<open>workspace.query\<close> after a
  \<open>workspace.update\<close> of \<open>currentDesktop\<close> returns the ID of the update.\<close>

theorem update_query_currentDesktop:
  assumes "catalog_ok w" "lookupDesktop w i = Some d"
    and rc: "rc = kwinAssign E (AssignCurrentDesktop (Some d)) (native w)"
    and ok: "rc_raised rc = None" "ws_currentDesktop (rc_native rc) = d"
    and run: "workspace_update E [(''currentDesktop'', JStr i)] c w = Some (res, w')"
  shows "res = Inr JNull \<and> workspace_query [''currentDesktop''] c w' =
    Some (Inr (JObj [(''currentDesktop'', JStr i)]), w')"
proof -
  have "ws_check_updates w [(''currentDesktop'', JStr i)] = None"
    using assms(2) by (simp add: WORKSPACE_UPDATE_PROPS_def validateId_def)
  moreover obtain w1 where "ws_apply_updates E [(''currentDesktop'', JStr i)] w = (None, w1)"
    "native w1 = rc_native rc"
    using ok assms(2) by (simp add: ws_applyUpdate_def assign_kwin_def Let_def flip: rc)
  ultimately have res: "res = Inr JNull" and nat: "native w' = rc_native rc"
    using run by (auto simp: workspace_update_def)
  have "vdId d = i"
    using assms(1,2) by (auto simp: catalog_ok_def lookupDesktop_def)
  then have "workspaceValue w' ''currentDesktop'' = JStr i"
    by (simp add: workspaceValue_def nat ok(2))
  then show ?thesis
    using res by (simp add: workspace_query_def WORKSPACE_QUERY_PROPS_def js_add_def)
qed

theorem update_query_currentDesktop_witness:
  "\<exists>w' :: world. workspace_query [''currentDesktop''] 0 w' =
    Some (Inr (JObj [(''currentDesktop'', JStr ''d1'')]), w')"
proof -
  obtain res w' where run: "workspace_update ref_ext [(''currentDesktop'', JStr ''d1'')] 0 demo_bound = Some (res, w')"
    using workspace_update_total by blast
  have cat: "lookupDesktop demo_bound ''d1'' = Some demo_desktop" by code_simp
  have "res = Inr JNull \<and> workspace_query [''currentDesktop''] 0 w' =
      Some (Inr (JObj [(''currentDesktop'', JStr ''d1'')]), w')"
    by (rule update_query_currentDesktop [OF goodD(2) [OF world_invD(1) [OF demo_world_inv [of 5, folded demo_bound_def]]] cat refl _ _ run])
      (simp_all add: ref_ext_def Let_def)
  then show ?thesis by blast
qed

section \<open>workspace.watch\<close>

lemma ws_watchable_signals: "p \<in> set WORKSPACE_WATCH_PROPS \<Longrightarrow> signal_exists (workspaceSignal p)"
  by (auto simp: WORKSPACE_WATCH_PROPS_def workspaceSignal_def KWin_Workspace_signals_def)

lemma ws_setWatch_other_client:
  assumes "ws_ok E c cid w" "signal_exists (workspaceSignal p)" "cid' \<noteq> cid"
  shows "ws_handlers (snd (ws_setWatch E c p b w)) cid' = ws_handlers w cid'"
proof -
  have cid: "conn_id w c = cid" using assms(1) by (simp add: ws_ok_def)
  note dis = ws_ok_disconnect [OF assms(1)]
  show ?thesis
    using assms(2,3)
    by (cases b; cases "map_of (ws_handlers w (conn_id w c)) p")
      (simp_all add: ws_setWatch_absent ws_setWatch_connects ws_setWatch_present ws_setWatch_disconnects
        dis cid ws_handlers_cong [of "sendLog l m v" v for l m v] ws_handlers_add ws_handlers_remove)
qed

text \<open>C22. \<open>workspace.watch\<close> turns exactly the named watches of the calling client on and off as
  asked, answers with what was asked, and leaves the watches of other clients alone.\<close>

theorem workspace_watch_spec:
  assumes "workspace_lives E" "ws_inv E w" "c < nextConn w" "distinct (map fst es)"
    and "fst ` set es \<subseteq> set WORKSPACE_WATCH_PROPS"
  shows "\<exists>w'. workspace_watch E es c w = Some (Inr (JObj (map (\<lambda>(p, b). (p, JBool b)) es)), w') \<and>
    (\<forall>p. ws_watched w' (conn_id w c) p =
      (case map_of es p of Some b \<Rightarrow> b | None \<Rightarrow> ws_watched w (conn_id w c) p)) \<and>
    (\<forall>cid. cid = conn_id w c \<or> ws_watched w' cid = ws_watched w cid)"
proof -
  let ?cid = "conn_id w c" and ?r = "watch_loop (ws_setWatch E c) es [] w"
  have ok: "ws_ok E c ?cid w" using assms(1-3) by (simp add: ws_ok_def)
  have av: "\<And>p. p \<in> fst ` set es \<Longrightarrow> signal_exists (workspaceSignal p)"
    using assms(5) by (blast intro: ws_watchable_signals)
  note loop = sw.loop_returns [OF ok av, of es "[]"]
  have "ws_ok E c ?cid (snd ?r) \<and> (\<forall>cid. cid = ?cid \<or> ws_handlers (snd ?r) cid = ws_handlers w cid)"
  proof (rule watch_loop_invariant [where P = "\<lambda>v. ws_ok E c ?cid v \<and>
          (\<forall>cid. cid = ?cid \<or> ws_handlers v cid = ws_handlers w cid)"])
    fix p b v
    assume p: "p \<in> fst ` set es" and "ws_ok E c ?cid v \<and> (\<forall>cid. cid = ?cid \<or> ws_handlers v cid = ws_handlers w cid)"
    then show "ws_ok E c ?cid (snd (ws_setWatch E c p b v)) \<and>
        (\<forall>cid. cid = ?cid \<or> ws_handlers (snd (ws_setWatch E c p b v)) cid = ws_handlers w cid)"
      using ws_setWatch_other_client [OF _ av [OF p], of E c ?cid v] sw.set_ok [of E c ?cid v p b] by metis
  qed (use ok in simp)
  then have others: "cid = ?cid \<or> ws_watched (snd ?r) cid = ws_watched w cid" for cid
    by (auto simp: ws_watched_handlers fun_eq_iff)
  have "check_names ws_watch_unsupported WORKSPACE_WATCH_PROPS (map fst es) = None"
    using assms(5) by (simp add: check_names_None_iff)
  then have "workspace_watch E es c w = Some ?r"
    by (simp add: workspace_watch_def)
  moreover have "fst ?r = Inr (JObj (map (\<lambda>(p, b). (p, JBool b)) es))"
    using loop fold_result_distinct [OF assms(4), of "[]"] by simp
  moreover have "ws_watched (snd ?r) ?cid p = (case map_of es p of Some b \<Rightarrow> b | None \<Rightarrow> ws_watched w ?cid p)" for p
    using loop fold_upd_distinct [OF assms(4), of "ws_watched w ?cid" p] by simp
  ultimately show ?thesis
    using others by (metis prod.collapse)
qed

theorem workspace_watch_spec_witness:
  "\<exists>w'. workspace_watch ref_ext [(''desktops'', True)] 0 demo_bound =
      Some (Inr (JObj (map (\<lambda>(p, b). (p, JBool b)) [(''desktops'', True)])), w') \<and>
    (\<forall>p. ws_watched w' (conn_id demo_bound 0) p =
      (case map_of [(''desktops'', True)] p of Some b \<Rightarrow> b | None \<Rightarrow> ws_watched demo_bound (conn_id demo_bound 0) p)) \<and>
    (\<forall>cid. cid = conn_id demo_bound 0 \<or> ws_watched w' cid = ws_watched demo_bound cid)"
  by (rule workspace_watch_spec [OF ref_ext_workspace full_invD(2) [OF goodD(1) [OF world_invD(1) [OF demo_world_inv [of 5, folded demo_bound_def]]]]])
    (use demo_bound_facts in \<open>simp_all add: WORKSPACE_WATCH_PROPS_def\<close>)

section \<open>Params and replies\<close>






text \<open>The replies of a response that are for the client: those whose id is not null.\<close>

definition replies :: "jsval \<Rightarrow> jsval list" where
  "replies response = (case response of
      Undefined \<Rightarrow> [] | JNull \<Rightarrow> []
    | JArr es \<Rightarrow> filter (\<lambda>e. js_prop e ''id'' \<noteq> JNull) es
    | v \<Rightarrow> filter (\<lambda>e. js_prop e ''id'' \<noteq> JNull) [v])"

text \<open>C33. Dispatching a message pushes at most one frame to the client: nothing if no reply is
  for it, the reply if there is one, an array of the replies, in order, if there are
  several. Replies to requests with a null id are dropped.\<close>

theorem reply_response_spec:
  "pushes (reply_response E c response w) = pushes w @ (case replies response of
      [] \<Rightarrow> []
    | [r] \<Rightarrow> [(conn_id w c, jsonStringify E r)]
    | rs \<Rightarrow> [(conn_id w c, jsonStringify E (JArr rs))])"
  by (cases response) (auto simp: reply_response_def replies_def Let_def split: list.splits)

end
