(* ===== verification/Signal_Properties.thy ===== *)
theory Signal_Properties
  imports Reference_Env
begin

text \<open>
  How the script hears of KWin: which slots are connected at load and stay connected, and
  what a signal of KWin does to the claims and to the catalogs in any state the script can
  reach.
\<close>

section \<open>Wiring\<close>

definition script_wiring :: "(sigref \<times> slot) list" where
  "script_wiring =
     [(WorkspaceSignal ''desktopsChanged'', SlotRescanDesktops),
      (WorkspaceSignal ''activityAdded'', SlotActivityAdded),
      (WorkspaceSignal ''activityRemoved'', SlotActivityRemoved),
      (WorkspaceSignal ''windowAdded'', SlotWindowAdded),
      (WorkspaceSignal ''windowRemoved'', SlotWindowRemoved)]"

definition caption_wire :: "Window \<Rightarrow> sigref \<times> slot" where
  "caption_wire wd = (WindowSignal wd ''captionNormalChanged'', SlotCheckCaption wd)"

text \<open>Caption changes of the window reach the script.\<close>

definition tracked :: "world \<Rightarrow> Window \<Rightarrow> bool" where
  "tracked w wd \<longleftrightarrow> caption_wire wd \<in> set (slots w)"

lemma slots_connect_captions:
  "slots (fold (\<lambda>wd v. snd (connect E (WindowSignal wd ''captionNormalChanged'') (SlotCheckCaption wd) v)) wds w) =
     slots w @ map caption_wire wds"
  by (induction wds arbitrary: w) (simp_all add: connect_def caption_wire_def KWin_Window_signals_def)

lemma slots_load: "slots (load_script E n) = script_wiring @ map caption_wire (windowList n)"
proof -
  have "slots (load_windows E (blank_world n)) = take 3 script_wiring"
    "native (load_windows E (blank_world n)) = n"
    by (simp_all add: load_windows_def wireWorkspaceEvents_def Let_def connect_def KWin_Workspace_signals_def
        rescanDesktops_def rescanActivities_def blank_world_def script_wiring_def)
  then have "slots (load_tokens E (load_windows E (blank_world n))) = script_wiring @ map caption_wire (windowList n)"
    by (simp add: load_tokens_def wireWindowEvents_def Let_def slots_connect_captions)
      (simp add: connect_def KWin_Workspace_signals_def script_wiring_def)
  then show ?thesis
    by (simp add: load_script_def startControlLoop_def control_poll_def pollDaemon_def callDBusAsync_def
        new_promise_def print_def)
qed

lemma reachable_history:
  assumes "environment E R" "script_reachable E R w"
  shows "\<exists>n. history (load_script E n) w"
  using assms(2)
proof (induction rule: reachable.induct)
  case (reachable_init w)
  then obtain n where "w = load_script E n" by (auto simp: script_init_def)
  then have "history (load_script E n) w" by simp
  then show ?case ..
next
  case (reachable_step w w')
  have "history w w'"
    using history_step [OF _ _ reachable_world_inv [OF assms(1) reachable_step(1)] reachable_step(2)] assms(1)
    by (simp add: environment_def)
  then show ?case using reachable_step.IH by (blast intro: history_trans)
qed

definition wired :: "world \<Rightarrow> bool" where
  "wired w \<longleftrightarrow> set script_wiring \<subseteq> set (slots w) \<and>
     (\<forall>(sig, sl) \<in> set (slots w). plain_slot sl \<longrightarrow> at_home sig sl)"

lemma reachable_wired:
  assumes "environment E R" "script_reachable E R w"
  shows "wired w"
proof -
  obtain n where "history (load_script E n) w" using reachable_history [OF assms] by blast
  then have kept: "plain_kept (slots w) (script_wiring @ map caption_wire (windowList n))"
    by (simp add: history_def slots_load)
  have home: "at_home sig sl" if "(sig, sl) \<in> set (script_wiring @ map caption_wire (windowList n))" for sig sl
    using that by (auto simp: script_wiring_def caption_wire_def at_home_def)
  show ?thesis
    unfolding wired_def
  proof (intro conjI subsetI ballI)
    show "x \<in> set (slots w)" if "x \<in> set script_wiring" for x
      using plain_keptD(1) [OF kept, of "snd x" "fst x"] that home [of "fst x" "snd x"] at_home_plain by auto
    show "case x of (sig, sl) \<Rightarrow> plain_slot sl \<longrightarrow> at_home sig sl" if "x \<in> set (slots w)" for x
      using plain_keptD(2) [OF kept, of "snd x" "fst x"] home [of "fst x" "snd x"] that by (cases x) auto
  qed
qed

text \<open>C24. In every reachable state the five slots the script connects at load are connected, and
  every slot that is no watch is connected to the signal it belongs to. A window whose captions
  are tracked stays tracked, and the windows KWin lists at load are.\<close>

theorem stays_wired:
  assumes "environment E R" "script_reachable E R w" "(step E R)\<^sup>*\<^sup>* w w'"
  shows "set script_wiring \<subseteq> set (slots w) \<and>
    (\<forall>(sig, sl) \<in> set (slots w). plain_slot sl \<longrightarrow> at_home sig sl) \<and>
    (tracked w wd \<longrightarrow> tracked w' wd) \<and> (w = load_script E n \<longrightarrow> wd \<in> set (windowList n) \<longrightarrow> tracked w wd)"
proof -
  have "plain_kept (slots w') (slots w)"
    using steps_history [OF assms] by (simp add: history_def)
  from plain_keptD(1) [OF this] have "tracked w wd \<longrightarrow> tracked w' wd"
    by (simp add: tracked_def caption_wire_def)
  moreover have "w = load_script E n \<longrightarrow> wd \<in> set (windowList n) \<longrightarrow> tracked w wd"
    by (simp add: tracked_def slots_load)
  ultimately show ?thesis
    using reachable_wired [OF assms(1,2)] by (simp add: wired_def)
qed

theorem stays_wired_witness: "tracked demo_bound demo_window"
proof -
  have start: "demo_at 0 = load_script ref_ext demo_native" by (simp add: demo_at_def)
  have "tracked (demo_at 0) demo_window \<longrightarrow> tracked demo_bound demo_window"
    "tracked (demo_at 0) demo_window"
    using stays_wired [OF ref_environment demo_at_reachable demo_steps [of 0 5], of demo_window demo_native]
    by (simp_all add: start demo_bound_def demo_native_def)
  then show ?thesis by blast
qed

section \<open>What a signal runs\<close>

text \<open>A slot connected to a signal belongs to it or is a watch.\<close>

lemma connected_slots:
  assumes "wired w" "s \<in> set (connected w sig)"
  shows "at_home sig s \<or> \<not> plain_slot s"
  using assms by (auto simp: wired_def connected_def)

lemma connectedI: "(sig, s) \<in> set (slots w) \<Longrightarrow> s \<in> set (connected w sig)"
  by (force simp: connected_def)

text \<open>An observation of the state that one of the connected slots changes by an idempotent
  function and the others leave alone.\<close>

lemma emit_observes:
  assumes inv: "full_inv E w"
    and act: "\<And>s v. s \<in> set (connected w sig) \<Longrightarrow> full_inv E v \<Longrightarrow> native v = native w \<Longrightarrow>
      obs (run_slot E arg s v) = (if s = a then g (obs v) else obs v)"
    and mem: "a \<in> set (connected w sig)" and idem: "\<And>x. g (g x) = g x"
  shows "obs (emit E sig arg w) = g (obs w)"
proof -
  have "obs (fold (run_slot E arg) xs v) = (if a \<in> set xs then g (obs v) else obs v)"
    if "set xs \<subseteq> set (connected w sig)" "full_inv E v" "native v = native w" for xs v
    using that
  proof (induction xs arbitrary: v)
    case (Cons x xs)
    let ?v = "run_slot E arg x v"
    have "full_inv E ?v" "native ?v = native w"
      using full_inv_run_slot [OF Cons.prems(2)] ws_untouched_run_slot [OF Cons.prems(2)] Cons.prems(3)
      by (simp_all add: ws_untouched_def)
    then have "obs (fold (run_slot E arg) xs ?v) = (if a \<in> set xs then g (obs ?v) else obs ?v)"
      using Cons.prems(1) by (intro Cons.IH) simp_all
    then show ?case
      using act [of x v] Cons.prems idem by auto
  qed simp
  from this [of "connected w sig" w] mem show ?thesis by (simp add: emit_def inv)
qed

lemma watch_slot_inert:
  assumes "\<not> plain_slot s"
  shows "abs_claims (run_slot E arg s w) = abs_claims w" "desktopsById (run_slot E arg s w) = desktopsById w"
    "activitiesById (run_slot E arg s w) = activitiesById w"
  using assms by (cases s; simp add: run_slot_def window_changed_def workspace_changed_def)+

lemma signal_observes:
  assumes env: "environment E R" "script_reachable E R w" "kwin_evolves E (native w) n"
    and home: "\<And>s. at_home sig s \<Longrightarrow> s = a" and mem: "(sig, a) \<in> set (slots w)" and plain: "plain_slot a"
    and act: "\<And>v. full_inv E v \<Longrightarrow> native v = n \<Longrightarrow> obs (run_slot E arg a v) = g (obs v)"
    and inert: "\<And>s v. \<not> plain_slot s \<Longrightarrow> obs (run_slot E arg s v) = obs v"
    and idem: "\<And>x. g (g x) = g x" and blind: "obs (w\<lparr>native := n\<rparr>) = obs w"
  shows "obs (kwin_signal E (n, sig, arg) w) = g (obs w)"
proof -
  let ?w = "w\<lparr>native := n\<rparr>"
  have "full_inv E ?w"
    by (rule full_inv_native [OF goodD(1) [OF world_invD(1) [OF reachable_world_inv [OF env(1,2)]]] env(3)])
  then have "obs (emit E sig arg ?w) = g (obs ?w)"
  proof (rule emit_observes)
    fix s and v :: world
    assume s: "s \<in> set (connected ?w sig)" "full_inv E v" "native v = native ?w"
    have "s = a \<or> \<not> plain_slot s"
      using connected_slots [OF reachable_wired [OF env(1,2)], of s sig] s(1) home by (auto simp: connected_def)
    then show "obs (run_slot E arg s v) = (if s = a then g (obs v) else obs v)"
      using act [of v] inert [of s v] s plain by auto
  qed (use mem idem in \<open>auto simp: connected_def image_iff\<close>)
  then show ?thesis by (simp add: kwin_signal_def blind)
qed

section \<open>Signals and claims\<close>

lemma a_release_idem: "a_release k (a_release k A) = a_release k A"
  by (auto simp: a_release_def fun_eq_iff split: option.splits)

lemma a_caption_idem: "a_caption s wd (a_caption s wd A) = a_caption s wd A"
  by (auto simp: a_caption_def Let_def split: option.splits)

lemma onWindowAdded_tracks:
  assumes "script_inv E w"
  shows "tracked (onWindowAdded E wd w) wd"
proof -
  let ?v = "snd (connect E (WindowSignal wd ''captionNormalChanged'') (SlotCheckCaption wd) w)"
  have "script_inv E ?v" using assms by (rule script_inv_connect) simp
  from ws_untouched_checkCaption [OF script_invD(2) [OF this], of wd]
  have "plain_kept (slots (checkCaption E wd ?v)) (slots ?v)" by (simp add: ws_untouched_def)
  moreover have "caption_wire wd \<in> set (slots ?v)"
    by (simp add: connect_def caption_wire_def KWin_Window_signals_def)
  ultimately show ?thesis
    using plain_keptD(1) by (simp add: tracked_def onWindowAdded_def caption_wire_def)
qed

text \<open>C4. In every reachable state, what KWin signals about its windows drives the claims as
  specified: a removed window gives up every claim on it, a new window is checked for a token
  and tracked from then on, and so is every caption change of a tracked window.\<close>

theorem signals_drive_claims:
  assumes "environment E R" "script_reachable E R w" "kwin_evolves E (native w) n"
  shows "abs_claims (kwin_signal E (n, WorkspaceSignal ''windowRemoved'', WindowArg wd) w) =
      a_release (windowKey wd) (abs_claims w) \<and>
    abs_claims (kwin_signal E (n, WorkspaceSignal ''windowAdded'', WindowArg wd) w) =
      a_caption (captionNormal (win_state n wd)) wd (abs_claims w) \<and>
    tracked (kwin_signal E (n, WorkspaceSignal ''windowAdded'', WindowArg wd) w) wd \<and>
    (tracked w wd \<longrightarrow>
      abs_claims (kwin_signal E (n, WindowSignal wd ''captionNormalChanged'', NoArg) w) =
        a_caption (captionNormal (win_state n wd)) wd (abs_claims w))"
proof (intro conjI impI)
  note wires = reachable_wired [OF assms(1,2), unfolded wired_def, THEN conjunct1]
  show "abs_claims (kwin_signal E (n, WorkspaceSignal ''windowRemoved'', WindowArg wd) w) =
      a_release (windowKey wd) (abs_claims w)"
  proof (rule signal_observes [OF assms, where a = SlotWindowRemoved])
    show "abs_claims (run_slot E (WindowArg wd) SlotWindowRemoved v) = a_release (windowKey wd) (abs_claims v)"
      if "full_inv E v" for v :: world
      using abs_onWindowRemoved [OF full_invD(1) [OF that]] by (simp add: run_slot_def)
  qed (use wires in \<open>auto simp: at_home_def script_wiring_def a_release_idem abs_claims_native
      watch_slot_inert split: slot.splits\<close>)
  show "abs_claims (kwin_signal E (n, WorkspaceSignal ''windowAdded'', WindowArg wd) w) =
      a_caption (captionNormal (win_state n wd)) wd (abs_claims w)"
  proof (rule signal_observes [OF assms, where a = SlotWindowAdded])
    show "abs_claims (run_slot E (WindowArg wd) SlotWindowAdded v) =
        a_caption (captionNormal (win_state n wd)) wd (abs_claims v)" if "full_inv E v" "native v = n" for v :: world
      using abs_onWindowAdded [OF full_invD(1) [OF that(1)]] that(2) by (simp add: run_slot_def)
  qed (use wires in \<open>auto simp: at_home_def script_wiring_def a_caption_idem abs_claims_native
      watch_slot_inert split: slot.splits\<close>)
  show "abs_claims (kwin_signal E (n, WindowSignal wd ''captionNormalChanged'', NoArg) w) =
      a_caption (captionNormal (win_state n wd)) wd (abs_claims w)" if "tracked w wd"
  proof (rule signal_observes [OF assms, where a = "SlotCheckCaption wd"])
    show "abs_claims (run_slot E NoArg (SlotCheckCaption wd) v) =
        a_caption (captionNormal (win_state n wd)) wd (abs_claims v)" if "full_inv E v" "native v = n" for v :: world
      using abs_checkCaption [OF full_invD(1) [OF that(1)]] that(2) by (simp add: run_slot_def)
  qed (use that in \<open>auto simp: at_home_def tracked_def caption_wire_def a_caption_idem abs_claims_native
      watch_slot_inert split: slot.splits\<close>)
  have "tracked (kwin_signal E (n, WorkspaceSignal ''windowAdded'', WindowArg wd) w) wd = True"
  proof (rule signal_observes [OF assms, where a = SlotWindowAdded and g = "\<lambda>_. True"])
    show "tracked (run_slot E (WindowArg wd) SlotWindowAdded v) wd = True" if "full_inv E v" for v :: world
      using onWindowAdded_tracks [OF full_invD(1) [OF that]] by (simp add: run_slot_def)
    show "tracked (run_slot E (WindowArg wd) s v) wd = tracked v wd" if "\<not> plain_slot s" for s and v :: world
      using that by (cases s) (simp_all add: run_slot_def window_changed_def workspace_changed_def tracked_def)
  qed (use wires in \<open>auto simp: at_home_def script_wiring_def tracked_def split: slot.splits\<close>)
  then show "tracked (kwin_signal E (n, WorkspaceSignal ''windowAdded'', WindowArg wd) w) wd" by simp
qed

theorem signals_drive_claims_witness:
  "kwin_evolves ref_ext (native demo_bound) (native demo_bound) \<and>
   abs_claims (kwin_signal ref_ext (native demo_bound, WorkspaceSignal ''windowRemoved'', WindowArg demo_window) demo_bound)
     demo_token = None"
proof -
  have ev: "kwin_evolves ref_ext (native demo_bound) (native demo_bound)" by simp
  have "abs_claims demo_bound demo_token = Some (claim_of (entries demo_bound 0))"
    "te_window (entries demo_bound 0) = Some demo_window"
    using demo_bound_facts by (auto simp: abs_claims_def resolveTokenWindow_iff)
  then have "a_release (windowKey demo_window) (abs_claims demo_bound) demo_token = None"
    by (simp add: a_release_def)
  then show ?thesis
    using ev signals_drive_claims [OF ref_environment demo_reachable_states(3) ev, of demo_window] by simp
qed

section \<open>Signals and catalogs\<close>

lemma map_of_desktops:
  "map_of (fold (\<lambda>d. AList.update (vdId d) d) ds m) i =
     (case find (\<lambda>d. vdId d = i) (rev ds) of Some d \<Rightarrow> Some d | None \<Rightarrow> map_of m i)"
  by (induction ds rule: rev_induct) (simp_all add: update_conv')

text \<open>C25. In every reachable state, the catalogs follow the workspace: after \<open>desktopsChanged\<close> an ID
  is known exactly when a desktop of the workspace has it, and resolves to such a desktop;
  \<open>activityAdded\<close> and \<open>activityRemoved\<close> add and remove the activity they carry.\<close>

theorem catalogs_follow_signals:
  assumes "environment E R" "script_reachable E R w" "kwin_evolves E (native w) n"
  shows "lookupDesktop (kwin_signal E (n, WorkspaceSignal ''desktopsChanged'', NoArg) w) i =
      find (\<lambda>d. vdId d = i) (rev (ws_desktops n)) \<and>
    {j. hasActivity (kwin_signal E (n, WorkspaceSignal ''activityAdded'', IdArg i) w) j} = insert i {j. hasActivity w j} \<and>
    {j. hasActivity (kwin_signal E (n, WorkspaceSignal ''activityRemoved'', IdArg i) w) j} = {j. hasActivity w j} - {i}"
proof (intro conjI)
  note wires = reachable_wired [OF assms(1,2), unfolded wired_def, THEN conjunct1]
  have "lookupDesktop (kwin_signal E (n, WorkspaceSignal ''desktopsChanged'', NoArg) w) =
      (\<lambda>i. find (\<lambda>d. vdId d = i) (rev (ws_desktops n)))"
  proof (rule signal_observes [OF assms, where a = SlotRescanDesktops and
        g = "\<lambda>_ i. find (\<lambda>d. vdId d = i) (rev (ws_desktops n))"])
    show "lookupDesktop (run_slot E NoArg SlotRescanDesktops v) = (\<lambda>i. find (\<lambda>d. vdId d = i) (rev (ws_desktops n)))"
      if "native v = n" for v :: world
      by (simp add: run_slot_def rescanDesktops_def lookupDesktop_def map_of_desktops that fun_eq_iff
          split: option.splits)
  qed (use wires in \<open>auto simp: at_home_def script_wiring_def lookupDesktop_def watch_slot_inert fun_eq_iff
      split: slot.splits\<close>)
  then show "lookupDesktop (kwin_signal E (n, WorkspaceSignal ''desktopsChanged'', NoArg) w) i =
      find (\<lambda>d. vdId d = i) (rev (ws_desktops n))" by simp
  show "{j. hasActivity (kwin_signal E (n, WorkspaceSignal ''activityAdded'', IdArg i) w) j} = insert i {j. hasActivity w j}"
  proof (rule signal_observes [OF assms, where a = SlotActivityAdded])
    show "{j. hasActivity (run_slot E (IdArg i) SlotActivityAdded v) j} = insert i {j. hasActivity v j}"
      for v :: world
      by (auto simp: run_slot_def hasActivity_def activityAdded_def)
  qed (use wires in \<open>auto simp: at_home_def script_wiring_def hasActivity_def watch_slot_inert split: slot.splits\<close>)
  show "{j. hasActivity (kwin_signal E (n, WorkspaceSignal ''activityRemoved'', IdArg i) w) j} = {j. hasActivity w j} - {i}"
  proof (rule signal_observes [OF assms, where a = SlotActivityRemoved])
    show "{j. hasActivity (run_slot E (IdArg i) SlotActivityRemoved v) j} = {j. hasActivity v j} - {i}"
      for v :: world
      by (auto simp: run_slot_def hasActivity_def activityRemoved_def)
  qed (use wires in \<open>auto simp: at_home_def script_wiring_def hasActivity_def watch_slot_inert split: slot.splits\<close>)
qed

theorem catalogs_follow_signals_witness:
  "lookupDesktop (kwin_signal ref_ext (demo_native, WorkspaceSignal ''desktopsChanged'', NoArg) demo_bound) ''d1'' =
     Some demo_desktop"
proof -
  have "kwin_evolves ref_ext (native demo_bound) demo_native"
    by (simp add: kwin_evolves_def dead_signal_def ref_ext_def)
  from catalogs_follow_signals [OF ref_environment demo_reachable_states(3) this, of "''d1''"] show ?thesis
    by (simp add: demo_native_def demo_desktop_def)
qed

section \<open>Signals and watches\<close>

lemma reachable_watch_wires:
  assumes "environment E R" "script_reachable E R w"
  shows "distinct (watch_wires (slots w))"
proof -
  obtain n where "history (load_script E n) w" using reachable_history [OF assms] by blast
  then have "plain_kept (slots w) (script_wiring @ map caption_wire (windowList n))"
    by (simp add: history_def slots_load)
  moreover have "watch_wires (map caption_wire wds) = []" for wds
    by (induction wds) (simp_all add: caption_wire_def)
  ultimately show ?thesis
    using plain_keptD(3) by (fastforce simp: script_wiring_def)
qed

text \<open>If only watches are connected to a signal, each is connected once.\<close>

lemma distinct_connected:
  assumes "distinct (watch_wires (slots w))" "\<And>s. s \<in> set (connected w sig) \<Longrightarrow> \<not> plain_slot s"
  shows "distinct (connected w sig)"
proof -
  have "filter (\<lambda>(s, _). s = sig) (slots w) = filter (\<lambda>(s, _). s = sig) (watch_wires (slots w))"
    using assms(2) by (auto simp: watch_wires_def connected_def filter_filter intro!: filter_cong)
  then have "distinct (filter (\<lambda>(s, _). s = sig) (slots w))"
    using assms(1) by simp
  then show ?thesis by (auto simp: connected_def distinct_map intro: inj_onI)
qed

lemma connected_watchers:
  assumes inv: "full_inv E w" and wd: "wired w" and live: "\<not> dead_signal E (native w) (propSignal wd p)"
    and p: "p \<noteq> ''captionNormal''" and s: "s \<in> set (connected w (propSignal wd p))"
  shows "\<exists>m t c. s = SlotWindowWatch m t c wd p \<and> resolveTokenWindow t c w = Inr wd \<and> registered w t wd p s"
proof -
  have mem: "(propSignal wd p, s) \<in> set (slots w)" using s by (auto simp: connected_def)
  have "p @ ''Changed'' \<noteq> ''captionNormal'' @ ''Changed''"
    using p by (simp only: append_same_eq not_False_eq_True)
  then have "\<not> at_home (propSignal wd p) s"
    by (auto simp: at_home_def propSignal_def split: slot.splits)
  with connected_slots [OF wd s] have "\<not> plain_slot s" by simp
  then show ?thesis
  proof (cases s)
    case (SlotWindowWatch m t c wd' p')
    note slot = live_window_slot [OF inv mem [unfolded SlotWindowWatch] live]
    from slot(1) have "wd' = wd" "p' = p" by simp_all
    then show ?thesis using slot SlotWindowWatch by blast
  next
    case (SlotWorkspaceWatch m c p')
    then show ?thesis
      using ws_inv_slot [OF full_invD(2) [OF inv] mem [unfolded SlotWorkspaceWatch]]
      by (simp add: propSignal_def workspaceSignal_def)
  qed simp_all
qed

lemma distinct_singleton: "distinct xs \<Longrightarrow> set xs = {x} \<Longrightarrow> xs = [x]"
  using distinct_card [of xs] by (cases xs; cases "tl xs") auto

text \<open>The owner's watch is the only slot connected to the property's signal.\<close>

lemma connected_owner:
  assumes inv: "full_inv E w" and wd: "wired w" and dist: "distinct (watch_wires (slots w))"
    and live: "\<not> dead_signal E (native w) (propSignal wd p)" and p: "p \<noteq> ''captionNormal''"
    and res: "resolveTokenWindow t c w = Inr wd" and w: "window_watched w t p"
  shows "\<exists>m. connected w (propSignal wd p) = [SlotWindowWatch m t c wd p]"
proof -
  let ?C = "connected w (propSignal wd p)"
  note s = full_invD(1) [OF inv]
  note watchers = connected_watchers [OF inv wd live p]
  obtain st h where st: "map_of (watchesByToken w) t = Some st" "map_of (wst_handlers st) p = Some h"
    using w by (auto simp: window_watched_def split: option.splits)
  have "wst_window st = wd" using watch_of_owner(1) [OF s res] st(1) by simp
  then have h: "h \<in> set ?C"
    using watch_inv_handler [OF script_invD(2) [OF s] st] by (auto simp: handler_ok_def intro: connectedI)
  have one: "\<exists>m. x = SlotWindowWatch m t c wd p \<and> x = h" if x: "x \<in> set ?C" for x
  proof -
    obtain m t' c' where x': "x = SlotWindowWatch m t' c' wd p" "resolveTokenWindow t' c' w = Inr wd"
      "registered w t' wd p x" using watchers [OF x] by blast
    have "t' = t"
      using exclusive_claims [OF script_invD(3) [OF s]] res x'(2)
      by (auto simp: exclusive_def resolveTokenWindow_iff abs_claims_def)
    then show ?thesis using x' res st by (auto simp: registered_def resolveTokenWindow_iff)
  qed
  have "distinct ?C" by (rule distinct_connected [OF dist]) (metis one plain_slot_simps(7))
  moreover have "set ?C = {h}" using one h by blast
  ultimately have "?C = [h]" by (rule distinct_singleton)
  then show ?thesis using one [OF h] by auto
qed

text \<open>C7. When KWin signals that a property of a window has changed, the owner of the window is told
  exactly once if it watches the property, with the value the property then has; nobody else
  is told anything, and without such a watch nobody is. (\<open>captionNormal\<close> cannot be watched: its
  signal drives the claims.)\<close>

theorem watched_change_notified:
  assumes "environment E R" "script_reachable E R w" "kwin_evolves E (native w) n"
    and "\<not> dead_signal E n (propSignal wd p)" "p \<noteq> ''captionNormal''"
  shows "(resolveTokenWindow t c w = Inr wd \<and> window_watched w t p \<longrightarrow>
      pushes (kwin_signal E (n, propSignal wd p, NoArg) w) = pushes w @
        notification E w c ''window.changed'' (JObj [(''token'', JStr t), (''property'', JStr p),
          (''value'', propValue (w\<lparr>native := n\<rparr>) wd p)])) \<and>
    ((\<forall>t c. resolveTokenWindow t c w = Inr wd \<longrightarrow> \<not> window_watched w t p) \<longrightarrow>
      pushes (kwin_signal E (n, propSignal wd p, NoArg) w) = pushes w)"
proof -
  let ?w = "w\<lparr>native := n\<rparr>"
  have inv: "full_inv E ?w"
    by (rule full_inv_native [OF world_inv_full [OF reachable_world_inv [OF assms(1,2)]] assms(3)])
  have wd: "wired ?w" using reachable_wired [OF assms(1,2)] by (simp add: wired_def)
  have dist: "distinct (watch_wires (slots ?w))" using reachable_watch_wires [OF assms(1,2)] by simp
  have live: "\<not> dead_signal E (native ?w) (propSignal wd p)" using assms(4) by simp
  have same: "resolveTokenWindow t c ?w = resolveTokenWindow t c w" "window_watched ?w t p = window_watched w t p"
    "pushes ?w = pushes w" for t c
    by (rule resolveTokenWindow_cong; simp) (simp_all add: window_watched_def pushes_def)
  show ?thesis
  proof (intro conjI impI)
    assume "resolveTokenWindow t c w = Inr wd \<and> window_watched w t p"
    then obtain m where "connected ?w (propSignal wd p) = [SlotWindowWatch m t c wd p]"
      using connected_owner [OF inv wd dist live assms(5)] same by metis
    then show "pushes (kwin_signal E (n, propSignal wd p, NoArg) w) = pushes w @
        notification E w c ''window.changed'' (JObj [(''token'', JStr t), (''property'', JStr p),
          (''value'', propValue ?w wd p)])"
      by (simp add: kwin_signal_def emit_def run_slot_def window_changed_def notification_def same(3))
  next
    assume none: "\<forall>t c. resolveTokenWindow t c w = Inr wd \<longrightarrow> \<not> window_watched w t p"
    have "connected ?w (propSignal wd p) = []"
    proof (rule ccontr)
      assume "connected ?w (propSignal wd p) \<noteq> []"
      then obtain s where "s \<in> set (connected ?w (propSignal wd p))" by (meson list.set_sel(1))
      from connected_watchers [OF inv wd live assms(5) this] obtain t c
        where "resolveTokenWindow t c ?w = Inr wd" "registered ?w t wd p s" by blast
      moreover from this have "window_watched ?w t p"
        by (auto simp: registered_def window_watched_def split: option.splits)
      ultimately show False using none same by metis
    qed
    then show "pushes (kwin_signal E (n, propSignal wd p, NoArg) w) = pushes w"
      by (simp add: kwin_signal_def emit_def same(3))
  qed
qed

theorem watched_change_notified_witness:
  "pushes (kwin_signal ref_ext (native demo_watched, propSignal demo_window ''keepAbove'', NoArg) demo_watched) =
     pushes demo_watched @ notification ref_ext demo_watched 0 ''window.changed''
       (JObj [(''token'', JStr demo_token), (''property'', JStr ''keepAbove''),
         (''value'', propValue demo_watched demo_window ''keepAbove'')])"
proof -
  have ev: "kwin_evolves ref_ext (native demo_watched) (native demo_watched)" by simp
  have live: "\<not> dead_signal ref_ext m sig" for m sig by (simp add: dead_signal_def ref_ext_def)
  have inv: "full_inv ref_ext demo_watched"
    by (rule world_inv_full [OF demo_world_inv [of 7, folded demo_watched_def]])
  have slot: "(propSignal demo_window ''keepAbove'', SlotWindowWatch 0 demo_token 0 demo_window ''keepAbove'')
     \<in> set (slots demo_watched)" using demo_watched_facts by simp
  show ?thesis
    using watched_change_notified [OF ref_environment demo_reachable_states(4) ev live, of "''keepAbove''"
        demo_token 0 demo_window] live_window_slot(2,3) [OF inv slot live] by simp
qed

section \<open>Signals and workspace watches\<close>

fun listener :: "slot \<Rightarrow> connref option" where
  "listener (SlotWorkspaceWatch n c p) = Some c"
| "listener _ = None"

text \<open>The connections whose workspace watches a signal runs, in order.\<close>

definition listeners :: "slot list \<Rightarrow> connref list" where
  "listeners xs = List.map_filter listener xs"

lemma listeners_simps [simp]:
  "listeners [] = []" "listeners (x # xs) = (case listener x of None \<Rightarrow> listeners xs | Some c \<Rightarrow> c # listeners xs)"
  by (simp_all add: listeners_def List.map_filter_simps split: option.splits)

lemma set_listeners: "set (listeners xs) = {c. \<exists>n p. SlotWorkspaceWatch n c p \<in> set xs}"
proof (induction xs)
  case (Cons x xs)
  then show ?case by (cases x) auto
qed simp

lemma connected_workspace:
  assumes inv: "full_inv E w" and wd: "wired w" and live: "\<not> dead_signal E (native w) (workspaceSignal p)"
    and p: "p \<in> set WORKSPACE_WATCH_PROPS" and s: "s \<in> set (connected w (workspaceSignal p))"
  shows "s = SlotRescanDesktops \<or> (\<exists>m c. s = SlotWorkspaceWatch m c p \<and> c < nextConn w \<and> ws_registered w c p s)"
proof -
  have mem: "(workspaceSignal p, s) \<in> set (slots w)" using s by (auto simp: connected_def)
  have home: "s = SlotRescanDesktops" if "at_home (workspaceSignal p) s"
    using that p by (cases s) (auto simp: at_home_def workspaceSignal_def WORKSPACE_WATCH_PROPS_def)
  from connected_slots [OF wd s] show ?thesis
  proof
    assume "\<not> plain_slot s"
    then show ?thesis
    proof (cases s)
      case (SlotWorkspaceWatch m c p')
      note slot = ws_inv_slot [OF full_invD(2) [OF inv] mem [unfolded SlotWorkspaceWatch]]
      then show ?thesis using live SlotWorkspaceWatch by auto
    next
      case (SlotWindowWatch m t c wd p')
      then show ?thesis
        using watch_inv_slot [OF script_invD(2) [OF full_invD(1) [OF inv]] mem [unfolded SlotWindowWatch]]
        by (simp add: propSignal_def workspaceSignal_def)
    qed simp_all
  qed (blast intro: home)
qed

text \<open>Slots of one property, each of which is the registered one of its client id.\<close>

lemma distinct_listeners:
  assumes "distinct (filter (\<lambda>s. \<not> plain_slot s) xs)"
    and "\<And>n c q. SlotWorkspaceWatch n c q \<in> set xs \<Longrightarrow> ws_registered w c p (SlotWorkspaceWatch n c q)"
  shows "distinct (map (conn_id w) (listeners xs))"
  using assms
proof (induction xs)
  case (Cons x xs)
  have IH: "distinct (map (conn_id w) (listeners xs))" using Cons by (auto split: if_splits)
  have "conn_id w c \<notin> conn_id w ` set (listeners xs)" if x: "x = SlotWorkspaceWatch n c q" for n c q
  proof
    assume "conn_id w c \<in> conn_id w ` set (listeners xs)"
    then obtain d m q' where d: "conn_id w c = conn_id w d" "SlotWorkspaceWatch m d q' \<in> set xs"
      by (auto simp: set_listeners)
    have "ws_registered w c p x" "ws_registered w d p (SlotWorkspaceWatch m d q')"
      using Cons.prems(2) x d(2) by auto
    then have "x = SlotWorkspaceWatch m d q'" by (metis d(1) option.inject ws_registered_def)
    then show False using Cons.prems(1) d(2) x by auto
  qed
  then show ?case using IH by (cases x) auto
qed simp

text \<open>Each watching client id has one connection among them.\<close>

lemma listeners_watched:
  assumes inv: "full_inv E w" and wd: "wired w" and dist: "distinct (watch_wires (slots w))"
    and live: "\<not> dead_signal E (native w) (workspaceSignal p)" and p: "p \<in> set WORKSPACE_WATCH_PROPS"
  defines "xs \<equiv> connected w (workspaceSignal p)"
  shows "distinct (map (conn_id w) (listeners xs))" "conn_id w ` set (listeners xs) = {i. ws_watched w i p}"
    "set (listeners xs) \<subseteq> {..<nextConn w}"
proof -
  note conn = connected_workspace [OF inv wd live p, folded xs_def]
  let ?f = "\<lambda>(s, _). s = workspaceSignal p"
  have "filter (\<lambda>s. \<not> plain_slot s) xs = map snd (filter ?f (watch_wires (slots w)))"
    by (auto simp: xs_def connected_def watch_wires_def filter_map filter_filter comp_def
        intro!: arg_cong [where f = "map snd"] filter_cong)
  then have "distinct (filter (\<lambda>s. \<not> plain_slot s) xs)"
    using dist by (auto simp: distinct_map intro: inj_onI)
  then show "distinct (map (conn_id w) (listeners xs))"
    by (rule distinct_listeners) (use conn in blast)
  show "conn_id w ` set (listeners xs) = {i. ws_watched w i p}"
  proof (intro equalityI subsetI)
    fix i
    assume "i \<in> conn_id w ` set (listeners xs)"
    then show "i \<in> {i. ws_watched w i p}"
      using conn by (fastforce simp: set_listeners ws_watched_handlers ws_registered_def)
  next
    fix i
    assume "i \<in> {i. ws_watched w i p}"
    then obtain h where "map_of (ws_handlers w i) p = Some h" by (auto simp: ws_watched_handlers)
    from ws_inv_handler [OF full_invD(2) [OF inv] this] show "i \<in> conn_id w ` set (listeners xs)"
      by (auto simp: set_listeners xs_def image_iff intro: connectedI)
  qed
  show "set (listeners xs) \<subseteq> {..<nextConn w}"
    using conn by (fastforce simp: set_listeners)
qed

definition workspace_news :: "ext \<Rightarrow> world \<Rightarrow> string \<Rightarrow> connref \<Rightarrow> (number \<times> string) list" where
  "workspace_news E w p c = notification E w c ''workspace.changed''
     (JObj [(''property'', JStr p), (''value'', workspaceValue w p)])"

lemma run_listeners:
  assumes "\<And>s. s \<in> set xs \<Longrightarrow> s = SlotRescanDesktops \<or> (\<exists>m c. s = SlotWorkspaceWatch m c p)"
  shows "conns v = conns w \<Longrightarrow> native v = native w \<Longrightarrow>
    pushes (fold (run_slot E NoArg) xs v) = pushes v @ concat (map (workspace_news E w p) (listeners xs))"
  using assms
proof (induction xs arbitrary: v)
  case (Cons x xs)
  from Cons.prems(3) [of x] consider "x = SlotRescanDesktops" | m c where "x = SlotWorkspaceWatch m c p" by auto
  then show ?case
  proof cases
    case 1
    have "pushes (rescanDesktops v) = pushes v" by (simp add: rescanDesktops_def pushes_def)
    then show ?thesis
      using Cons.IH [of "rescanDesktops v"] Cons.prems 1 by (simp add: run_slot_def rescanDesktops_def)
  next
    case 2
    have "workspaceValue v p = workspaceValue w p" using Cons.prems(2) by (simp add: workspaceValue_def)
    then have "pushes (workspace_changed E c p v) = pushes v @ workspace_news E w p c"
      using Cons.prems(1) by (simp add: workspace_changed_def workspace_news_def notification_def)
    then show ?thesis
      using Cons.IH [of "workspace_changed E c p v"] Cons.prems 2
      by (simp add: run_slot_def workspace_changed_def)
  qed
qed simp

text \<open>C8. When KWin signals that a watchable property of the workspace has changed, every client id
  that watches it has exactly one connection that is told, with the value the property then
  has (and is told only while it is alive); nobody else is told anything.\<close>

theorem workspace_change_notified:
  assumes "environment E R" "script_reachable E R w" "kwin_evolves E (native w) n"
    and "\<not> dead_signal E n (workspaceSignal p)" "p \<in> set WORKSPACE_WATCH_PROPS"
  shows "\<exists>cs. distinct (map (conn_id w) cs) \<and> conn_id w ` set cs = {i. ws_watched w i p} \<and> set cs \<subseteq> {..<nextConn w} \<and>
    pushes (kwin_signal E (n, workspaceSignal p, NoArg) w) = pushes w @
      concat (map (\<lambda>c. notification E w c ''workspace.changed''
        (JObj [(''property'', JStr p), (''value'', workspaceValue (w\<lparr>native := n\<rparr>) p)])) cs)"
proof -
  let ?w = "w\<lparr>native := n\<rparr>"
  let ?xs = "connected ?w (workspaceSignal p)"
  have inv: "full_inv E ?w"
    by (rule full_inv_native [OF world_inv_full [OF reachable_world_inv [OF assms(1,2)]] assms(3)])
  have wd: "wired ?w" using reachable_wired [OF assms(1,2)] by (simp add: wired_def)
  have dist: "distinct (watch_wires (slots ?w))" using reachable_watch_wires [OF assms(1,2)] by simp
  have live: "\<not> dead_signal E (native ?w) (workspaceSignal p)" using assms(4) by simp
  have same: "pushes ?w = pushes w" "ws_watched ?w = ws_watched w"
    by (simp_all add: pushes_def ws_watched_def fun_eq_iff)
  have news: "workspace_news E ?w p = (\<lambda>c. notification E w c ''workspace.changed''
      (JObj [(''property'', JStr p), (''value'', workspaceValue ?w p)]))"
    by (simp add: workspace_news_def notification_def fun_eq_iff)
  have "pushes (fold (run_slot E NoArg) ?xs ?w) = pushes ?w @ concat (map (workspace_news E ?w p) (listeners ?xs))"
    by (rule run_listeners) (use connected_workspace [OF inv wd live assms(5)] in auto)
  then have "pushes (kwin_signal E (n, workspaceSignal p, NoArg) w) =
      pushes w @ concat (map (workspace_news E ?w p) (listeners ?xs))"
    by (simp add: kwin_signal_def emit_def same)
  then show ?thesis
    using listeners_watched [OF inv wd dist live assms(5)] same(2)
    by (intro exI [of _ "listeners ?xs"]) (simp add: news)
qed

text \<open>A client that watches the current desktop.\<close>

definition listening_events :: "event list" where
  "listening_events = take 2 demo_events @
     [Reply 6 (JArr [rpc_request ''workspace.watch'' (JArr [JObj [(''currentDesktop'', JBool True)]])]), ClientTurn 0]"

definition demo_listening :: world where
  "demo_listening = the (run_events listening_events (load_script ref_ext demo_native))"

lemma listening_evaluated:
  "case run_events listening_events (load_script ref_ext demo_native) of None \<Rightarrow> False
   | Some w \<Rightarrow> ws_watched w 1 ''currentDesktop'' \<and> nextConn w = 1 \<and> conn_alive w 0 \<and> conn_id w 0 = 1"
  by code_simp

lemma demo_listening_facts:
  "ws_watched demo_listening 1 ''currentDesktop'' \<and> nextConn demo_listening = 1 \<and>
   conn_alive demo_listening 0 \<and> conn_id demo_listening 0 = 1" "demo_reachable demo_listening"
proof -
  obtain w where w: "run_events listening_events (load_script ref_ext demo_native) = Some w"
    using listening_evaluated by (auto split: option.splits)
  then have eq: "demo_listening = w" by (simp add: demo_listening_def)
  show "ws_watched demo_listening 1 ''currentDesktop'' \<and> nextConn demo_listening = 1 \<and>
    conn_alive demo_listening 0 \<and> conn_id demo_listening 0 = 1"
    using listening_evaluated by (simp add: w eq)
  have "demo_reachable (load_script ref_ext demo_native)"
    by (rule reachable_init) (auto simp: script_init_def)
  from run_reachable [OF this w] show "demo_reachable demo_listening" by (simp add: eq)
qed

theorem workspace_change_notified_witness:
  "pushes (kwin_signal ref_ext (demo_native, workspaceSignal ''currentDesktop'', NoArg) demo_listening) =
     pushes demo_listening @ [(1, ''workspace.changed'')]"
proof -
  have ev: "kwin_evolves ref_ext (native demo_listening) demo_native"
    and live: "\<not> dead_signal ref_ext demo_native (workspaceSignal ''currentDesktop'')"
    by (simp_all add: kwin_evolves_def dead_signal_def ref_ext_def)
  have p: "''currentDesktop'' \<in> set WORKSPACE_WATCH_PROPS" by (simp add: WORKSPACE_WATCH_PROPS_def)
  note f = demo_listening_facts(1)
  obtain cs where cs: "distinct (map (conn_id demo_listening) cs)"
    "conn_id demo_listening ` set cs = {i. ws_watched demo_listening i ''currentDesktop''}"
    "set cs \<subseteq> {..<nextConn demo_listening}"
    "pushes (kwin_signal ref_ext (demo_native, workspaceSignal ''currentDesktop'', NoArg) demo_listening) =
       pushes demo_listening @ concat (map (\<lambda>c. notification ref_ext demo_listening c ''workspace.changed''
         (JObj [(''property'', JStr ''currentDesktop''),
           (''value'', workspaceValue (demo_listening\<lparr>native := demo_native\<rparr>) ''currentDesktop'')])) cs)"
    using workspace_change_notified [OF ref_environment demo_listening_facts(2) ev live p] by blast
  have "set cs = {0}" using cs(2,3) f by auto
  then have "cs = [0]" using distinct_singleton cs(1) by (metis distinct_map)
  then show ?thesis using cs(4) f by (simp add: notification_def ref_ext_def)
qed

end
