(* ===== verification/Loop_Properties.thy ===== *)
theory Loop_Properties
  imports Reference_Env Script_Progress
begin

text \<open>
  Properties of the script as a whole: the connection table, the loops and the calls they
  await (\<open>clients.ts\<close>, \<open>dbus.ts\<close>, \<open>index.ts\<close>).
\<close>

section \<open>Connections\<close>

text \<open>C26. In every reachable state the connection table holds exactly the live connections, each
  under its own id: no id has two live connections, and no live connection is missing.\<close>

theorem connection_table:
  assumes "environment E R" "script_reachable E R w"
  shows "map_of (connections w) i = Some c \<longleftrightarrow> c < nextConn w \<and> conn_alive w c \<and> conn_id w c = i"
  using conn_invD(2,3) [OF world_invD(2) [OF reachable_world_inv [OF assms]]] by blast

theorem connection_table_witness:
  "map_of (connections demo_connected) 1 = Some 0 \<and> conn_alive demo_connected 0 \<and> conn_id demo_connected 0 = 1"
  using connection_table [OF ref_environment demo_reachable_states(1), of 1 0] demo_connected_facts by blast

text \<open>What one entry of a control poll does to the set of connected ids.\<close>

definition a_event :: "jsval \<Rightarrow> number set \<Rightarrow> number set" where
  "a_event ev ids = (case (js_prop ev ''event'', js_prop ev ''id'') of
      (JStr s, JNum i) \<Rightarrow>
        if s = ''client_connected'' then insert i ids
        else if s = ''client_disconnected'' then ids - {i} else ids
    | _ \<Rightarrow> ids)"

lemma outer_calls [simp]:
  "connections (set_loop c l w) = connections w" "connections (mark_done i w) = connections w"
  "connections (snd (new_promise ms call wt w)) = connections w"
  by (simp_all add: set_loop_def mark_done_def new_promise_def)

lemma connections_turns [simp]:
  "connections (run_head E c w) = connections w" "connections (control_sleep ms w) = connections w"
  "connections (control_poll w) = connections w"
  by (simp_all add: run_head_def control_sleep_def control_poll_def pollClient_def pollDaemon_def
      sleep_def callDBusAsync_def new_promise_def Let_def)

lemma disconnected_effects:
  assumes "world_inv E r w" "map_of (connections w) i = Some c"
  shows "connections (onClientDisconnected E i w) = AList.delete i (connections w)"
    and "conns (onClientDisconnected E i w) = conns (stop_conn c w)"
    and "nextConn (onClientDisconnected E i w) = nextConn w"
proof -
  let ?v = "(stop_conn c w)\<lparr>connections := AList.delete i (connections (stop_conn c w))\<rparr>"
  note g = world_invD(1) [OF assms(1)]
  have "good E ?v"
    by (rule good_change [OF g]) (use good_dbus [OF g] in \<open>auto simp: stop_conn_def dbus_inv_def\<close>)
  then have "same_outer (dropClientWorkspaceWatches E i (dropClientTokens E i ?v)) ?v"
    using inner_step_teardown [of E ?v i] by (simp add: inner_step_def)
  from outer_fields [OF this]
  show "connections (onClientDisconnected E i w) = AList.delete i (connections w)"
    "conns (onClientDisconnected E i w) = conns (stop_conn c w)"
    "nextConn (onClientDisconnected E i w) = nextConn w"
    by (simp_all add: onClientDisconnected_def assms(2) Let_def stop_conn_def)
qed

lemma control_event_ids:
  assumes "world_inv E r w"
  shows "dom (map_of (connections (control_event E ev w))) = a_event ev (dom (map_of (connections w)))"
proof -
  have con: "dom (map_of (connections (onClientConnected E i w))) = insert i (dom (map_of (connections w)))" for i
    by (auto simp: onClientConnected_def Let_def update_conv' jm_has_def domIff)
  have dis: "dom (map_of (connections (onClientDisconnected E i w))) = dom (map_of (connections w)) - {i}" for i
  proof (cases "map_of (connections w) i")
    case None
    then show ?thesis by (auto simp: onClientDisconnected_def)
  next
    case (Some c)
    then show ?thesis by (auto simp: disconnected_effects(1) [OF assms Some] delete_conv')
  qed
  show ?thesis
    using con dis by (auto simp: control_event_def a_event_def js_prop_def split: jsval.splits)
qed

lemma control_events_ids:
  "world_inv E (Some Control) w \<Longrightarrow>
     dom (map_of (connections (fold (control_event E) evs w))) = fold a_event evs (dom (map_of (connections w)))"
  by (induction evs arbitrary: w) (simp_all add: control_event_ids world_inv_control_event)

text \<open>C27. A control poll that returns a list of events changes the set of connected ids event by
  event, in order: a connect event adds its id, a disconnect event removes it, everything else
  is ignored. The control loop then yields before it polls again.\<close>

theorem control_step_refines:
  assumes "environment E R" "script_reachable E R w" "control w = KPoll i"
    and "poll_value E (pr_outcome (promises w ! i)) = Some (Inr (JArr evs))"
  shows "dom (map_of (connections (control_step E w))) = fold a_event evs (dom (map_of (connections w))) \<and>
    (\<exists>j. control (control_step E w) = KSleep j)"
proof -
  have "world_inv E (Some Control) (mark_done i w)"
    using world_inv_resume [OF reachable_world_inv [OF assms(1,2)], of Control i] assms(3) by simp
  note ids = control_events_ids [OF this, of evs]
  have "control_step E w = control_sleep 0 (fold (control_event E) evs (mark_done i w))"
    by (simp add: control_step_def assms(3,4) control_polled_def)
  then show ?thesis
    using ids by (simp add: control_sleep_def sleep_def new_promise_def)
qed

theorem control_step_refines_witness:
  "dom (map_of (connections (control_step ref_ext (demo_at 1)))) =
     fold a_event [JObj [(''event'', JStr ''client_connected''), (''id'', JNum 1)]]
       (dom (map_of (connections (demo_at 1)))) \<and>
   (\<exists>j. control (control_step ref_ext (demo_at 1)) = KSleep j)"
proof -
  have "control (demo_at 1) = KPoll 4 \<and> poll_value ref_ext (pr_outcome (promises (demo_at 1) ! 4)) =
      Some (Inr (JArr [JObj [(''event'', JStr ''client_connected''), (''id'', JNum 1)]]))"
    by (rule demo_atI) code_simp
  then show ?thesis
    by (intro control_step_refines [OF ref_environment demo_at_reachable, of 1 4]) simp_all
qed

section \<open>Disconnect\<close>





section \<open>Calls\<close>

text \<open>C32. Along every run, what the script has pushed to its clients is only extended: messages are
  neither reordered nor taken back. A D-Bus call or a sleep is answered at most once: once it has
  settled, no later reply and no later timeout changes its outcome, and a continuation that
  has run does not run again.\<close>

theorem calls_final:
  assumes "environment E R" "script_reachable E R w" "(step E R)\<^sup>*\<^sup>* w w'"
  shows "prefix (pushes w) (pushes w') \<and>
    (\<forall>i < length (promises w). pr_outcome (promises w ! i) \<noteq> Pending \<longrightarrow> i < length (promises w') \<and>
       pr_outcome (promises w' ! i) = pr_outcome (promises w ! i) \<and>
       (pr_done (promises w ! i) \<longrightarrow> pr_done (promises w' ! i) \<and> promise_reaction E i w' = w'))"
proof -
  note h = steps_history [OF assms]
  have "promise_le (promises w ! i) (promises w' ! i)" "i < length (promises w')" if "i < length (promises w)" for i
    using h that by (auto simp: history_def promises_le_def)
  then show ?thesis
    using pushes_prefix [OF h] by (auto simp: promise_le_def promise_reaction_def Let_def)
qed

theorem calls_final_witness:
  "prefix (pushes (demo_at 1)) (pushes demo_requested) \<and>
   pr_outcome (promises demo_requested ! 4) = pr_outcome (promises (demo_at 1) ! 4)"
proof -
  have "4 < length (promises (demo_at 1)) \<and> pr_outcome (promises (demo_at 1) ! 4) \<noteq> Pending"
    by (rule demo_atI) code_simp
  moreover have "(step ref_ext ref_single)\<^sup>*\<^sup>* (demo_at 1) demo_requested"
    unfolding demo_states by (rule demo_steps) simp_all
  ultimately show ?thesis
    using calls_final [OF ref_environment demo_at_reachable, of 1 demo_requested] by blast
qed

text \<open>C31. In every reachable state, a call or sleep that has not settled has its timer running, and
  the timer settles it: a call is rejected with the text of its timeout, a sleep resolves.
  No call stays unanswered.\<close>

theorem calls_settle:
  assumes "environment E R" "script_reachable E R w" "i < length (promises w)"
    and "pr_outcome (promises w ! i) = Pending"
  shows "step E R w (promise_timeout E i w) \<and>
    pr_outcome (promises (promise_timeout E i w) ! i) =
      (case pr_call (promises w ! i) of Some call \<Rightarrow> Rejected (timeout_text E call) | None \<Rightarrow> Resolved Undefined)"
proof -
  have "promise_ok (promises w ! i)"
    using good_dbus [OF world_invD(1) [OF reachable_world_inv [OF assms(1,2)]]] assms(3)
    by (simp add: dbus_inv_def)
  then have "tm_active (pr_timer (promises w ! i))"
    using assms(4) by (simp add: promise_ok_def)
  then have "step E R w (promise_timeout E i w)"
    by (rule step_timeout [OF assms(3)])
  then show ?thesis
    using assms(3,4) by (simp add: promise_timeout_def timer_outcome_def settle_def stop_promise_timer_def
        split: option.splits)
qed

theorem calls_settle_witness:
  "step ref_ext ref_single demo_connected (promise_timeout ref_ext 0 demo_connected)"
proof -
  have "0 < length (promises demo_connected) \<and> pr_outcome (promises demo_connected ! 0) = Pending"
    unfolding demo_connected_def by (rule demo_atI) code_simp
  then show ?thesis
    using calls_settle [OF ref_environment demo_reachable_states(1), of 0] by blast
qed

section \<open>Loops\<close>

text \<open>C28. In every reachable state, every poll whose answer has not been taken yet is awaited by
  exactly one loop, on that loop's own D-Bus object. Two such polls on the same object are
  the same poll, unless the loop of a connection that is no longer alive awaits one of them.\<close>

theorem polls_owned:
  assumes "environment E R" "script_reachable E R w" "inj_on (numberToString E) (conn_id w ` {..<nextConn w})"
    and i: "i < length (promises w)" "kind (promises w ! i) = (WaitPoll, path)" "\<not> pr_done (promises w ! i)"
    and j: "j < length (promises w)" "kind (promises w ! j) = (WaitPoll, path)" "\<not> pr_done (promises w ! j)"
  shows "(\<exists>!ow. awaiting w ow = Some i) \<and> (\<exists>ow. awaiting w ow = Some i \<and> expected E w ow = Some (WaitPoll, path)) \<and>
    (i = j \<or> (\<exists>c. \<not> conn_alive w c \<and> (awaiting w (Client c) = Some i \<or> awaiting w (Client c) = Some j)))"
proof -
  note inv = reachable_world_inv [OF assms(1,2)]
  note linv = world_invD(3) [OF inv] and cinv = world_invD(2) [OF inv]
  have own: "\<exists>!ow. awaiting w ow = Some k" "\<exists>ow. awaiting w ow = Some k \<and> expected E w ow = Some (WaitPoll, path)"
    if "k < length (promises w)" "kind (promises w ! k) = (WaitPoll, path)" "\<not> pr_done (promises w ! k)" for k
    using loop_inv_waits [OF linv that(1)] loop_inv_inj [OF linv] loop_inv_awaited [OF linv] that
    by (auto simp: awaited_def waits_def kind_def)
  obtain o1 o2 where o: "awaiting w o1 = Some i" "expected E w o1 = Some (WaitPoll, path)"
    "awaiting w o2 = Some j" "expected E w o2 = Some (WaitPoll, path)"
    using own(2) [OF i] own(2) [OF j] by blast
  have client: "c < nextConn w \<and> path = Some (client_path E (conn_id w c))"
    if "expected E w (Client c) = Some (WaitPoll, path)" for c
    using that conn_invD(4) [OF cinv, of c] by (auto simp: not_le [symmetric] split: client_loop.splits)
  have "i = j \<or> (\<exists>c. \<not> conn_alive w c \<and> (awaiting w (Client c) = Some i \<or> awaiting w (Client c) = Some j))"
  proof (cases "\<exists>c d. o1 = Client c \<and> o2 = Client d \<and> conn_alive w c \<and> conn_alive w d")
    case True
    then obtain c d where cd: "o1 = Client c" "o2 = Client d" "conn_alive w c" "conn_alive w d" by blast
    note c = client [OF o(2) [unfolded cd(1)]] and d = client [OF o(4) [unfolded cd(2)]]
    then have "conn_id w c = conn_id w d"
      using inj_onD [OF assms(3), of "conn_id w c" "conn_id w d"] by (simp add: client_path_def)
    moreover have "map_of (connections w) (conn_id w c) = Some c" "map_of (connections w) (conn_id w d) = Some d"
      using conn_invD(3) [OF cinv] c d cd(3,4) by blast+
    ultimately have "c = d" by (metis option.inject)
    then show ?thesis using o cd by (metis option.inject)
  next
    case False
    then show ?thesis
      using o client by (cases o1; cases o2) (auto simp: client_path_def DAEMON_DBUS_PATH_def split: control_loop.splits)
  qed
  with own [OF i] show ?thesis by blast
qed

theorem polls_owned_witness:
  "\<exists>!ow. awaiting demo_connected ow = Some 6"
proof -
  have f: "6 < length (promises demo_connected) \<and> \<not> pr_done (promises demo_connected ! 6) \<and>
      fst (kind (promises demo_connected ! 6)) = WaitPoll \<and> nextConn demo_connected = 1"
    unfolding demo_connected_def by (rule demo_atI) code_simp
  then obtain path where "kind (promises demo_connected ! 6) = (WaitPoll, path)" by (metis prod.collapse)
  moreover have "inj_on (numberToString ref_ext) (conn_id demo_connected ` {..<nextConn demo_connected})"
    using f by (simp add: lessThan_Suc)
  ultimately show ?thesis
    using polls_owned [OF ref_environment demo_reachable_states(1), of 6 path 6] f by blast
qed

lemma timeout_outer [simp]:
  "loops (promise_timeout E i w) = loops w" "control (promise_timeout E i w) = control w"
  "conns (promise_timeout E i w) = conns w" "nextConn (promise_timeout E i w) = nextConn w"
  "length (promises (promise_timeout E i w)) = length (promises w)"
  by (simp_all add: promise_timeout_def)

text \<open>A loop that awaits a promise can be brought to go on without touching anything else.\<close>

lemma awaited_ready:
  assumes "world_inv E None w" "awaiting w ow = Some i"
  obtains w1 where "(step E R)\<^sup>*\<^sup>* w w1" "settled w1 i" "loops w1 = loops w" "control w1 = control w"
    "conns w1 = conns w" "nextConn w1 = nextConn w" "length (promises w1) = length (promises w)"
  using awaited_settles [OF assms]
proof
  assume "settled w i"
  then show ?thesis using that by blast
next
  assume a: "i < length (promises w) \<and> tm_active (pr_timer (promises w ! i))"
  then have "step E R w (promise_timeout E i w)" by (auto intro: step_timeout)
  moreover have "settled (promise_timeout E i w) i" using a by (simp add: timeout_settles)
  ultimately show ?thesis by (intro that [of "promise_timeout E i w"]) auto
qed

text \<open>A new poll of a client, made after the first \<open>n\<close> promises.\<close>

definition fresh_client_poll :: "ext \<Rightarrow> nat \<Rightarrow> connref \<Rightarrow> world \<Rightarrow> bool" where
  "fresh_client_poll E n c w \<longleftrightarrow> (\<exists>i. loops w c = CPoll i \<and> n \<le> i \<and> pr_outcome (promises w ! i) = Pending \<and>
     kind (promises w ! i) = (WaitPoll, Some (client_path E (conn_id w c))))"

lemma run_head_fresh: "conn_alive w c \<Longrightarrow> n \<le> length (promises w) \<Longrightarrow> fresh_client_poll E n c (run_head E c w)"
  by (simp add: fresh_client_poll_def run_head_def set_loop_def pollClient_def callDBusAsync_def new_promise_def
      kind_def nth_append client_path_def)

text \<open>The client's next turn does not end: the JSON-RPC server does not return on a message.\<close>

definition server_hangs :: "ext \<Rightarrow> receiver \<Rightarrow> connref \<Rightarrow> world \<Rightarrow> bool" where
  "server_hangs E R c w \<longleftrightarrow> client_ready w c \<and> client_step E R c w = None \<and>
     (\<exists>message v. R (rpc_methods E) (errorListener E) message c v = None)"

text \<open>The turns a loop has left until it sleeps, when it is in a batch.\<close>

fun turns_left :: "client_loop \<Rightarrow> nat" where
  "turns_left (CReceive _ rest) = 2 + 2 * length rest"
| "turns_left (CNext _ rest) = 1 + 2 * length rest"
| "turns_left _ = 0"

lemma dispatch_next_turn:
  assumes "kwin_documented E" "receiver_documented R" "good E w" "c < nextConn w"
  shows "dispatch_next E R c ms w = None \<Longrightarrow> \<exists>message. R (rpc_methods E) (errorListener E) message c w = None"
    and "dispatch_next E R c ms w = Some w' \<Longrightarrow> conns w' = conns w \<and> nextConn w' = nextConn w \<and>
       (\<forall>i. loops w' c \<noteq> CPoll i) \<and> turns_left (loops w' c) \<le> 2 * length ms"
proof -
  show "\<exists>message. R (rpc_methods E) (errorListener E) message c w = None" if "dispatch_next E R c ms w = None"
    using that by (auto simp: dispatch_next_def split: list.splits option.splits)
  assume run: "dispatch_next E R c ms w = Some w'"
  show "conns w' = conns w \<and> nextConn w' = nextConn w \<and>
       (\<forall>i. loops w' c \<noteq> CPoll i) \<and> turns_left (loops w' c) \<le> 2 * length ms"
  proof (cases ms)
    case Nil
    then have "w' = client_sleep 0 c w" using run by (simp add: dispatch_next_def)
    then show ?thesis by (simp add: client_sleep_def sleep_def new_promise_def set_loop_def)
  next
    case (Cons m rest)
    then obtain res w1 where R: "R (rpc_methods E) (errorListener E) m c w = Some (res, w1)"
      and w': "w' = set_loop c (CReceive res rest) w1"
      using run by (auto simp: dispatch_next_def split: option.splits)
    from inner_step_receive [OF assms R] show ?thesis
      by (simp add: w' Cons inner_step_def same_outer_def set_loop_def)
  qed
qed

lemma dispatched_turn:
  assumes E: "kwin_documented E" "receiver_documented R" and c: "c < nextConn w" "conn_alive w c" "client_ready w c"
    and v: "client_step E R c w = dispatch_next E R c ms v" "good E v" "conns v = conns w" "nextConn v = nextConn w"
  shows "server_hangs E R c w \<or> (\<exists>w'. step E R w w' \<and> c < nextConn w' \<and> conn_alive w' c \<and>
    (\<forall>i. loops w' c \<noteq> CPoll i) \<and> turns_left (loops w' c) \<le> 2 * length ms)"
proof (cases "client_step E R c w")
  case None
  then show ?thesis
    using dispatch_next_turn(1) [OF E v(2), of c ms] v c by (auto simp: server_hangs_def)
next
  case (Some w')
  then show ?thesis
    using dispatch_next_turn(2) [OF E v(2), of c ms w'] v c step_client [OF c(1,3) Some] by auto
qed

lemma client_turn:
  assumes E: "environment E R" and inv: "world_inv E None w" and c: "c < nextConn w" "conn_alive w c"
    and ready: "client_ready w c" and l: "\<And>i. loops w c \<noteq> CSleep i"
  shows "server_hangs E R c w \<or> (\<exists>w'. step E R w w' \<and> c < nextConn w' \<and> conn_alive w' c \<and> (\<forall>i. loops w' c \<noteq> CPoll i) \<and>
    ((\<exists>i. loops w c = CPoll i) \<or> turns_left (loops w' c) < turns_left (loops w c)))"
proof -
  have E': "kwin_documented E" "receiver_documented R" using E by (simp_all add: environment_def)
  have stepI: "step E R w w'" if "client_step E R c w = Some w'" for w'
    by (rule step_client [OF c(1) ready that])
  note dispatched = dispatched_turn [OF E' c ready]
  show ?thesis
  proof (cases "loops w c")
    case (CPoll i)
    have g: "good E (mark_done i w)"
      using world_inv_resume [OF inv, of "Client c" i] CPoll by (simp add: world_inv_def)
    obtain out where out: "poll_value E (pr_outcome (promises w ! i)) = Some out"
      using ready CPoll by (cases "pr_outcome (promises w ! i)") (auto simp: client_ready_def settled_def)
    show ?thesis
    proof (cases "\<exists>ms. out = Inr (JArr ms)")
      case True
      then obtain ms where "client_step E R c w = dispatch_next E R c ms (mark_done i w)"
        using CPoll out c by (auto simp: client_step_def client_polled_def mark_done_def)
      from dispatched [OF this g] show ?thesis using CPoll by (auto simp: mark_done_def)
    next
      case False
      have "conn_alive (mark_done i w) c" using c by (simp add: mark_done_def)
      then have "\<exists>m. client_step E R c w = Some (client_sleep DBUS_RETRY_DELAY c (sendLog ''warn'' m (mark_done i w)))"
        using CPoll out False by (simp add: client_step_def client_polled_def split: sum.splits jsval.splits) blast
      then obtain m where "client_step E R c w = Some (client_sleep DBUS_RETRY_DELAY c (sendLog ''warn'' m (mark_done i w)))" ..
      note st = stepI [OF this]
      show ?thesis
        by (rule disjI2, intro exI conjI, rule st)
          (use c CPoll in \<open>simp_all add: client_sleep_def sleep_def new_promise_def set_loop_def mark_done_def\<close>)
    qed
  next
    case (CReceive response rest)
    have "client_step E R c w = Some (dispatch_answered E c response rest w)"
      by (simp add: client_step_def CReceive)
    moreover have "conns (reply_response E c v w) = conns w" "nextConn (reply_response E c v w) = nextConn w" for v
      using inner_step_reply_response [OF world_invD(1) [OF inv], of c v] by (simp_all add: inner_step_def same_outer_def)
    ultimately show ?thesis
      using stepI c CReceive
      by (intro disjI2 exI [of _ "dispatch_answered E c response rest w"])
        (auto simp: dispatch_answered_def set_loop_def split: sum.splits)
  next
    case (CNext err rest)
    then obtain v where v: "client_step E R c w = dispatch_next E R c rest v" "v = w \<or> (\<exists>m. v = sendLog ''warn'' m w)"
      by (cases err) (auto simp: client_step_def dispatch_done_def)
    then have "good E v" "conns v = conns w" "nextConn v = nextConn w"
      using world_invD(1) [OF inv] inner_step_good [OF inner_step_log [OF world_invD(1) [OF inv]]] by auto
    from dispatched [OF v(1) this] show ?thesis using CNext by (auto simp: less_Suc_eq_le)
  qed (use l ready in \<open>auto simp: client_ready_def\<close>)
qed

text \<open>A loop in a batch or asleep reaches its next poll.\<close>

lemma batch_ends:
  assumes E: "environment E R"
  shows "script_reachable E R w \<Longrightarrow> c < nextConn w \<Longrightarrow> conn_alive w c \<Longrightarrow> (\<And>i. loops w c \<noteq> CPoll i) \<Longrightarrow>
    \<exists>w1. (step E R)\<^sup>*\<^sup>* w w1 \<and> (fresh_client_poll E (length (promises w)) c w1 \<or> server_hangs E R c w1)"
proof (induction "turns_left (loops w c)" arbitrary: w rule: less_induct)
  case less
  note inv = reachable_world_inv [OF E less.prems(1)]
  show ?case
  proof (cases "\<exists>i. loops w c = CSleep i")
    case True
    then obtain i where i: "loops w c = CSleep i" ..
    then have aw: "awaiting w (Client c) = Some i" by simp
    obtain w1 where w1: "(step E R)\<^sup>*\<^sup>* w w1" "settled w1 i" "loops w1 = loops w" "control w1 = control w"
      "conns w1 = conns w" "nextConn w1 = nextConn w" "length (promises w1) = length (promises w)"
      by (rule awaited_ready [OF inv aw])
    have "step E R w1 (run_head E c (mark_done i w1))"
      by (rule step_client [of c]) (use less.prems w1 i in \<open>simp_all add: client_step_def client_ready_def\<close>)
    moreover have "fresh_client_poll E (length (promises w)) c (run_head E c (mark_done i w1))"
      by (rule run_head_fresh) (use less.prems w1 in \<open>simp_all add: mark_done_def\<close>)
    ultimately show ?thesis using w1(1) by (meson rtranclp.rtrancl_into_rtrancl)
  next
    case False
    have "loops w c \<noteq> CStopped"
      using reachable_loops_live [OF E less.prems(1)] less.prems by (auto simp: loops_live_def)
    then have "client_ready w c"
      using False less.prems(4) by (cases "loops w c") (auto simp: client_ready_def)
    from client_turn [OF E inv less.prems(2,3) this] False less.prems(4)
    consider "server_hangs E R c w" | w' where "step E R w w'" "c < nextConn w'" "conn_alive w' c"
      "\<And>i. loops w' c \<noteq> CPoll i" "turns_left (loops w' c) < turns_left (loops w c)" by metis
    then show ?thesis
    proof cases
      case 2
      have run: "(step E R)\<^sup>*\<^sup>* w w'" using 2(1) by blast
      then have "length (promises w) \<le> length (promises w')"
        using steps_history [OF E less.prems(1) run] by (simp add: history_def promises_le_def)
      then have later: "fresh_client_poll E (length (promises w')) c v \<Longrightarrow> fresh_client_poll E (length (promises w)) c v" for v
        by (auto simp: fresh_client_poll_def)
      from less.hyps [OF 2(5) script_steps_reachable [OF E less.prems(1) run] 2(2,3,4)]
      show ?thesis using later run by (meson rtranclp_trans)
    qed blast
  qed
qed

text \<open>C29. The loop of a live client never hangs and never ends: from every reachable state it can
  reach a new poll of its own D-Bus object that awaits its answer, whatever it was waiting for and
  however many messages of a batch it still had to dispatch; unless the JSON-RPC server does
  not return on one of the client's messages.\<close>

theorem client_progress:
  assumes "environment E R" "script_reachable E R w" "c < nextConn w" "conn_alive w c"
  shows "\<exists>w1. (step E R)\<^sup>*\<^sup>* w w1 \<and> (fresh_client_poll E (length (promises w)) c w1 \<or> server_hangs E R c w1)"
proof (cases "\<exists>i. loops w c = CPoll i")
  case False
  then show ?thesis using batch_ends [OF assms] by blast
next
  case True
  then obtain i where i: "loops w c = CPoll i" ..
  then have aw: "awaiting w (Client c) = Some i" by simp
  obtain w1 where w1: "(step E R)\<^sup>*\<^sup>* w w1" "settled w1 i" "loops w1 = loops w" "control w1 = control w"
    "conns w1 = conns w" "nextConn w1 = nextConn w" "length (promises w1) = length (promises w)"
    by (rule awaited_ready [OF reachable_world_inv [OF assms(1,2)] aw])
  note reach = script_steps_reachable [OF assms(1,2) w1(1)]
  have "client_ready w1 c" using i w1 by (simp add: client_ready_def)
  from client_turn [OF assms(1) reachable_world_inv [OF assms(1) reach] _ _ this] i w1 assms(3,4)
  consider "server_hangs E R c w1" | w2 where "step E R w1 w2" "c < nextConn w2" "conn_alive w2 c"
    "\<And>i. loops w2 c \<noteq> CPoll i" by fastforce
  then show ?thesis
  proof cases
    case 1
    then show ?thesis using w1(1) by blast
  next
    case 2
    have run: "(step E R)\<^sup>*\<^sup>* w w2" using w1(1) 2(1) by simp
    obtain w3 where w3: "(step E R)\<^sup>*\<^sup>* w2 w3" "fresh_client_poll E (length (promises w2)) c w3 \<or> server_hangs E R c w3"
      using batch_ends [OF assms(1) script_steps_reachable [OF assms(1,2) run] 2(2,3,4)] by blast
    have "length (promises w) \<le> length (promises w2)"
      using steps_history [OF assms(1,2) run] by (simp add: history_def promises_le_def)
    with w3(2) have "fresh_client_poll E (length (promises w)) c w3 \<or> server_hangs E R c w3"
      by (auto simp: fresh_client_poll_def)
    then show ?thesis using run w3(1) by (meson rtranclp_trans)
  qed
qed

theorem client_progress_witness:
  "\<exists>w1. (step ref_ext ref_single)\<^sup>*\<^sup>* demo_watched w1 \<and>
     (fresh_client_poll ref_ext (length (promises demo_watched)) 0 w1 \<or> server_hangs ref_ext ref_single 0 w1)"
proof -
  have "0 < nextConn demo_watched" "conn_alive demo_watched 0" using demo_watched_facts by simp_all
  from client_progress [OF ref_environment demo_reachable_states(4) this] show ?thesis .
qed

lemma control_poll_fields:
  "control (control_poll w) = KPoll (length (promises w))"
  "pr_outcome (promises (control_poll w) ! length (promises w)) = Pending"
  "kind (promises (control_poll w) ! length (promises w)) = (WaitPoll, Some DAEMON_DBUS_PATH)"
  by (simp_all add: control_poll_def pollDaemon_def callDBusAsync_def new_promise_def nth_append kind_def)

lemma control_polled_outcomes:
  "(\<exists>j. control (control_polled E result w) = KSleep j) \<or> control_polled E result w = control_poll w"
  by (simp add: control_polled_def control_sleep_def sleep_def new_promise_def split: sum.splits jsval.splits)

lemma mark_done_length [simp]: "length (promises (mark_done i w)) = length (promises w)"
  by (simp add: mark_done_def)

text \<open>A new poll of the daemon, made after the first \<open>n\<close> promises.\<close>

definition fresh_control_poll :: "nat \<Rightarrow> world \<Rightarrow> bool" where
  "fresh_control_poll n w \<longleftrightarrow> (\<exists>i. control w = KPoll i \<and> n \<le> i \<and> pr_outcome (promises w ! i) = Pending \<and>
     kind (promises w ! i) = (WaitPoll, Some DAEMON_DBUS_PATH))"

lemma control_poll_fresh: "n \<le> length (promises w) \<Longrightarrow> fresh_control_poll n (control_poll w)"
  using control_poll_fields [of w] by (auto simp: fresh_control_poll_def)

text \<open>After its turn the control loop polls or sleeps; after a sleep it polls.\<close>

lemma control_turn:
  assumes "world_inv E None w"
  obtains w1 where "(step E R)\<^sup>*\<^sup>* w w1" "fresh_control_poll (length (promises w)) w1 \<or>
    (\<exists>j. control w1 = KSleep j) \<and> (\<exists>k. control w = KPoll k)"
proof -
  obtain i where i: "awaiting w Control = Some i" by (cases "control w") auto
  obtain v where v: "(step E R)\<^sup>*\<^sup>* w v" "settled v i" "control v = control w"
    "length (promises v) = length (promises w)"
    by (rule awaited_ready [OF assms i])
  have "step E R v (control_step E v)"
    by (rule step_control) (use v i in \<open>auto simp: control_ready_def split: control_loop.splits\<close>)
  then have run: "(step E R)\<^sup>*\<^sup>* w (control_step E v)" using v(1) by simp
  obtain out where out: "poll_value E (pr_outcome (promises v ! i)) = Some out"
    using v(2) by (cases "pr_outcome (promises v ! i)") (auto simp: settled_def)
  have "control_step E v = (case control w of KPoll _ \<Rightarrow> control_polled E out (mark_done i v)
      | KSleep _ \<Rightarrow> control_poll (mark_done i v))"
    using i v(3) out by (simp add: control_step_def split: control_loop.splits)
  moreover have "fresh_control_poll (length (promises w)) (control_poll (mark_done i v))"
    by (rule control_poll_fresh) (simp add: v(4))
  ultimately have "fresh_control_poll (length (promises w)) (control_step E v) \<or>
      (\<exists>j. control (control_step E v) = KSleep j) \<and> (\<exists>k. control w = KPoll k)"
    using control_polled_outcomes [of E out "mark_done i v"] by (auto split: control_loop.splits)
  with run show ?thesis by (rule that)
qed

text \<open>C30. The control loop never ends: from every reachable state it can reach a new poll of the
  daemon that awaits its answer.\<close>

theorem control_progress:
  assumes "environment E R" "script_reachable E R w"
  shows "\<exists>w1. (step E R)\<^sup>*\<^sup>* w w1 \<and> fresh_control_poll (length (promises w)) w1"
proof -
  obtain w1 where w1: "(step E R)\<^sup>*\<^sup>* w w1" "fresh_control_poll (length (promises w)) w1 \<or>
    (\<exists>j. control w1 = KSleep j) \<and> (\<exists>k. control w = KPoll k)"
    by (rule control_turn [OF reachable_world_inv [OF assms]])
  note reach = script_steps_reachable [OF assms w1(1)]
  obtain w2 where w2: "(step E R)\<^sup>*\<^sup>* w1 w2" "fresh_control_poll (length (promises w1)) w2 \<or>
    (\<exists>j. control w2 = KSleep j) \<and> (\<exists>k. control w1 = KPoll k)"
    by (rule control_turn [OF reachable_world_inv [OF assms(1) reach]])
  have le: "length (promises w) \<le> length (promises w1)"
    using steps_history [OF assms w1(1)] by (simp add: history_def promises_le_def)
  show ?thesis
  proof (cases "fresh_control_poll (length (promises w)) w1")
    case False
    then have "fresh_control_poll (length (promises w1)) w2" using w1(2) w2(2) by auto
    then have "fresh_control_poll (length (promises w)) w2"
      using le by (auto simp: fresh_control_poll_def)
    moreover have "(step E R)\<^sup>*\<^sup>* w w2" using w1(1) w2(1) by simp
    ultimately show ?thesis by blast
  qed (use w1(1) in blast)
qed

theorem control_progress_witness:
  "\<exists>w1. (step ref_ext ref_single)\<^sup>*\<^sup>* demo_bound w1 \<and> fresh_control_poll (length (promises demo_bound)) w1"
  by (rule control_progress [OF ref_environment demo_reachable_states(3)])

section \<open>A batch outlives its client\<close>

text \<open>C40. The script can reach a state in which no client is connected and yet a token is
  registered, for a connection that is dead: the loop over a batch of messages does not look at
  \<open>alive\<close> again, so a message received before the disconnect is dispatched after it.\<close>

theorem stale_batch_registers_token:
  "\<exists>E R w t cl. environment E R \<and> script_reachable E R w \<and> connections w = [] \<and>
     abs_claims w t = Some cl \<and> \<not> conn_alive w (cl_conn cl)"
proof -
  have "abs_claims demo_stale (replicate 20 (CHR ''B'')) = Some (claim_of (entries demo_stale 1))"
    "connections demo_stale = []" "\<not> conn_alive demo_stale (cl_conn (claim_of (entries demo_stale 1)))"
    using demo_stale_facts by (simp_all add: abs_claims_def)
  then show ?thesis
    using ref_environment demo_reachable_states(5) by blast
qed

end
