(* ===== verification/Dispatch.thy ===== *)
theory Dispatch
  imports Script_Progress
begin

text \<open>
  What a step of the script sends, and to whom; and how the loop of a client goes through a batch
  of messages while everything else happens in between.
\<close>

section \<open>Who is told\<close>

lemma effects_tells: "effects w' w \<Longrightarrow> tells w' w"
  by (simp add: effects_def)

lemma tells_token_request:
  assumes "token_request E ms c w = Some (res, w')"
  shows "tells w' w"
proof -
  obtain tok n where "sample_loop E (byToken w) (rng w) = Some (tok, n)"
    using assms by (auto simp: token_request_def generateToken_def split: option.splits)
  then show ?thesis
    using assms by (auto simp: token_request_def generateToken_def Let_def intro: tells_trans [OF tells_comm(1) tells_promises])
qed

lemma tells_registered:
  assumes "registerMethod E schema (typed_handler E dec h) ps c w = Some (res, w')"
    and "\<And>p r v. h p c w = Some (r, v) \<Longrightarrow> tells v w"
  shows "tells w' w"
  using registerMethod_runs [OF assms(1)] assms(2) tells_refl by blast

lemma tells_method:
  assumes m: "(name, h) \<in> set (rpc_methods E)" and run: "h ps c w = Some (res, w')"
  shows "tells w' w"
proof -
  note eff = effects_tells [OF effects_windows_update] effects_tells [OF effects_window_watch]
    effects_tells [OF effects_workspace_update] effects_tells [OF effects_workspace_watch]
  have same: "tells v w" if "v = w" for v :: world
    using that by simp
  note handlers = eff same [OF windows_query_same] same [OF workspace_query_same] tells_token_request
  from m show ?thesis
    using run
    by (auto simp: rpc_methods_def method_windows_update_def method_windows_query_def method_window_watch_def
        method_token_request_def method_workspace_update_def method_workspace_query_def method_workspace_watch_def
        dest!: tells_registered intro: handlers)
qed

lemma tells_runs:
  "runs (rpc_methods E) (errorListener E) c w w' \<Longrightarrow> tells w' w"
proof (induction rule: runs.induct)
  case (runs_method w1 name h params res w2)
  from tells_trans [OF tells_method [OF runs_method(2,3)] runs_method.IH] show ?case .
next
  case (runs_listener w1 message e)
  have "tells (errorListener E message e w1) w1" by (cases e) simp_all
  from tells_trans [OF this runs_listener.IH] show ?case .
qed simp

lemma tells_receive:
  "receiver_documented R \<Longrightarrow> R (rpc_methods E) (errorListener E) message c w = Some (res, w') \<Longrightarrow> tells w' w"
  unfolding receiver_documented_def by (blast intro: tells_runs)

lemma tells_outer [simp]:
  "tells (set_loop c l w') w = tells w' w" "tells (client_sleep ms c w') w = tells w' w"
  "tells (run_head E c w') w = tells w' w"
  by (simp_all add: tells_def set_loop_def client_sleep_def sleep_def run_head_def pollClient_def callDBusAsync_def
      new_promise_def pushes_def push_of_def)

lemma tells_dispatch_next:
  "receiver_documented R \<Longrightarrow> dispatch_next E R c ms w = Some w' \<Longrightarrow> tells w' w"
  by (auto simp: dispatch_next_def intro: tells_receive split: list.splits option.splits)

text \<open>The answer of the loop that takes its turn, to its own connection.\<close>

definition answers :: "connref \<Rightarrow> world \<Rightarrow> bool" where
  "answers c w \<longleftrightarrow> (\<exists>v rest. loops w c = CReceive (Inr v) rest)"

lemma tells_mark_done: "i < length (promises w) \<Longrightarrow> tells v (mark_done i w) \<Longrightarrow> tells v w"
  by (simp add: tells_def) (simp add: mark_done_def)

lemma tells_client_step:
  assumes R: "receiver_documented R" and inv: "world_inv E None w" and run: "client_step E R c w = Some w'"
  shows "tells w' w \<or> answers c w \<and> (\<exists>m. pushes w' = pushes w @ [(conn_id w c, m)])"
proof -
  have lt: "i < length (promises w)" if "loops w c = CPoll i \<or> loops w c = CSleep i" for i
    using loop_inv_awaited [OF world_invD(3) [OF inv], of "Client c" i] that by (auto simp: awaited_def)
  have log: "tells (sendLog l m v) u = tells v u" for l m and v u :: world
    by (simp add: tells_def)
  show ?thesis
  proof (cases "loops w c")
    case (CPoll i)
    then obtain result where p: "client_polled E R c result (mark_done i w) = Some w'"
      using run by (auto simp: client_step_def split: option.splits)
    have "tells w' (mark_done i w)"
      using p tells_dispatch_next [OF R, of E c _ "mark_done i w" w']
      by (auto simp: client_polled_def log split: if_splits sum.splits jsval.splits)
    then show ?thesis using tells_mark_done lt CPoll by blast
  next
    case (CReceive response rest)
    then show ?thesis
      using run by (auto simp: client_step_def dispatch_answered_def answers_def reply_response_def Let_def set_loop_def
          pushes_def [of "_\<lparr>loops := _\<rparr>"] tells_def split: sum.splits jsval.splits simp flip: pushes_def)
  next
    case (CNext err rest)
    then obtain v where v: "dispatch_next E R c rest v = Some w'" "v = w \<or> (\<exists>m. v = sendLog ''warn'' m w)"
      using run by (cases err) (auto simp: client_step_def dispatch_done_def)
    then have "tells v w" by auto
    from tells_trans [OF tells_dispatch_next [OF R v(1)] this] show ?thesis ..
  next
    case (CSleep i)
    then show ?thesis using run lt tells_mark_done [of i w w'] by (auto simp: client_step_def)
  next
    case CStopped
    then show ?thesis using run by (simp add: client_step_def)
  qed
qed

section \<open>Control steps push nothing\<close>

lemma pushes_outer [simp]:
  "pushes (set_loop c l w) = pushes w" "pushes (client_sleep ms c w) = pushes w" "pushes (run_head E c w) = pushes w"
  "pushes (control_poll w) = pushes w" "pushes (control_sleep ms w) = pushes w"
  by (simp_all add: set_loop_def client_sleep_def run_head_def control_poll_def control_sleep_def sleep_def pollClient_def
      pollDaemon_def callDBusAsync_def new_promise_def pushes_def push_of_def)

lemma pushes_connected: "pushes (onClientConnected E i w) = pushes w"
proof -
  have "pushes (w\<lparr>conns := x, nextConn := n, connections := y\<rparr>) = pushes w" for x n y
    by (simp add: pushes_def)
  then show ?thesis by (simp add: onClientConnected_def Let_def)
qed

lemma pushes_disconnected:
  assumes "good E w"
  shows "pushes (onClientDisconnected E i w) = pushes w"
proof (cases "map_of (connections w) i")
  case None
  then show ?thesis by (simp add: onClientDisconnected_def)
next
  case (Some c)
  let ?v = "(stop_conn c w)\<lparr>connections := AList.delete i (connections (stop_conn c w))\<rparr>"
  have "good E ?v"
    by (rule good_change [OF assms]) (use good_dbus [OF assms] in \<open>auto simp: stop_conn_def dbus_inv_def\<close>)
  note f = goodD(1) [OF this]
  have "full_inv E (dropClientTokens E i ?v)"
    by (rule full_inv_untouched [OF f script_inv_dropClientTokens [OF full_invD(1) [OF f]]
        ws_untouched_events(4) [OF full_invD(1) [OF f]]])
  from dropWs_same [OF full_invD(2) [OF this], of i]
  have "pushes (onClientDisconnected E i w) = pushes (dropClientTokens E i ?v)"
    by (simp add: onClientDisconnected_def Some Let_def same_registries_def)
  also have "\<dots> = pushes w"
    by (simp add: dropClientTokens_eq Let_def dropClientWatches_frame) (simp add: stop_conn_def pushes_def)
  finally show ?thesis .
qed

lemma pushes_control_events:
  "world_inv E (Some Control) w \<Longrightarrow> pushes (fold (control_event E) evs w) = pushes w"
proof (induction evs arbitrary: w)
  case (Cons ev evs)
  have "pushes (control_event E ev w) = pushes w"
    using pushes_disconnected [OF world_invD(1) [OF Cons.prems]]
    by (simp add: control_event_def pushes_connected split: jsval.splits)
  then show ?case using Cons.IH [OF world_inv_control_event [OF Cons.prems]] by simp
qed simp

lemma pushes_control_step:
  assumes inv: "world_inv E None w"
  shows "pushes (control_step E w) = pushes w"
proof -
  have lt: "i < length (promises w)" if "awaiting w Control = Some i" for i
    using loop_inv_awaited [OF world_invD(3) [OF inv], of Control i] that by (simp add: awaited_def)
  have "pushes (control_polled E result v) = pushes v" if "world_inv E (Some Control) v" for result v
    using pushes_control_events [OF that] by (simp add: control_polled_def split: sum.splits jsval.splits)
  then have "pushes (control_polled E result (mark_done i w)) = pushes w" if "control w = KPoll i" for i result
    using world_inv_resume [OF inv, of Control i] that lt by simp
  then show ?thesis
    using lt by (simp add: control_step_def split: control_loop.splits option.splits)
qed

section \<open>Steps\<close>

lemma tells_step:
  assumes E: "kwin_documented E" "receiver_documented R" and inv: "world_inv E None w" and st: "step E R w w'"
  shows "\<exists>xs. pushes w' = pushes w @ xs \<and> (\<forall>(i, m) \<in> set xs.
    (\<exists>c < nextConn w. conn_id w c = i \<and> (conn_alive w c \<or> answers c w)))"
proof -
  have told: "?thesis" if tells: "tells w' w"
  proof -
    obtain xs where xs: "pushes w' = pushes w @ xs" "\<forall>(i, m) \<in> set xs. \<exists>c. conn_alive w c \<and> conn_id w c = i"
      using tells by (auto simp: tells_def)
    have "c < nextConn w" if "conn_alive w c" for c
      using conn_invD(5) [OF world_invD(2) [OF inv], of c] that by (auto simp: not_le [symmetric])
    then show ?thesis using xs by fast
  qed
  have same: "?thesis" if "pushes w' = pushes w"
    using that by simp
  show ?thesis
    using st
  proof cases
    case (step_deadline r)
    then show ?thesis using told effects_tells [OF effects_events(3)] by blast
  next
    case (step_signal n sig arg)
    then show ?thesis using told effects_tells [OF effects_kwin_signal] by blast
  next
    case (step_client c)
    from tells_client_step [OF E(2) inv step_client(3)] show ?thesis
      using told step_client(1) by fastforce
  next
    case step_control
    then show ?thesis using same pushes_control_step [OF inv] by blast
  qed (use same in simp_all)
qed

section \<open>A batch of messages\<close>

text \<open>The messages the loop of a client has not dispatched yet.\<close>

fun undispatched :: "client_loop \<Rightarrow> jsval list" where
  "undispatched (CReceive _ rest) = rest"
| "undispatched (CNext _ rest) = rest"
| "undispatched _ = []"

text \<open>The messages its next turn goes on with: those of the batch, or of the poll it awaits.\<close>

definition at_hand :: "ext \<Rightarrow> connref \<Rightarrow> world \<Rightarrow> jsval list" where
  "at_hand E c w = (case loops w c of
      CPoll i \<Rightarrow> (case poll_value E (pr_outcome (promises w ! i)) of
          Some (Inr (JArr ms)) \<Rightarrow> if conn_alive w c then ms else [] | _ \<Rightarrow> [])
    | l \<Rightarrow> undispatched l)"

text \<open>The state in which the turn goes on: the answer of the poll is consumed, a failure of the
  message before is logged.\<close>

definition resumed :: "ext \<Rightarrow> connref \<Rightarrow> world \<Rightarrow> world" where
  "resumed E c w = (case loops w c of
      CPoll i \<Rightarrow> mark_done i w
    | CNext (Some e) _ \<Rightarrow> sendLog ''warn'' (''rpc: client '' @ numberToString E (conn_id w c) @ '' dispatch error: '' @ e) w
    | _ \<Rightarrow> w)"

text \<open>The JSON-RPC server has run a message for the client, whose loop now awaits the response.\<close>

definition received :: "ext \<Rightarrow> receiver \<Rightarrow> connref \<Rightarrow> jsval \<Rightarrow> jsval list \<Rightarrow> world \<Rightarrow> world \<Rightarrow> bool" where
  "received E R c m rest w w' \<longleftrightarrow> (\<exists>response v. R (rpc_methods E) (errorListener E) m c (resumed E c w) = Some (response, v) \<and>
     w' = set_loop c (CReceive response rest) v)"

lemma loops_calls [simp]:
  "loops (mark_done i w) = loops w" "loops (dbus_reply i v w) = loops w" "loops (promise_timeout E i w) = loops w"
  "loops (print s w) = loops w"
  by (simp_all add: mark_done_def dbus_reply_def promise_timeout_def print_def)

lemma loops_set [simp]: "loops (set_loop c l w) = (loops w)(c := l)"
  by (simp add: set_loop_def)

lemma loops_turns [simp]:
  "d \<noteq> c \<Longrightarrow> loops (client_sleep ms c w) d = loops w d" "d \<noteq> c \<Longrightarrow> loops (run_head E c w) d = loops w d"
  "loops (control_poll w) = loops w" "loops (control_sleep ms w) = loops w"
  by (simp_all add: client_sleep_def run_head_def control_poll_def control_sleep_def sleep_def pollClient_def
      pollDaemon_def callDBusAsync_def new_promise_def)

lemma loops_reaction: "loops (promise_reaction E i w) = loops w"
  by (simp add: promise_reaction_def Let_def log_settled_def push_settled_def split: waiter.splits outcome.splits)

lemma loops_inner: "inner_step E w w' \<Longrightarrow> loops w' = loops w"
  using outer_fields(4) [of w' w] by (simp add: inner_step_def)

subsection \<open>The client whose turn it is\<close>

lemma dispatch_next_order:
  assumes "dispatch_next E R c ms (resumed E c w) = Some w'"
  shows "ms = [] \<and> undispatched (loops w' c) = [] \<or>
    (\<exists>m. ms = m # undispatched (loops w' c) \<and> received E R c m (undispatched (loops w' c)) w w')"
  using assms by (cases ms) (auto simp: dispatch_next_def received_def client_sleep_def sleep_def new_promise_def
      split: option.splits)

lemma client_step_order:
  assumes run: "client_step E R c w = Some w'"
  shows "(\<exists>response rest. loops w c = CReceive response rest \<and> w' = dispatch_answered E c response rest w) \<or>
    at_hand E c w = [] \<and> undispatched (loops w' c) = [] \<or>
    (\<exists>m. at_hand E c w = m # undispatched (loops w' c) \<and> received E R c m (undispatched (loops w' c)) w w')"
proof (cases "loops w c")
  case (CPoll i)
  obtain result where p: "poll_value E (pr_outcome (promises w ! i)) = Some result"
    "client_polled E R c result (mark_done i w) = Some w'"
    using run CPoll by (auto simp: client_step_def split: option.splits)
  have alive: "conn_alive (mark_done i w) c = conn_alive w c" by (simp add: mark_done_def)
  show ?thesis
  proof (cases "conn_alive w c \<and> (\<exists>ms. result = Inr (JArr ms))")
    case True
    then obtain ms where "result = Inr (JArr ms)" "dispatch_next E R c ms (resumed E c w) = Some w'"
      using p alive by (auto simp: client_polled_def resumed_def CPoll)
    then show ?thesis
      using dispatch_next_order [of E R c ms w w'] p True by (simp add: at_hand_def CPoll)
  next
    case False
    then have "at_hand E c w = []"
      using p by (auto simp: at_hand_def CPoll split: sum.splits jsval.splits)
    moreover have "undispatched (loops w' c) = []"
      using p(2) False alive by (auto simp: client_polled_def client_sleep_def sleep_def new_promise_def
          split: if_splits sum.splits jsval.splits)
    ultimately show ?thesis by blast
  qed
next
  case (CReceive response rest)
  then show ?thesis using run by (simp add: client_step_def)
next
  case (CNext err rest)
  then have "dispatch_next E R c rest (resumed E c w) = Some w'"
    using run by (cases err) (simp_all add: client_step_def dispatch_done_def resumed_def)
  from dispatch_next_order [OF this] show ?thesis by (simp add: at_hand_def CNext)
next
  case (CSleep i)
  then have "undispatched (loops w' c) = []"
    using run by (auto simp: client_step_def run_head_def pollClient_def callDBusAsync_def new_promise_def)
  then show ?thesis by (simp add: at_hand_def CSleep)
next
  case CStopped
  then show ?thesis using run by (simp add: client_step_def)
qed

subsection \<open>Everyone else\<close>

lemma loops_dispatch_next:
  assumes "kwin_documented E" "receiver_documented R" "good E w" "c < nextConn w"
    and "dispatch_next E R c ms w = Some w'" "d \<noteq> c"
  shows "loops w' d = loops w d"
  using assms(5,6) loops_inner [OF inner_step_receive [OF assms(1-4)]]
  by (auto simp: dispatch_next_def split: list.splits option.splits)

lemma loops_client_step_other:
  assumes E: "kwin_documented E" "receiver_documented R" and inv: "world_inv E None w" and c: "c < nextConn w"
    and run: "client_step E R c w = Some w'" and d: "d \<noteq> c"
  shows "loops w' d = loops w d"
proof (cases "loops w c")
  case (CPoll i)
  have "i < length (promises w)"
    using loop_inv_awaited [OF world_invD(3) [OF inv], of "Client c" i] CPoll by (simp add: awaited_def)
  then have "good E (mark_done i w)"
    using world_invD(1) [OF world_inv_resume [OF inv, of "Client c" i]] CPoll by simp
  moreover have "c < nextConn (mark_done i w)" using c by (simp add: mark_done_def)
  ultimately show ?thesis
    using run CPoll d loops_dispatch_next [OF E, of "mark_done i w" c]
    by (auto simp: client_step_def client_polled_def split: option.splits if_splits sum.splits jsval.splits)
next
  case (CReceive response rest)
  then show ?thesis
    using run d loops_inner [OF inner_step_reply_response [OF world_invD(1) [OF inv]]]
    by (auto simp: client_step_def dispatch_answered_def split: sum.splits)
next
  case (CNext err rest)
  then obtain v where v: "dispatch_next E R c rest v = Some w'" "v = w \<or> (\<exists>m. v = sendLog ''warn'' m w)"
    using run by (cases err) (auto simp: client_step_def dispatch_done_def)
  then have "good E v" "c < nextConn v" using world_invD(1) [OF inv] inner_step_good [OF inner_step_log] c by auto
  from loops_dispatch_next [OF E this v(1) d] show ?thesis using v(2) by auto
next
  case (CSleep i)
  then show ?thesis using run d by (auto simp: client_step_def)
next
  case CStopped
  then show ?thesis using run by (simp add: client_step_def)
qed

lemma loops_connected: "c < nextConn w \<Longrightarrow> loops (onClientConnected E i w) c = loops w c \<and> c < nextConn (onClientConnected E i w)"
  by (simp add: onClientConnected_def Let_def)
    (simp add: run_head_def pollClient_def callDBusAsync_def new_promise_def set_loop_def)

lemma loops_disconnected:
  assumes "good E w"
  shows "loops (onClientDisconnected E i w) = loops w \<and> nextConn (onClientDisconnected E i w) = nextConn w"
proof (cases "map_of (connections w) i")
  case None
  then show ?thesis by (simp add: onClientDisconnected_def)
next
  case (Some c)
  let ?v = "(stop_conn c w)\<lparr>connections := AList.delete i (connections (stop_conn c w))\<rparr>"
  have "good E ?v"
    by (rule good_change [OF assms]) (use good_dbus [OF assms] in \<open>auto simp: stop_conn_def dbus_inv_def\<close>)
  then have "same_outer (dropClientWorkspaceWatches E i (dropClientTokens E i ?v)) ?v"
    using inner_step_teardown [of E ?v i] by (simp add: inner_step_def)
  from outer_fields(2,4) [OF this] show ?thesis
    by (simp add: onClientDisconnected_def Some Let_def stop_conn_def)
qed

lemma loops_control_events:
  "world_inv E (Some Control) w \<Longrightarrow> c < nextConn w \<Longrightarrow> loops (fold (control_event E) evs w) c = loops w c"
proof (induction evs arbitrary: w)
  case (Cons ev evs)
  have "loops (control_event E ev w) c = loops w c \<and> c < nextConn (control_event E ev w)"
    using loops_connected [OF Cons.prems(2)] loops_disconnected [OF world_invD(1) [OF Cons.prems(1)]] Cons.prems(2)
    by (auto simp: control_event_def split: jsval.splits)
  then show ?case using Cons.IH [OF world_inv_control_event [OF Cons.prems(1)]] by simp
qed simp

lemma loops_control_step:
  assumes inv: "world_inv E None w" and c: "c < nextConn w"
  shows "loops (control_step E w) c = loops w c"
proof -
  have "loops (control_polled E result v) c = loops v c" if "world_inv E (Some Control) v" "c < nextConn v" for result v
    using loops_control_events [OF that] by (simp add: control_polled_def split: sum.splits jsval.splits)
  then have "loops (control_polled E result (mark_done i w)) c = loops w c" if "control w = KPoll i" for i result
    using world_inv_resume [OF inv, of Control i] that c by (simp add: mark_done_def)
  then show ?thesis by (simp add: control_step_def split: control_loop.splits option.splits)
qed

lemma loops_step:
  assumes E: "kwin_documented E" "receiver_documented R" and inv: "world_inv E None w" and st: "step E R w w'"
    and c: "c < nextConn w"
  shows "loops w' c = loops w c \<or> client_step E R c w = Some w'"
  using st
proof cases
  case (step_deadline r)
  then show ?thesis using loops_inner [OF inner_step_events(1) [OF world_invD(1) [OF inv]]] by simp
next
  case (step_signal n sig arg)
  then show ?thesis using loops_inner [OF inner_step_events(2) [OF world_invD(1) [OF inv]]] by simp
next
  case (step_client d)
  then show ?thesis using loops_client_step_other [OF E inv step_client(1,3), of c] by blast
qed (simp_all add: loops_reaction loops_control_step [OF inv c])

end
