(* ===== verification/Bundler.thy ===== *)
theory Bundler
  imports Prelude
begin

text \<open>
  The build script \<open>esbuild.build.mjs\<close>: the options it passes to esbuild, and the order of its
  steps. Each \<open>await\<close> at the top level may reject, which ends the script with the error.

  The file system, \<open>mkdir\<close> and esbuild are parameters: a step maps the state of the disk to a new
  one or to an error. \<open>dirname\<close> is the function of \<open>node:path\<close> on POSIX.
\<close>

record build_options =
  opt_entryPoints :: "string list"
  opt_bundle :: bool
  opt_format :: string
  opt_platform :: string
  opt_target :: "string list"
  opt_mainFields :: "string list"
  opt_outfile :: string
  opt_legalComments :: string
  opt_banner_js :: string
  opt_logLevel :: string

text \<open>The dash of the banner is written as the three bytes of its UTF-8 form.\<close>

definition options :: build_options where
  "options = \<lparr>
     opt_entryPoints = [''src/index.ts''],
     opt_bundle = True,
     opt_format = ''iife'',
     opt_platform = ''neutral'',
     opt_target = [''es2016''],
     opt_mainFields = [''main'', ''module''],
     opt_outfile = ''dist/kwinscript.js'',
     opt_legalComments = ''none'',
     opt_banner_js = ''// kwin-api-server kwinscript bundle (generated by esbuild) '' @
       [CHR 0xE2, CHR 0x80, CHR 0x94] @ '' do not edit.'' @ [CHR 0x0A] @ ''// Source: kwinscript/src/index.ts'',
     opt_logLevel = ''info''\<rparr>"

text \<open>\<open>dirname\<close>: without the trailing slashes and the last component; a slash at the front is the
  root, and is not a separator.\<close>

definition dirname :: "string \<Rightarrow> string" where
  "dirname path = (case path of
      [] \<Rightarrow> ''.''
    | c # rest \<Rightarrow>
        (case dropWhile (\<lambda>d. d \<noteq> CHR ''/'') (dropWhile (\<lambda>d. d = CHR ''/'') (rev rest)) of
           [] \<Rightarrow> if c = CHR ''/'' then ''/'' else ''.''
         | _ # before \<Rightarrow> if c = CHR ''/'' \<and> before = [] then ''//'' else c # rev before))"

record ('c, 'd) tools =
  mkdir :: "string \<Rightarrow> bool \<Rightarrow> 'd \<Rightarrow> string + 'd"
  esbuild_build :: "build_options \<Rightarrow> 'd \<Rightarrow> string + 'd"
  esbuild_context :: "build_options \<Rightarrow> 'd \<Rightarrow> string + ('c \<times> 'd)"
  ctx_watch :: "'c \<Rightarrow> 'd \<Rightarrow> string + 'd"

text \<open>The whole script, with its command line: the disk and the console lines it ends with.\<close>

definition build_script :: "('c, 'd) tools \<Rightarrow> string list \<Rightarrow> 'd \<Rightarrow> string + ('d \<times> string list)" where
  "build_script T argv disk =
     (let watch = ''--watch'' \<in> set argv in
      case mkdir T (dirname (opt_outfile options)) True disk of
        Inl e \<Rightarrow> Inl e
      | Inr disk1 \<Rightarrow>
          if watch then
            (case esbuild_context T options disk1 of
               Inl e \<Rightarrow> Inl e
             | Inr (ctx, disk2) \<Rightarrow>
                 (case ctx_watch T ctx disk2 of
                    Inl e \<Rightarrow> Inl e
                  | Inr disk3 \<Rightarrow> Inr (disk3, [''watching kwinscript/src for changes ...''])))
          else (case esbuild_build T options disk1 of
              Inl e \<Rightarrow> Inl e
            | Inr disk2 \<Rightarrow> Inr (disk2, [])))"

text \<open>On a relative path of at least two components, \<open>dirname\<close> drops the last one.\<close>

lemma dirname_append:
  assumes "CHR ''/'' \<notin> set name" "name \<noteq> []" "dir \<noteq> []"
  shows "dirname (dir @ ''/'' @ name) = dir \<or> dir = ''/''"
proof (cases dir)
  case (Cons c ds)
  obtain n ns where n: "rev name = n # ns" "n \<noteq> CHR ''/''"
    using assms(1,2) by (metis list.exhaust list.set_intros(1) rev_is_Nil_conv set_rev)
  have "\<forall>d \<in> set (rev name). d \<noteq> CHR ''/''" using assms(1) by auto
  then have "dropWhile (\<lambda>d. d \<noteq> CHR ''/'') (rev name @ CHR ''/'' # rev ds) = CHR ''/'' # rev ds"
    by (simp add: dropWhile_append3 dropWhile_append2)
  then have "dropWhile (\<lambda>d. d \<noteq> CHR ''/'') (dropWhile (\<lambda>d. d = CHR ''/'') (rev name @ CHR ''/'' # rev ds)) = CHR ''/'' # rev ds"
    using n by simp
  then show ?thesis using Cons by (simp add: dirname_def)
qed (use assms(3) in simp)

text \<open>The directory is made before esbuild writes into it, and a step that fails is the last one.\<close>

lemma build_script_order:
  assumes "build_script T argv disk = Inr (disk', out)"
  obtains disk1 where "mkdir T ''dist'' True disk = Inr disk1"
    and "''--watch'' \<in> set argv \<Longrightarrow> \<exists>ctx disk2. esbuild_context T options disk1 = Inr (ctx, disk2) \<and>
      ctx_watch T ctx disk2 = Inr disk' \<and> out \<noteq> []"
    and "''--watch'' \<notin> set argv \<Longrightarrow> esbuild_build T options disk1 = Inr disk' \<and> out = []"
proof -
  have "dirname (opt_outfile options) = ''dist''" by (simp add: options_def dirname_def)
  then show thesis
    using assms that by (auto simp: build_script_def Let_def split: sum.splits if_splits)
qed

text \<open>Without the flag the script does not start watching, with it it does not build by itself.\<close>

lemma build_script_mode:
  "''--watch'' \<notin> set argv \<Longrightarrow> build_script (T\<lparr>esbuild_context := x, ctx_watch := y\<rparr>) argv = build_script T argv"
  "''--watch'' \<in> set argv \<Longrightarrow> build_script (T\<lparr>esbuild_build := z\<rparr>) argv = build_script T argv"
  by (auto simp: fun_eq_iff build_script_def split: sum.splits)

end
