(* ===== verification/Spec2Isabelle.thy ===== *)
theory Spec2Isabelle
  imports Token_Simulation Confinement Token_Properties Method_Properties Workspace_Properties Signal_Properties
    Loop_Properties Dispatch Bundler
begin

text \<open>
  A model of the KWin script of kwin-api-server (\<open>src/kwinscript/src\<close>) and the theorems that make
  it correct.

  The program. A daemon (C++) accepts WebSocket clients and offers them to a script inside KWin
  over D-Bus. The script is the application layer: it polls the daemon for clients that come and
  go (\<open>clients.ts\<close>), polls each client for JSON-RPC messages, dispatches them through one JSON-RPC
  server (\<open>jsonrpc.ts\<close>), and pushes responses and notifications back (\<open>dbus.ts\<close>). A client claims a
  window of its own by showing a token in the window's title (\<open>tokens.ts\<close>); with a claimed token it
  may update, query and watch properties of the window (\<open>windows.ts\<close>); properties of the workspace
  need no token (\<open>workspace.ts\<close>). \<open>index.ts\<close> loads the modules and starts the control loop.

  The model, in the order of the imports. Every theory names the file it models; definitions
  have the names of the functions they translate, and the registries and handlers are executable.

  \<^item> \<open>Prelude\<close>: JavaScript maps and sets as association lists and lists in insertion order, fold
    lemmas, the collections of frame and constant facts. \<open>Js\<close>: JavaScript values, errors and zod
    schemas as data. \<open>Kwin\<close>: the declarations of kwin-ts as tables, windows, desktops, timers,
    signals and slots; and the record \<open>ext\<close> of the code that is not in the repository: zod, the
    notification constructor of json-rpc-2.0, JSON and number formatting, \<open>Math.random\<close>, and what
    KWin does on an assignment or a \<open>disconnect\<close>.
  \<^item> \<open>Dbus\<close> (\<open>dbus.ts\<close>): calls and sleeps as promises with a single-shot timer. \<open>Jsonrpc\<close>
    (\<open>jsonrpc.ts\<close>): validated methods, notifications, the reply rules of \<open>dispatchMessage\<close>.
  \<^item> \<open>Window_Watches\<close>, \<open>Property_Methods\<close>, \<open>Window_Methods\<close> (\<open>windows.ts\<close>): catalogs, the watch
    registry, and the three methods. \<open>Tokens\<close> (\<open>tokens.ts\<close>): the token registry, with entries in a
    store because two maps share them. \<open>Workspace_Watches\<close>, \<open>Workspace_Methods\<close> (\<open>workspace.ts\<close>).
  \<^item> \<open>Events\<close>: which function each connected slot runs, how a signal runs its slots in order, what
    happens while an assignment to KWin is running, and the load-time wiring.
  \<^item> \<open>Clients\<close> (\<open>clients.ts\<close>, \<open>index.ts\<close>): the state of an asynchronous loop is the \<open>await\<close> it is
    suspended at; a step runs it to the next one. The relation \<open>step\<close> has one rule per thing that can
    happen next, in any order: a token deadline, a signal of KWin, a D-Bus reply, a timeout, the
    continuation of a settled call, a turn of the control loop or of a client's loop.
    \<open>script_reachable\<close> is reachability from the loaded script.
  \<^item> \<open>Bundler\<close> (\<open>esbuild.build.mjs\<close>): the options passed to esbuild and the steps of the build
    script; independent of the rest.

  The state is one record that each component extends with its own fields; an operation is a
  function on every extension of the state it needs, so an operation cannot touch what is declared
  above it. Failing code returns a sum, code that may not return (\<open>token.request\<close> samples until it
  finds a fresh token, by \<open>partial_function\<close>) an option.

  The lemmas. \<open>Token_Lemmas\<close>, \<open>Workspace_Watch_Lemmas\<close>, \<open>Effects\<close>: each operation keeps the
  invariant of the registries (\<open>full_inv\<close>). \<open>Property_Methods\<close> has the interface \<open>watch_registry\<close>
  under which the loop of a watch method is correct; both watch registries interpret it.
  \<open>Transition\<close>: the interfaces \<open>transition_system\<close>, \<open>evolving_system\<close> and \<open>simulation\<close>. \<open>Client_Lemmas\<close>,
  \<open>Script_Invariant\<close>: the invariant of the whole script (\<open>world_inv\<close>: registries, connection table,
  and which loop awaits which promise), kept by every step. \<open>Script_History\<close>: what no step undoes;
  there the script interprets \<open>evolving_system\<close>. \<open>Script_Progress\<close>: the loop of a live client never
  ends. \<open>Token_Spec\<close>: the specification of the claiming protocol, a map from tokens to claims, and
  the abstraction to it. \<open>Token_Simulation\<close>: the protocol as a transition system with its own
  invariant; the script interprets \<open>simulation\<close>, so that what the protocol keeps holds of the
  script. \<open>Confinement\<close>: no operation but an assignment depends on what KWin does on assignments.
  \<open>Dispatch\<close>: whom a step pushes to, and how the loop of a client goes through a batch of messages
  while other steps come in between. \<open>Reference_Env\<close>: an environment that satisfies all hypotheses,
  and a run in it on which the witnesses evaluate the model.

  The properties. \<open>Token_Properties\<close>: the operations on tokens refine the specification and tell the
  right client. \<open>Method_Properties\<close>, \<open>Workspace_Properties\<close>: validation before any change, round
  trips of update and query, watches, parameters, responses. \<open>Signal_Properties\<close>: the slots
  connected at load stay connected, signals of KWin drive claims and catalogs, and a watched change
  of a window or of the workspace is told once. \<open>Loop_Properties\<close>: connections, polls, calls,
  progress. This theory: properties that span the components: claims, deadlines, watches, updates,
  and the messages that are dispatched and pushed.

  Hypotheses on code outside the repository, each satisfied in \<open>Reference_Env\<close>:
  \<open>kwin_documented\<close> (a destroyed object stays destroyed), \<open>receiver_documented\<close> (the JSON-RPC server
  only runs registered methods and the error listener, so a batch is a sequence of method calls),
  \<open>zod_documented\<close> (which values a schema accepts), \<open>random_documented\<close> (\<open>Math.random\<close> is in [0, 1)),
  \<open>workspace_lives\<close> (the workspace object is not destroyed). D-Bus replies are arbitrary values.

  Simplifications. \<open>rpcServer.receive\<close> runs its methods in one step, before its promise is awaited;
  every handler of the script is synchronous. Numbers are rationals. Strings are lists of
  characters. A timer may fire at any moment while it is active: no theorem depends on durations.

  Not modelled: the daemon and the native messaging host (C++ and Python, behind D-Bus), tests, and
  the declarations of kwin-ts the script does not use. Of the script itself only its import
  statements are left out.
\<close>

section \<open>Tokens\<close>

text \<open>C1. In every state the script can reach, a window is claimed by at most one token.\<close>

theorem claims_exclusive:
  assumes "environment E R" "script_reachable E R w"
  shows "exclusive (abs_claims w)"
  using reachable_protocol(2) [OF assms] by (simp add: claims_ok_def)

theorem claims_exclusive_witness: "demo_reachable demo_bound \<and> exclusive (abs_claims demo_bound)"
  using demo_reachable_states(3) claims_exclusive [OF ref_environment demo_reachable_states(3)] by blast

text \<open>C2. The script implements the claiming protocol. It starts without claims, and every step it
  takes from a reachable state, of whatever kind, changes the claims by a sequence of protocol
  events: tokens that are not in use are granted to a client whose loop runs, a window shows a
  caption KWin gave it, a window closes, a deadline that is still ahead expires, the claims of connections that are dead
  are dropped. So the claims of every reachable state can be reached by the protocol alone.\<close>

theorem claims_simulation:
  assumes "environment E R" "script_reachable E R w" "step E R w w'"
  shows "abs_claims (load_script E n) = (\<lambda>_. None) \<and> reachable no_claims claim_step (abs_claims w) \<and>
    (\<exists>evs. claim_run evs (abs_claims w) = Some (abs_claims w') \<and> (\<forall>ev \<in> set evs. step_event E w w' ev))"
  using abs_claims_load [of E n] reachable_protocol(1) [OF assms(1,2)]
    claims_by_step [OF _ _ reachable_world_inv [OF assms(1,2)] assms(3)] assms(1)
  by (auto simp: no_claims_def claims_by_def environment_def list_all_iff)

theorem claims_simulation_witness:
  "\<exists>evs. claim_run evs (abs_claims demo_requested) =
       Some (abs_claims (deadline_fires ref_ext 0 demo_requested)) \<and>
     (\<forall>ev \<in> set evs. step_event ref_ext demo_requested (deadline_fires ref_ext 0 demo_requested) ev)"
proof -
  have "step ref_ext ref_single demo_requested (deadline_fires ref_ext 0 demo_requested)"
    by (rule step_deadline) (use demo_requested_facts in simp_all)
  from claims_simulation [OF ref_environment demo_reachable_states(2) this] show ?thesis by blast
qed



text \<open>C15. The deadline of a token withdraws the token while it is unbound, and closes a bound one to
  further matches but leaves it with its window. In every reachable state an unbound token is open,
  and the deadline of an open token is still to fire: a token is bound, expires, or is dropped with
  its client, and is not forgotten.\<close>

theorem deadlines_fire:
  assumes "environment E R" "script_reachable E R w"
  shows "(\<forall>r < nextEntry w. tm_active (te_timer (entries w r)) \<longrightarrow>
      abs_claims (deadline_fires E r w) = a_deadline (te_token (entries w r)) (abs_claims w)) \<and>
    (\<forall>t cl. abs_claims w t = Some cl \<longrightarrow> (cl_window cl = None \<longrightarrow> cl_open cl) \<and>
      (cl_open cl \<longrightarrow> (\<exists>r < nextEntry w. te_token (entries w r) = t \<and> step E R w (deadline_fires E r w) \<and>
        abs_claims (deadline_fires E r w) = a_deadline t (abs_claims w))))"
proof (intro conjI allI impI)
  note inv = world_inv_script [OF reachable_world_inv [OF assms]]
  show fires: "abs_claims (deadline_fires E r w) = a_deadline (te_token (entries w r)) (abs_claims w)"
    if "r < nextEntry w" "tm_active (te_timer (entries w r))" for r
    using that by (rule abs_deadline_fires [OF inv])
  fix t cl
  assume "abs_claims w t = Some cl"
  then obtain r where r: "map_of (byToken w) t = Some r" "cl = claim_of (entries w r)"
    by (auto simp: abs_claims_def)
  note e = tok_inv_token [OF script_invD(3) [OF inv] r(1)]
  show "cl_open cl" if "cl_window cl = None"
    using that e r(2) by (auto simp: entry_ok_def split: TokenState.splits option.splits)
  show "\<exists>r < nextEntry w. te_token (entries w r) = t \<and> step E R w (deadline_fires E r w) \<and>
      abs_claims (deadline_fires E r w) = a_deadline t (abs_claims w)" if "cl_open cl"
    using that e r(2) fires [of r] by (auto intro!: exI [of _ r] step_deadline)
qed

theorem deadlines_fire_witness:
  "\<exists>r < nextEntry demo_requested. te_token (entries demo_requested r) = demo_token \<and>
    step ref_ext ref_single demo_requested (deadline_fires ref_ext r demo_requested) \<and>
    abs_claims (deadline_fires ref_ext r demo_requested) = a_deadline demo_token (abs_claims demo_requested)"
proof -
  have "abs_claims demo_requested demo_token = Some (claim_of (entries demo_requested 0))"
    "cl_open (claim_of (entries demo_requested 0))"
    using demo_requested_facts by (simp_all add: abs_claims_def)
  then show ?thesis using deadlines_fire [OF ref_environment demo_reachable_states(2)] by blast
qed

text \<open>C37. Looking up the first 20 characters of a caption is the same as searching for a token
  that is a prefix of the caption, in every reachable state.\<close>

theorem caption_lookup:
  assumes "environment E R" "random_documented E" "script_reachable E R w"
  shows "TOKEN_LENGTH \<le> length caption \<and> abs_claims w (take TOKEN_LENGTH caption) = Some cl \<longleftrightarrow>
    (\<exists>t. prefix t caption \<and> abs_claims w t = Some cl)"
proof
  show "\<exists>t. prefix t caption \<and> abs_claims w t = Some cl"
    if "TOKEN_LENGTH \<le> length caption \<and> abs_claims w (take TOKEN_LENGTH caption) = Some cl"
    using that take_is_prefix by blast
next
  assume "\<exists>t. prefix t caption \<and> abs_claims w t = Some cl"
  then obtain t r where t: "prefix t caption" "abs_claims w t = Some cl" "map_of (byToken w) t = Some r"
    by (auto simp: abs_claims_def)
  have "registry_wf E w"
    by (rule goodD(3) [OF world_invD(1) [OF reachable_world_inv [OF assms(1,3)]]])
  then have "length t = TOKEN_LENGTH"
    using t(3) assms(2) by (auto simp: registry_wf_def well_formed_token_def)
  then show "TOKEN_LENGTH \<le> length caption \<and> abs_claims w (take TOKEN_LENGTH caption) = Some cl"
    using t(1,2) by (auto simp: prefix_def)
qed

theorem caption_lookup_witness:
  "\<exists>t. prefix t (demo_token @ '' x'') \<and> abs_claims demo_bound t = Some (claim_of (entries demo_bound 0))"
  using caption_lookup [OF ref_environment ref_ext_random demo_reachable_states(3), of "demo_token @ '' x''"
      "claim_of (entries demo_bound 0)"] demo_bound_facts
  by (auto simp: abs_claims_def demo_token_def TOKEN_LENGTH_def)

section \<open>Watches\<close>

text \<open>C6. In every reachable state, a watch slot connected to a live window signal belongs to the
  connection that owns the bound token it was made for, on that token's window; a watch slot
  connected to a live workspace signal belongs to a watch in its client's registry. Nobody
  is told about a window they no longer own.\<close>

theorem watch_isolation:
  assumes "environment E R" "script_reachable E R w" "(sig, sl) \<in> set (slots w)" "\<not> dead_signal E (native w) sig"
  shows "(sl = SlotWindowWatch n t c wd p \<longrightarrow> sig = propSignal wd p \<and>
      resolveTokenWindow t c w = Inr wd \<and> window_watched w t p) \<and>
    (sl = SlotWorkspaceWatch n c p \<longrightarrow> sig = workspaceSignal p \<and> ws_watched w (conn_id w c) p)"
proof (intro conjI impI)
  note inv = reachable_world_inv [OF assms(1,2)]
  show "sig = propSignal wd p" "resolveTokenWindow t c w = Inr wd" "window_watched w t p"
    if "sl = SlotWindowWatch n t c wd p"
    using live_window_slot [OF world_inv_full [OF inv], of sig n t c wd p] assms(3,4) that by simp_all
  show "sig = workspaceSignal p" "ws_watched w (conn_id w c) p" if "sl = SlotWorkspaceWatch n c p"
    using live_workspace_slot [OF world_inv_full [OF inv], of sig n c p] assms(3,4) that by simp_all
qed

theorem watch_isolation_witness:
  "(propSignal demo_window ''keepAbove'', SlotWindowWatch 0 demo_token 0 demo_window ''keepAbove'')
     \<in> set (slots demo_watched) \<and>
   resolveTokenWindow demo_token 0 demo_watched = Inr demo_window \<and> window_watched demo_watched demo_token ''keepAbove''"
proof -
  have sl: "(propSignal demo_window ''keepAbove'', SlotWindowWatch 0 demo_token 0 demo_window ''keepAbove'')
     \<in> set (slots demo_watched)"
    using demo_watched_facts by simp
  moreover have "\<not> dead_signal ref_ext (native demo_watched) (propSignal demo_window ''keepAbove'')"
    by (simp add: dead_signal_def ref_ext_def)
  ultimately show ?thesis
    using watch_isolation [OF ref_environment demo_reachable_states(4)] by blast
qed

section \<open>Updates\<close>

text \<open>A KWin that refuses assignments to one window.\<close>

definition denying :: "assignment \<Rightarrow> native \<Rightarrow> reaction" where
  "denying a n = (if assigned a = Some demo_other
     then \<lparr>rc_emissions = [], rc_native = n, rc_raised = Some ''denied''\<rparr> else ref_assign a n)"

lemma demo_owned: "resolveTokenWindow t 0 demo_bound \<noteq> Inr demo_other"
proof
  assume other: "resolveTokenWindow t 0 demo_bound = Inr demo_other"
  have "byToken demo_bound = [(demo_token, 0)]"
    unfolding demo_bound_def by (rule demo_atI) code_simp
  then have "t = demo_token" using other by (auto simp: resolveTokenWindow_iff split: if_splits)
  then show False using other demo_resolves by (simp add: demo_window_def demo_other_def)
qed

text \<open>C5. A method called on a connection assigns nothing but properties of the workspace and of the
  windows that the connection's own tokens are bound to: whatever KWin would do on any other
  assignment, the call returns the same and leaves the same state.\<close>

theorem assignments_confined:
  assumes "\<forall>a n. (\<forall>wd. assigned a = Some wd \<longrightarrow> (\<exists>t. resolveTokenWindow t c w = Inr wd)) \<longrightarrow> k a n = kwinAssign E a n"
    and "map_of (rpc_methods E) name = Some h" "map_of (rpc_methods (with_assign k E)) name = Some h'"
  shows "h' params c w = h params c w"
proof (rule method_agree [OF _ assms(2,3)])
  show "agree_on (may_assign c w) k E"
    unfolding agree_on_def
  proof (intro allI impI)
    fix a n
    assume "may_assign c w (assigned a)"
    then have "\<forall>wd. assigned a = Some wd \<longrightarrow> (\<exists>t. resolveTokenWindow t c w = Inr wd)"
      by (auto simp: may_assign_def)
    then show "k a n = kwinAssign E a n" using assms(1) by blast
  qed
qed

theorem assignments_confined_witness:
  "\<forall>params. method_windows_update (with_assign denying ref_ext) params 0 demo_bound =
     method_windows_update ref_ext params 0 demo_bound"
proof
  fix params
  show "method_windows_update (with_assign denying ref_ext) params 0 demo_bound =
      method_windows_update ref_ext params 0 demo_bound"
  proof (rule assignments_confined [where name = "''windows.update''"])
    show "\<forall>a n. (\<forall>wd. assigned a = Some wd \<longrightarrow> (\<exists>t. resolveTokenWindow t 0 demo_bound = Inr wd)) \<longrightarrow>
        denying a n = kwinAssign ref_ext a n"
      using demo_owned by (auto simp: denying_def ref_ext_def)
  qed (simp_all add: rpc_methods_def)
qed

section \<open>Messages\<close>

text \<open>C10. Nobody is sent anything but a client that is connected, or the client whose message has just
  been answered: what a step from a reachable state pushes goes to clients of the connection table,
  except for the response to a message that the loop of a connection has dispatched, which goes to
  the client of that connection.\<close>

theorem pushes_addressed:
  assumes "environment E R" "script_reachable E R w" "step E R w w'"
  shows "\<exists>xs. pushes w' = pushes w @ xs \<and> (\<forall>i m. (i, m) \<in> set xs \<longrightarrow> (\<exists>c < nextConn w. conn_id w c = i \<and>
    (map_of (connections w) i = Some c \<or> (\<exists>v rest. loops w c = CReceive (Inr v) rest))))"
proof -
  note inv = reachable_world_inv [OF assms(1,2)]
  have "kwin_documented E" "receiver_documented R"
    using assms(1) by (auto simp: environment_def)
  from tells_step [OF this inv assms(3)] obtain xs where
    new: "pushes w' = pushes w @ xs" and to: "\<forall>(i, m) \<in> set xs. \<exists>c < nextConn w. conn_id w c = i \<and> (conn_alive w c \<or> answers c w)"
    by (elim exE conjE)
  show ?thesis
  proof (intro exI [of _ xs] conjI allI impI)
    show "pushes w' = pushes w @ xs" by (rule new)
    fix i m
    assume "(i, m) \<in> set xs"
    from bspec [OF to this] obtain c where c: "c < nextConn w" "conn_id w c = i" "conn_alive w c \<or> answers c w"
      by (simp only: prod.case) blast
    then show "\<exists>c < nextConn w. conn_id w c = i \<and>
        (map_of (connections w) i = Some c \<or> (\<exists>v rest. loops w c = CReceive (Inr v) rest))"
      using conn_invD(3) [OF world_invD(2) [OF inv] c(1)] unfolding answers_def by metis
  qed
qed

theorem pushes_addressed_witness:
  "\<exists>i m. (i, m) \<in> set (pushes demo_bound) \<and> (\<exists>c < nextConn demo_requested. conn_id demo_requested c = i \<and>
     (map_of (connections demo_requested) i = Some c \<or> (\<exists>v rest. loops demo_requested c = CReceive (Inr v) rest)))"
proof -
  have st: "step ref_ext ref_single demo_requested demo_bound"
    using demo_step [of 4] by (simp add: demo_states demo_events_def eval_nat_numeral)
  have none: "pushes demo_requested = []" and some: "pushes demo_bound \<noteq> []"
    unfolding demo_states by (rule demo_atI, code_simp)+
  from pushes_addressed [OF ref_environment demo_reachable_states(2) st] none obtain xs where
    "pushes demo_bound = xs" and to: "\<forall>i m. (i, m) \<in> set xs \<longrightarrow> (\<exists>c < nextConn demo_requested.
      conn_id demo_requested c = i \<and> (map_of (connections demo_requested) i = Some c \<or>
        (\<exists>v rest. loops demo_requested c = CReceive (Inr v) rest)))"
    by (metis append_Nil)
  moreover from this some obtain i m where "(i, m) \<in> set xs" by (cases xs) auto
  ultimately show ?thesis by blast
qed



end
